(* ===== verification/Nkv_Prelude.thy ===== *)
theory Nkv_Prelude
  imports Main "HOL-Library.Word"
begin

text \<open>
  Shared vocabulary of the development: the machine types of \<^verbatim>\<open>include/meas.h\<close>, the
  ways an operation of the C++ code can fail, little-endian byte images, a byte-addressed
  memory for mapped files, and the generic list lemmas that the component theories use.
  Nothing here models a file of the repository; every other theory imports it.
\<close>

unbundle bit_operations_syntax

section \<open>Machine types and failures\<close>

type_synonym u8 = "8 word"
type_synonym u64 = "64 word"

type_synonym Time = u64
type_synonym Id = u64
type_synonym Flag = u64

text \<open>
  \<open>Exception\<close> is a \<^verbatim>\<open>utils::Exception\<close> made by \<^verbatim>\<open>MAKE_EXCEPTION\<close>,
  \<open>Logic_error\<close> the thrown pointer of \<^verbatim>\<open>BTree::make_node\<close>, \<open>Out_of_range\<close> what
  \<^verbatim>\<open>std::vector::at\<close> throws, \<open>Assert_failed\<close> a failing \<^verbatim>\<open>assert\<close> of a debug build,
  \<open>Undefined\<close> an access outside an array or through a null pointer, and \<open>No_fuel\<close> the
  value of a loop of the model that was cut off; the termination theorems exclude it.
\<close>

datatype nkv_error =
  Exception string | Logic_error | Out_of_range | Assert_failed | Undefined | No_fuel

type_synonym 'a result = "nkv_error + 'a"

fun bind_r :: "'a result \<Rightarrow> ('a \<Rightarrow> 'b result) \<Rightarrow> 'b result" where
  "bind_r (Inl e) f = Inl e"
| "bind_r (Inr x) f = f x"

lemma bind_r_cong [fundef_cong]:
  "r = r' \<Longrightarrow> (\<And>x. r' = Inr x \<Longrightarrow> f x = f' x) \<Longrightarrow> bind_r r f = bind_r r' f'"
  by (cases r') auto

lemma bind_r_eq_Inr: "bind_r r f = Inr y \<longleftrightarrow> (\<exists>x. r = Inr x \<and> f x = Inr y)"
  by (cases r) auto

lemma bind_r_split:
  "P (bind_r r f) \<longleftrightarrow> (\<forall>e. r = Inl e \<longrightarrow> P (Inl e)) \<and> (\<forall>x. r = Inr x \<longrightarrow> P (f x))"
  by (cases r) auto

text \<open>Subtraction of \<^verbatim>\<open>size_t\<close> values, which wraps around.\<close>

definition sub64 :: "nat \<Rightarrow> nat \<Rightarrow> nat" where
  "sub64 a b = nat ((int a - int b) mod 2 ^ 64)"

lemma sub64_simple [simp]: "b \<le> a \<Longrightarrow> a < 2 ^ 64 \<Longrightarrow> sub64 a b = a - b"
  by (simp add: sub64_def nat_diff_distrib' flip: of_nat_diff)

lemma sub64_wrap:
  assumes "a < b" and "b - a \<le> 8"
  shows "sub64 a b = 2 ^ 64 - (b - a)"
proof -
  let ?d = "int a - int b"
  have "(?d + 2 ^ 64) mod 2 ^ 64 = ?d + 2 ^ 64" by (rule mod_pos_pos_trivial) (use assms in auto)
  then have "sub64 a b = nat (?d + 2 ^ 64)" by (simp add: sub64_def)
  also have "\<dots> = 2 ^ 64 - (b - a)"
  proof -
    have "int (2 ^ 64 - (b - a)) = ?d + 2 ^ 64" using assms by (simp add: of_nat_diff)
    then show ?thesis by simp
  qed
  finally show ?thesis .
qed

text \<open>How the streams of the language print a number.\<close>

fun show_nat :: "nat \<Rightarrow> string" where
  "show_nat n = (if n < 10 then [char_of (48 + n)] else show_nat (n div 10) @ [char_of (48 + n mod 10)])"

declare show_nat.simps [simp del]

text \<open>A loop that threads a state through a fallible body, element by element.\<close>

fun fold_r :: "('s \<Rightarrow> 'a \<Rightarrow> 's result) \<Rightarrow> 's \<Rightarrow> 'a list \<Rightarrow> 's result" where
  "fold_r f s [] = Inr s"
| "fold_r f s (x # xs) = bind_r (f s x) (\<lambda>s'. fold_r f s' xs)"

lemma fold_r_append: "fold_r f s (xs @ ys) = bind_r (fold_r f s xs) (\<lambda>s'. fold_r f s' ys)"
  by (induction xs arbitrary: s) (auto split: bind_r_split)

lemma fold_r_invariant:
  assumes "P s" and step: "\<And>s x s'. P s \<Longrightarrow> x \<in> set xs \<Longrightarrow> f s x = Inr s' \<Longrightarrow> P s'"
    and "fold_r f s xs = Inr t"
  shows "P t"
proof -
  have "set ys \<subseteq> set xs \<Longrightarrow> P u \<Longrightarrow> fold_r f u ys = Inr t \<Longrightarrow> P t" for ys u
  proof (induction ys arbitrary: u)
    case Nil
    then show ?case by simp
  next
    case (Cons y ys)
    then obtain u' where "f u y = Inr u'" "fold_r f u' ys = Inr t"
      by (auto simp: bind_r_eq_Inr)
    with Cons step [of u y u'] show ?case by simp
  qed
  with assms(1,3) show ?thesis by blast
qed

named_theorems nkv_wf \<open>preservation of well-formedness by the operations\<close>
named_theorems nkv_frame \<open>fields that an operation leaves alone\<close>

section \<open>Vectors\<close>

text \<open>\<open>resize d n xs\<close> is \<^verbatim>\<open>std::vector::resize(n)\<close> with default element \<open>d\<close>.\<close>

definition resize :: "'a \<Rightarrow> nat \<Rightarrow> 'a list \<Rightarrow> 'a list" where
  "resize d n xs = take n xs @ replicate (n - length xs) d"

lemma length_resize [simp]: "length (resize d n xs) = n"
  by (simp add: resize_def)

lemma nth_resize: "i < n \<Longrightarrow> resize d n xs ! i = (if i < length xs then xs ! i else d)"
  by (auto simp: resize_def nth_append)

lemma resize_grow: "length xs \<le> n \<Longrightarrow> resize d n xs = xs @ replicate (n - length xs) d"
  by (simp add: resize_def)

text \<open>
  \<open>lower_bound p xs\<close> is \<^verbatim>\<open>std::lower_bound\<close> over a range partitioned by \<open>p\<close>: the
  index of the first element for which \<open>p\<close> fails, the length if there is none.
\<close>

definition lower_bound :: "('a \<Rightarrow> bool) \<Rightarrow> 'a list \<Rightarrow> nat" where
  "lower_bound p xs = length (takeWhile p xs)"

lemma lower_bound_le: "lower_bound p xs \<le> length xs"
  by (simp add: lower_bound_def length_takeWhile_le)

lemma lower_bound_before: "i < lower_bound p xs \<Longrightarrow> p (xs ! i)"
  unfolding lower_bound_def by (metis nth_mem set_takeWhileD takeWhile_nth)

lemma lower_bound_at: "lower_bound p xs < length xs \<Longrightarrow> \<not> p (xs ! lower_bound p xs)"
  unfolding lower_bound_def by (rule nth_length_takeWhile)

lemma take_lower_bound: "take (lower_bound p xs) xs = takeWhile p xs"
  by (simp add: lower_bound_def takeWhile_eq_take [symmetric])

lemma drop_lower_bound: "drop (lower_bound p xs) xs = dropWhile p xs"
  by (simp add: lower_bound_def dropWhile_eq_drop [symmetric])

text \<open>Insertion at a position.\<close>

definition insert_at :: "nat \<Rightarrow> 'a \<Rightarrow> 'a list \<Rightarrow> 'a list" where
  "insert_at d x xs = take d xs @ x # drop d xs"

lemma length_insert_at [simp]: "length (insert_at d x xs) = Suc (length xs)"
  by (simp add: insert_at_def)

lemma insert_at_not_Nil [simp]: "insert_at d x xs \<noteq> []"
  by (simp add: insert_at_def)

lemma set_insert_at [simp]: "set (insert_at d x xs) = insert x (set xs)"
proof -
  have "set xs = set (take d xs) \<union> set (drop d xs)"
    by (metis append_take_drop_id set_append)
  then show ?thesis by (auto simp: insert_at_def)
qed

lemma map_insert_at: "map f (insert_at d x xs) = insert_at d (f x) (map f xs)"
  by (simp add: insert_at_def take_map drop_map)

lemma nth_insert_at:
  "d \<le> length xs \<Longrightarrow> i \<le> length xs \<Longrightarrow>
   insert_at d x xs ! i = (if i < d then xs ! i else if i = d then x else xs ! (i - 1))"
  by (auto simp: insert_at_def nth_append nth_Cons' min_def)

lemma sorted_insert_at:
  fixes xs :: "'a::linorder list"
  assumes "sorted_wrt (<) xs" and "d \<le> length xs"
    and "\<And>i. i < d \<Longrightarrow> xs ! i < x" and "\<And>i. d \<le> i \<Longrightarrow> i < length xs \<Longrightarrow> x < xs ! i"
  shows "sorted_wrt (<) (insert_at d x xs)"
proof -
  have "sorted_wrt (<) (take d xs)" "sorted_wrt (<) (drop d xs)"
    using assms(1) by (simp_all add: sorted_wrt_take sorted_wrt_drop)
  moreover have "y < x" if "y \<in> set (take d xs)" for y
    using that assms(2,3) by (auto simp: in_set_conv_nth)
  moreover have "x < y" if "y \<in> set (drop d xs)" for y
    using that assms(2,4) by (auto simp: in_set_conv_nth)
  ultimately show ?thesis
    by (auto simp: insert_at_def sorted_wrt_append intro: order.strict_trans)
qed

section \<open>Byte images\<close>

text \<open>The \<open>n\<close> low bytes of a 64-bit word, least significant first (the layout of x86-64).\<close>

primrec le_bytes :: "nat \<Rightarrow> u64 \<Rightarrow> u8 list" where
  "le_bytes 0 w = []"
| "le_bytes (Suc n) w = ucast w # le_bytes n (drop_bit 8 w)"

primrec le_word :: "u8 list \<Rightarrow> u64" where
  "le_word [] = 0"
| "le_word (b # bs) = ucast b OR push_bit 8 (le_word bs)"

lemma length_le_bytes [simp]: "length (le_bytes n w) = n"
  by (induction n arbitrary: w) auto

lemma le_word_le_bytes: "le_word (le_bytes n w) = take_bit (8 * n) w"
proof (induction n arbitrary: w)
  case 0
  then show ?case by simp
next
  case (Suc n)
  have "le_word (le_bytes (Suc n) w) =
    ucast (ucast w :: u8) OR push_bit 8 (take_bit (8 * n) (drop_bit 8 w))"
    by (simp add: Suc.IH)
  also have "\<dots> = take_bit (8 * Suc n) w"
    by (rule bit_word_eqI) (auto simp: bit_simps)
  finally show ?case .
qed

lemma le_word_le_bytes_8 [simp]: "le_word (le_bytes 8 w) = w"
proof -
  have "take_bit 64 w = w" by (rule bit_word_eqI) (auto simp: bit_simps)
  then show ?thesis by (simp add: le_word_le_bytes)
qed

section \<open>Mapped memory\<close>

text \<open>
  A mapped file is a total map from offsets to bytes; the operations that use it check
  offsets against the file size themselves.
\<close>

type_synonym mem = "nat \<Rightarrow> u8"

definition mem_read :: "mem \<Rightarrow> nat \<Rightarrow> nat \<Rightarrow> u8 list" where
  "mem_read m off n = map (\<lambda>i. m (off + i)) [0..<n]"

definition mem_write :: "mem \<Rightarrow> nat \<Rightarrow> u8 list \<Rightarrow> mem" where
  "mem_write m off bs = (\<lambda>a. if off \<le> a \<and> a < off + length bs then bs ! (a - off) else m a)"

lemma length_mem_read [simp]: "length (mem_read m off n) = n"
  by (simp add: mem_read_def)

lemma mem_read_write_same: "n = length bs \<Longrightarrow> mem_read (mem_write m off bs) off n = bs"
  by (auto simp: mem_read_def mem_write_def intro!: nth_equalityI)

lemma mem_read_write_other:
  "off + n \<le> off' \<or> off' + length bs \<le> off \<Longrightarrow>
   mem_read (mem_write m off' bs) off n = mem_read m off n"
  by (auto simp: mem_read_def mem_write_def)

lemma mem_read_split: "mem_read m off (a + b) = mem_read m off a @ mem_read m (off + a) b"
  by (auto simp: mem_read_def nth_append add.assoc intro!: nth_equalityI)

end
