(* ===== verification/Utils.thy ===== *)
theory Utils
  imports Nkv_Prelude "HOL-Library.Signed_Division"
begin

text \<open>
  Helpers of the library: the log and the exceptions of \<^verbatim>\<open>logger.h\<close> and \<^verbatim>\<open>exception.h\<close>, the interpolation search of \<^verbatim>\<open>search.h\<close>, and the functions of \<^verbatim>\<open>utils.cpp\<close> that list and remove
  directories. Paths and directories are those of \<^verbatim>\<open>boost::filesystem\<close>, so that its functions are arguments.
\<close>

section \<open>Log and exceptions\<close>

text \<open>The log is the text that was written to \<^verbatim>\<open>std::cerr\<close>; the macros \<^verbatim>\<open>logger\<close>, \<^verbatim>\<open>logger_info\<close> and \<^verbatim>\<open>logger_fatal\<close> are the same.\<close>

definition logger :: "string \<Rightarrow> string \<Rightarrow> string" where
  "logger log msg = log @ ''   '' @ msg @ [CHR 0x0A]"

record CodePosition =
  pos_File :: string
  pos_Line :: nat
  pos_Function :: string

definition CodePosition_toString :: "CodePosition \<Rightarrow> string" where
  "CodePosition_toString pos = pos_File pos @ '' line'' @ show_nat (pos_Line pos) @ '' function: '' @ pos_Function pos @ [CHR 0x0A]"

text \<open>\<^verbatim>\<open>CreateAndLog\<close> with and without a message; what it makes is the \<open>Exception\<close> that the other theories raise.\<close>

definition CreateAndLog :: "CodePosition \<Rightarrow> string option \<Rightarrow> string \<Rightarrow> string \<times> nkv_error" where
  "CreateAndLog pos message log = (case message of
     None \<Rightarrow> (logger log (''FATAL ERROR. The Exception will be thrown! '' @ CodePosition_toString pos), Exception [])
   | Some msg \<Rightarrow> (logger log (''FATAL ERROR. The Exception will be thrown! '' @ CodePosition_toString pos @ '' Message: '' @ msg),
       Exception msg))"

section \<open>Directories\<close>

text \<open>\<open>entries\<close> is what \<^verbatim>\<open>directory_iterator\<close> yields, \<open>extension\<close> is \<^verbatim>\<open>path::extension\<close>.\<close>

definition utils_ls :: "(string \<Rightarrow> string) \<Rightarrow> string list \<Rightarrow> string \<Rightarrow> string list" where
  "utils_ls extension entries ext = filter (\<lambda>p. \<not> extension p \<noteq> ext) entries"

text \<open>
  \<open>remove_all\<close> yields how many files it removed, or the text of a \<^verbatim>\<open>filesystem_error\<close>. The handler logs it and throws
  the same error again. The loop over the directory stops at the first entry of which nothing was removed.
\<close>

definition remove_guarded :: "(string \<Rightarrow> string + nat) \<Rightarrow> string \<Rightarrow> nat result" where
  "remove_guarded remove_all p = (case remove_all p of Inl msg \<Rightarrow> Inl (Exception msg) | Inr n \<Rightarrow> Inr n)"

fun rm_entries :: "(string \<Rightarrow> string + nat) \<Rightarrow> string list \<Rightarrow> bool result" where
  "rm_entries remove_all [] = Inr True"
| "rm_entries remove_all (p # ps) = bind_r (remove_guarded remove_all p) (\<lambda>n.
     if n = 0 then Inr False else rm_entries remove_all ps)"

definition utils_rm :: "bool \<Rightarrow> bool \<Rightarrow> string list \<Rightarrow> (string \<Rightarrow> string + nat) \<Rightarrow> string \<Rightarrow> bool result" where
  "utils_rm exists is_directory entries remove_all rm_path =
     (if \<not> exists then Inr True
      else bind_r (if is_directory then rm_entries remove_all entries else Inr True) (\<lambda>ok.
        if \<not> ok then Inr False else bind_r (remove_guarded remove_all rm_path) (\<lambda>_. Inr True)))"

text \<open>
  The log after \<^verbatim>\<open>rm\<close>: its handler makes an exception of the library, which is only logged.
\<close>

definition utils_rm_log :: "CodePosition \<Rightarrow> bool result \<Rightarrow> string \<Rightarrow> string" where
  "utils_rm_log pos r log = (case r of
     Inl (Exception msg) \<Rightarrow> fst (CreateAndLog pos (Some (''utils::rm exception: '' @ msg)) log)
   | _ \<Rightarrow> log)"

lemma rm_entries_all:
  assumes "\<forall>p \<in> set ps. \<exists>n. remove_all p = Inr n \<and> n \<noteq> 0"
  shows "rm_entries remove_all ps = Inr True"
  using assms by (induction ps) (auto simp: remove_guarded_def)

text \<open>A directory whose entries can all be removed is removed; it fails without an error exactly when an entry has gone meanwhile.\<close>

lemma utils_rm_ok:
  assumes "\<forall>p \<in> set entries. \<exists>n. remove_all p = Inr n \<and> n \<noteq> 0" and "\<exists>n. remove_all rm_path = Inr n"
  shows "utils_rm exists is_directory entries remove_all rm_path = Inr True"
  using rm_entries_all [OF assms(1)] assms(2) by (auto simp: utils_rm_def remove_guarded_def)

section \<open>The interpolation search\<close>

text \<open>
  Iterators are positions in the array; reading outside of it is undefined. \<^verbatim>\<open>low\<close> and \<^verbatim>\<open>high\<close> are signed, since the search of
  an empty array begins with \<^verbatim>\<open>high\<close> before its begin.
\<close>

definition deref :: "'a list \<Rightarrow> int \<Rightarrow> 'a result" where
  "deref xs i = (if 0 \<le> i \<and> i < int (length xs) then Inr (xs ! nat i) else Inl Undefined)"

text \<open>
  The interpolated position. The product has the type of a difference of iterators, 64 bits: an overflow and a division by zero
  are undefined; the division rounds towards zero.
\<close>

definition interpolate :: "('a \<Rightarrow> 'a \<Rightarrow> int) \<Rightarrow> int \<Rightarrow> int \<Rightarrow> 'a \<Rightarrow> 'a \<Rightarrow> 'a \<Rightarrow> int result" where
  "interpolate delta low high val at_low at_high =
     (let num = delta val at_low * (high - low); den = delta at_high at_low
      in if - (2 ^ 63) \<le> num \<and> num < 2 ^ 63 \<and> den \<noteq> 0 then Inr (low + num sdiv den) else Inl Undefined)"

text \<open>The loop; the result is either the position returned from within or \<^verbatim>\<open>low\<close> and \<^verbatim>\<open>high\<close> at its end.\<close>

fun find_loop :: "nat \<Rightarrow> ('a \<Rightarrow> 'a \<Rightarrow> int) \<Rightarrow> ('a \<Rightarrow> 'a \<Rightarrow> int) \<Rightarrow> 'a list \<Rightarrow> 'a \<Rightarrow> int \<Rightarrow> int \<Rightarrow> (int + int \<times> int) result" where
  "find_loop fuel pred delta xs val low high =
     bind_r (deref xs low) (\<lambda>at_low.
       if \<not> pred at_low val < 0 then Inr (Inr (low, high))
       else bind_r (deref xs high) (\<lambda>at_high.
         if \<not> pred at_high val > 0 then Inr (Inr (low, high))
         else case fuel of
           0 \<Rightarrow> Inl No_fuel
         | Suc fuel' \<Rightarrow>
             bind_r (interpolate delta low high val at_low at_high) (\<lambda>mid.
             bind_r (deref xs mid) (\<lambda>at_mid.
               let cmp_res = pred at_mid val
               in if cmp_res < 0 then find_loop fuel' pred delta xs val (mid + 1) high
                  else if cmp_res > 0 then find_loop fuel' pred delta xs val low (mid - 1)
                  else Inr (Inl mid)))))"

declare find_loop.simps [simp del]

definition find_begin :: "nat \<Rightarrow> ('a \<Rightarrow> 'a \<Rightarrow> int) \<Rightarrow> ('a \<Rightarrow> 'a \<Rightarrow> int) \<Rightarrow> 'a list \<Rightarrow> 'a \<Rightarrow> int result" where
  "find_begin fuel pred delta xs val =
     bind_r (find_loop fuel pred delta xs val 0 (int (length xs) - 1)) (\<lambda>r. case r of
       Inl mid \<Rightarrow> Inr mid
     | Inr (low, high) \<Rightarrow>
         bind_r (deref xs low) (\<lambda>at_low.
           if pred val at_low = 0 then Inr low
           else bind_r (deref xs high) (\<lambda>at_high. if pred val at_high = 0 then Inr high else Inr low)))"

text \<open>The comparison and the distance with which the search is called.\<close>

definition int_pred :: "int \<Rightarrow> int \<Rightarrow> int" where
  "int_pred r l = (if r < l then - 1 else if r = l then 0 else 1)"

definition int_delta :: "int \<Rightarrow> int \<Rightarrow> int" where
  "int_delta r l = r - l"

section \<open>Correctness of the search\<close>

text \<open>Everything before \<^verbatim>\<open>low\<close> is smaller and everything behind \<^verbatim>\<open>high\<close> is greater than what is looked for.\<close>

definition search_inv :: "('a \<Rightarrow> int) \<Rightarrow> 'a list \<Rightarrow> 'a \<Rightarrow> int \<Rightarrow> int \<Rightarrow> bool" where
  "search_inv key xs v low high \<longleftrightarrow> 0 \<le> low \<and> low \<le> high \<and> high < int (length xs) \<and>
     (\<forall>i < nat low. key (xs ! i) < key v) \<and> (\<forall>i < length xs. nat high < i \<longrightarrow> key v < key (xs ! i))"

text \<open>Arrays for which no product overflows.\<close>

definition search_fits :: "('a \<Rightarrow> int) \<Rightarrow> 'a list \<Rightarrow> 'a \<Rightarrow> bool" where
  "search_fits key xs v \<longleftrightarrow> sorted (map key xs) \<and> length xs < 2 ^ 31 \<and> (\<forall>x \<in> set (v # xs). \<bar>key x\<bar> < 2 ^ 31)"

lemma deref_ok: "0 \<le> i \<Longrightarrow> i < int (length xs) \<Longrightarrow> deref xs i = Inr (xs ! nat i)"
  by (simp add: deref_def)

lemma search_inv_up:
  assumes "search_inv key xs v low high" and "sorted (map key xs)" and "low \<le> mid" and "mid < high" and "key (xs ! nat mid) < key v"
  shows "search_inv key xs v (mid + 1) high"
proof -
  have inv: "0 \<le> low" "high < int (length xs)" using assms(1) by (simp_all add: search_inv_def)
  have "key (xs ! i) < key v" if "i < nat (mid + 1)" for i
  proof -
    have "i \<le> nat mid" "nat mid < length xs" using that inv assms(3,4) by linarith+
    then have "key (xs ! i) \<le> key (xs ! nat mid)" using sorted_nth_mono [OF assms(2), of i "nat mid"] by simp
    then show ?thesis using assms(5) by simp
  qed
  then show ?thesis using assms(1,3,4) by (auto simp: search_inv_def)
qed

lemma search_inv_down:
  assumes "search_inv key xs v low high" and "sorted (map key xs)" and "low < mid" and "mid \<le> high" and "key v < key (xs ! nat mid)"
  shows "search_inv key xs v low (mid - 1)"
proof -
  have "key v < key (xs ! i)" if "nat (mid - 1) < i" "i < length xs" for i
  proof -
    have "0 < mid" using assms(1,3) by (simp add: search_inv_def)
    then have "nat mid \<le> i" using that(1) by linarith
    then have "key (xs ! nat mid) \<le> key (xs ! i)" using sorted_nth_mono [OF assms(2), of "nat mid" i] that(2) by simp
    then show ?thesis using assms(5) by simp
  qed
  then show ?thesis using assms(1,3,4) by (auto simp: search_inv_def)
qed

text \<open>A value that is at neither end of the range at which the loop stops is not in the array.\<close>

lemma not_in_range:
  assumes inv: "search_inv key xs v l h" and srt: "sorted (map key xs)"
    and stop: "key v \<le> key (xs ! nat l) \<or> key (xs ! nat h) \<le> key v"
    and ne: "key (xs ! nat l) \<noteq> key v" "key (xs ! nat h) \<noteq> key v"
  shows "key v \<notin> key ` set xs"
proof
  assume "key v \<in> key ` set xs"
  then obtain i where i: "i < length xs" "key (xs ! i) = key v" by (auto simp: in_set_conv_nth)
  have b: "0 \<le> l" "l \<le> h" "h < int (length xs)" using inv by (simp_all add: search_inv_def)
  have "\<not> i < nat l" "\<not> nat h < i" using inv i by (auto simp: search_inv_def)
  then have "key (xs ! nat l) \<le> key (xs ! i)" "key (xs ! i) \<le> key (xs ! nat h)"
    using sorted_nth_mono [OF srt, of "nat l" i] sorted_nth_mono [OF srt, of i "nat h"] i(1) b by simp_all
  then show False using stop ne i(2) by linarith
qed

text \<open>
  What the search relies on: the comparison orders the elements by a key, and the distance is that of the keys.
\<close>

locale keyed_search =
  fixes pred delta :: "'a \<Rightarrow> 'a \<Rightarrow> int" and key :: "'a \<Rightarrow> int"
  assumes pred_less: "pred x y < 0 \<longleftrightarrow> key x < key y"
    and pred_greater: "pred x y > 0 \<longleftrightarrow> key y < key x"
    and delta_key: "delta x y = key x - key y"
begin

lemma pred_eq: "pred x y = 0 \<longleftrightarrow> key x = key y"
  using pred_less [of x y] pred_greater [of x y] by linarith

text \<open>Between two different keys the interpolated position lies between the two positions.\<close>

lemma interpolate_between:
  assumes "low \<le> high" and "key a < key v" and "key v < key b" and "key v - key a < 2 ^ 32" and "high - low < 2 ^ 31"
  shows "\<exists>mid. interpolate delta low high v a b = Inr mid \<and> low \<le> mid \<and> mid \<le> high"
proof -
  let ?num = "(key v - key a) * (high - low)" and ?den = "key b - key a"
  have num: "0 \<le> ?num" "?num \<le> 2 ^ 32 * 2 ^ 31 - 1"
  proof -
    show "0 \<le> ?num" using assms(1,2) by simp
    have "?num \<le> 2 ^ 32 * (high - low)" using assms(1,4) by (intro mult_right_mono) auto
    also have "\<dots> \<le> 2 ^ 32 * 2 ^ 31 - 2 ^ 32" using assms(5) by simp
    finally show "?num \<le> 2 ^ 32 * 2 ^ 31 - 1" by simp
  qed
  have den: "0 < ?den" using assms(2,3) by simp
  have "?num \<le> ?den * (high - low)" using assms(1,3) by (intro mult_right_mono) auto
  then have "?num div ?den \<le> high - low" using zdiv_mono1 [of ?num "?den * (high - low)" ?den] den by simp
  moreover have "?num sdiv ?den = ?num div ?den" using num(1) den by (simp add: signed_divide_int_def sgn_if)
  moreover have "0 \<le> ?num div ?den" using num(1) den by (simp add: pos_imp_zdiv_nonneg_iff)
  ultimately show ?thesis using num den by (simp add: interpolate_def delta_key)
qed

text \<open>The loop ends within as many rounds as the range is long.\<close>

lemma find_loop_ok:
  assumes fits: "search_fits key xs v"
  shows "search_inv key xs v low high \<Longrightarrow> nat (high - low) \<le> fuel \<Longrightarrow>
    \<exists>r. find_loop fuel pred delta xs v low high = Inr r \<and> (case r of
      Inl mid \<Rightarrow> 0 \<le> mid \<and> mid < int (length xs) \<and> key (xs ! nat mid) = key v
    | Inr (l, h) \<Rightarrow> search_inv key xs v l h \<and> (key v \<le> key (xs ! nat l) \<or> key (xs ! nat h) \<le> key v))"
proof (induction fuel arbitrary: low high)
  case (0 low high)
  then have "high = low" "deref xs low = Inr (xs ! nat low)" by (auto simp: search_inv_def intro: deref_ok)
  then show ?case using 0 by (auto simp: find_loop.simps pred_less pred_greater)
next
  case (Suc fuel low high)
  let ?a = "xs ! nat low" and ?b = "xs ! nat high"
  have inv: "0 \<le> low" "low \<le> high" "high < int (length xs)" using Suc.prems(1) by (simp_all add: search_inv_def)
  have d: "deref xs low = Inr ?a" "deref xs high = Inr ?b" using inv by (auto intro: deref_ok)
  show ?case
  proof (cases "key ?a < key v \<and> key v < key ?b")
    case False
    then show ?thesis using Suc.prems(1) d by (auto simp: find_loop.simps pred_less pred_greater)
  next
    case True
    have small: "\<bar>key ?a\<bar> < 2 ^ 31" "\<bar>key v\<bar> < 2 ^ 31" using fits inv by (auto simp: search_fits_def)
    have "int (length xs) < 2 ^ 31" using fits by (simp add: search_fits_def)
    then have w: "key v - key ?a < 2 ^ 32" "high - low < 2 ^ 31" using small inv by simp_all
    obtain mid where m: "interpolate delta low high v ?a ?b = Inr mid" "low \<le> mid" "mid \<le> high"
      using interpolate_between [OF inv(2) _ _ w(1,2), of ?b] True by auto
    have dm: "deref xs mid = Inr (xs ! nat mid)" using m inv by (auto intro: deref_ok)
    have srt: "sorted (map key xs)" using fits by (simp add: search_fits_def)
    note step = find_loop.simps [of "Suc fuel" pred delta xs v low high]
    consider "key (xs ! nat mid) < key v" | "key v < key (xs ! nat mid)" | "key (xs ! nat mid) = key v" by linarith
    then show ?thesis
    proof cases
      case 1
      then have lt: "mid < high" using True m(3) by (cases "mid = high") auto
      have "nat (high - (mid + 1)) \<le> fuel" using Suc.prems(2) lt m(2) by linarith
      from Suc.IH [OF search_inv_up [OF Suc.prems(1) srt m(2) lt 1] this] show ?thesis
        using 1 True d dm m(1) by (simp add: step pred_less pred_greater)
    next
      case 2
      then have lt: "low < mid" using True m(2) by (cases "mid = low") auto
      have "nat (mid - 1 - low) \<le> fuel" using Suc.prems(2) lt m(3) by linarith
      from Suc.IH [OF search_inv_down [OF Suc.prems(1) srt lt m(3) 2] this] show ?thesis
        using 2 True d dm m(1) by (simp add: step pred_less pred_greater)
    next
      case 3
      then show ?thesis using True d dm m inv by (simp add: step pred_less pred_greater)
    qed
  qed
qed

lemma find_begin_ok:
  assumes fits: "search_fits key xs v" and "xs \<noteq> []" and "length xs \<le> fuel"
  shows "\<exists>j. find_begin fuel pred delta xs v = Inr (int j) \<and> j < length xs \<and> (key v \<in> key ` set xs \<longrightarrow> key (xs ! j) = key v) \<and>
    (key v < key (xs ! j) \<longrightarrow> (\<forall>i < j. key (xs ! i) < key v))"
proof -
  have "search_inv key xs v 0 (int (length xs) - 1)" using assms(2) by (auto simp: search_inv_def Suc_le_eq)
  moreover have "nat (int (length xs) - 1 - 0) \<le> fuel" using assms(3) by simp
  ultimately obtain r where
    r: "find_loop fuel pred delta xs v 0 (int (length xs) - 1) = Inr r"
      "case r of Inl mid \<Rightarrow> 0 \<le> mid \<and> mid < int (length xs) \<and> key (xs ! nat mid) = key v
       | Inr (l, h) \<Rightarrow> search_inv key xs v l h \<and> (key v \<le> key (xs ! nat l) \<or> key (xs ! nat h) \<le> key v)" using find_loop_ok [OF fits] by blast
  show ?thesis
  proof (cases r)
    case (Inl mid)
    then show ?thesis using r by (intro exI [of _ "nat mid"]) (auto simp: find_begin_def)
  next
    case (Inr lh)
    obtain l h where lh: "r = Inr (l, h)" using Inr by (cases lh) auto
    have inv: "search_inv key xs v l h" "key v \<le> key (xs ! nat l) \<or> key (xs ! nat h) \<le> key v" using r(2) lh by auto
    then have b: "0 \<le> l" "l \<le> h" "h < int (length xs)" by (simp_all add: search_inv_def)
    have d: "deref xs l = Inr (xs ! nat l)" "deref xs h = Inr (xs ! nat h)" using b by (auto intro: deref_ok)
    have none: "key v \<notin> key ` set xs" if ne: "key (xs ! nat l) \<noteq> key v" "key (xs ! nat h) \<noteq> key v"
      by (rule not_in_range [OF inv(1) _ inv(2) ne]) (use fits in \<open>simp add: search_fits_def\<close>)
    have eq: "find_begin fuel pred delta xs v = Inr (if key v = key (xs ! nat l) then l else if key v = key (xs ! nat h) then h else l)"
      using r(1) lh d by (simp add: find_begin_def pred_eq)
    show ?thesis
    proof (cases "key v \<noteq> key (xs ! nat l) \<and> key v = key (xs ! nat h)")
      case True
      then show ?thesis using eq b by (intro exI [of _ "nat h"]) auto
    next
      case False
      then show ?thesis using eq b none inv(1) by (intro exI [of _ "nat l"]) (auto simp: search_inv_def)
    qed
  qed
qed

end

interpretation int_search: keyed_search int_pred int_delta id
  by unfold_locales (auto simp: int_pred_def int_delta_def)

section \<open>Properties\<close>




end
