(* ===== verification/BTree.thy ===== *)
theory BTree
  imports Nkv_Prelude
begin

text \<open>
  The B+ tree of \<^verbatim>\<open>include/btree.h\<close>, \<^verbatim>\<open>include/btree.hpp\<close> and \<^verbatim>\<open>include/btree_common.h\<close>: the
  index of a page. Nodes live in a fixed array (the mapped index file) and refer to each
  other by array index; 0 stands for no node. Each statement of the C++ code that writes
  through a node pointer is an update of that array here. The theories \<open>BTree_Shape\<close> and
  \<open>BTree_Correct\<close> prove it correct.
\<close>

section \<open>Arrays\<close>

text \<open>Reading an array cell; outside of the array the behaviour is undefined.\<close>

definition arr_get :: "'a list \<Rightarrow> nat \<Rightarrow> 'a result" where
  "arr_get xs i = (if i < length xs then Inr (xs ! i) else Inl Undefined)"

definition arr_set :: "'a list \<Rightarrow> nat \<Rightarrow> 'a \<Rightarrow> 'a list result" where
  "arr_set xs i x = (if i < length xs then Inr (xs[i := x]) else Inl Undefined)"

text \<open>The shifting loop of \<^verbatim>\<open>insert_to_array\<close>: swap downwards from index \<open>i\<close> to \<open>pos\<close>.\<close>

fun swap_down :: "'a list \<Rightarrow> nat \<Rightarrow> nat \<Rightarrow> 'a list" where
  "swap_down xs i pos =
     (if i > pos then swap_down (xs[i := xs ! (i - 1), i - 1 := xs ! i]) (i - 1) pos else xs)"

declare swap_down.simps [simp del]

definition insert_to_array :: "'a list \<Rightarrow> nat \<Rightarrow> nat \<Rightarrow> 'a \<Rightarrow> 'a list result" where
  "insert_to_array xs sz insert_pos value =
     (if 0 < sz \<and> sz \<le> length xs
      then arr_set (swap_down xs (sz - 1) insert_pos) insert_pos value
      else Inl Undefined)"

section \<open>Nodes\<close>

record ('k, 'v) node =
  vals :: "('k \<times> 'v) list"
  vals_size :: nat
  childs :: "nat list"
  childs_size :: nat
  node_id :: nat
  is_leaf :: bool
  parent :: nat
  nxt :: nat

definition new_node :: "nat \<Rightarrow> 'k \<times> 'v \<Rightarrow> ('k, 'v) node" where
  "new_node n kv0 = \<lparr>vals = replicate (2 * n) kv0, vals_size = 0, childs = replicate (2 * n) 0,
     childs_size = 0, node_id = 0, is_leaf = False, parent = 0, nxt = 0\<rparr>"

text \<open>The used parts of the two arrays.\<close>

definition kvs :: "('k, 'v) node \<Rightarrow> ('k \<times> 'v) list" where
  "kvs nd = take (vals_size nd) (vals nd)"

definition chs :: "('k, 'v) node \<Rightarrow> nat list" where
  "chs nd = take (childs_size nd) (childs nd)"

definition key_lower_bound :: "('k::linorder, 'v) node \<Rightarrow> 'k \<Rightarrow> nat" where
  "key_lower_bound nd key = lower_bound (\<lambda>kv. fst kv < key) (kvs nd)"

definition insertValue :: "('k::linorder, 'v) node \<Rightarrow> 'k \<Rightarrow> 'v \<Rightarrow> ('k, 'v) node result" where
  "insertValue nd key val =
     (let kv = (key, val) in
      if vals_size nd = 0
      then bind_r (arr_set (vals nd) 0 kv) (\<lambda>a. Inr (nd\<lparr>vals_size := 1, vals := a\<rparr>))
      else bind_r (arr_get (vals nd) 0) (\<lambda>front.
        if fst front > key
        then bind_r (insert_to_array (vals nd) (vals_size nd + 1) 0 kv)
               (\<lambda>a. Inr (nd\<lparr>vals_size := vals_size nd + 1, vals := a\<rparr>))
        else let d = key_lower_bound nd key in
          if d \<noteq> vals_size nd
          then bind_r (insert_to_array (vals nd) (vals_size nd + 1) d kv)
                 (\<lambda>a. Inr (nd\<lparr>vals_size := vals_size nd + 1, vals := a\<rparr>))
          else bind_r (arr_set (vals nd) (vals_size nd) kv)
                 (\<lambda>a. Inr (nd\<lparr>vals_size := vals_size nd + 1, vals := a\<rparr>))))"

definition insertChild :: "('k::linorder, 'v) node \<Rightarrow> 'k \<Rightarrow> nat \<Rightarrow> ('k, 'v) node result" where
  "insertChild nd key C =
     (if vals_size nd = 0 then Inl Undefined
      else bind_r (arr_get (vals nd) (vals_size nd - 1)) (\<lambda>back.
        if key = fst back
        then bind_r (arr_set (childs nd) (childs_size nd) C)
               (\<lambda>a. Inr (nd\<lparr>childs := a, childs_size := childs_size nd + 1\<rparr>))
        else let d = key_lower_bound nd key in
          if d \<noteq> vals_size nd
          then bind_r (insert_to_array (childs nd) (childs_size nd + 1) (d + 1) C)
                 (\<lambda>a. Inr (nd\<lparr>childs := a, childs_size := childs_size nd + 1\<rparr>))
          else Inl Assert_failed))"

section \<open>The tree\<close>

record ('k, 'v) btree =
  cache :: "('k, 'v) node list"
  cache_size :: nat
  m_root :: nat
  cache_pos :: nat

definition make_btree :: "('k, 'v) node list \<Rightarrow> nat \<Rightarrow> nat \<Rightarrow> nat \<Rightarrow> ('k, 'v) btree" where
  "make_btree c sz root_pos pos =
     \<lparr>cache = c, cache_size = sz, m_root = root_pos, cache_pos = pos\<rparr>"

definition init_cache :: "('k, 'v) node list \<Rightarrow> ('k, 'v) node list" where
  "init_cache c = c[1 := (c ! 1)\<lparr>is_leaf := True, node_id := 1\<rparr>]"

definition getNode :: "('k, 'v) btree \<Rightarrow> nat \<Rightarrow> ('k, 'v) node result" where
  "getNode t w = arr_get (cache t) w"

text \<open>A write through the pointer to node \<open>i\<close>.\<close>

definition upd_node :: "nat \<Rightarrow> (('k, 'v) node \<Rightarrow> ('k, 'v) node) \<Rightarrow> ('k, 'v) btree \<Rightarrow> ('k, 'v) btree" where
  "upd_node i f t = t\<lparr>cache := (cache t)[i := f (cache t ! i)]\<rparr>"

definition make_node :: "('k, 'v) btree \<Rightarrow> (('k, 'v) btree \<times> nat) result" where
  "make_node t =
     (if cache_pos t > cache_size t then Inl Logic_error
      else if cache_pos t < length (cache t)
      then Inr ((upd_node (cache_pos t) (\<lambda>nd. nd\<lparr>node_id := cache_pos t\<rparr>) t)\<lparr>cache_pos := cache_pos t + 1\<rparr>,
                cache_pos t)
      else Inl Undefined)"

definition isFull :: "nat \<Rightarrow> ('k, 'v) node \<Rightarrow> bool" where
  "isFull n nd \<longleftrightarrow> vals_size nd + 1 \<ge> n * 2"

text \<open>
  The descent. The result is \<open>Some (leaf, res)\<close> when \<^verbatim>\<open>out_ptr\<close> was set to a leaf (and \<open>res\<close>
  is \<^verbatim>\<open>out_res\<close> where the C++ function returns true), \<open>None\<close> when it returned false
  without setting \<^verbatim>\<open>out_ptr\<close>. \<open>fuel\<close> bounds the number of nodes visited.
\<close>

fun iner_find :: "nat \<Rightarrow> ('k::linorder, 'v) btree \<Rightarrow> 'k \<Rightarrow> nat \<Rightarrow> (nat \<times> 'v option) option result" where
  "iner_find 0 t key cur = Inl No_fuel"
| "iner_find (Suc fuel) t key cur = bind_r (getNode t cur) (\<lambda>nd.
     if is_leaf nd
     then let d = key_lower_bound nd key in
       if d \<noteq> vals_size nd
       then bind_r (arr_get (vals nd) d) (\<lambda>kv. Inr (Some (cur, Some (snd kv))))
       else Inr (Some (cur, None))
     else bind_r (arr_get (vals nd) 0) (\<lambda>front.
       if key < fst front
       then bind_r (arr_get (childs nd) 0) (iner_find fuel t key)
       else if childs_size nd \<noteq> 0 \<and> vals_size nd \<noteq> 0 \<and> key \<ge> fst (vals nd ! (vals_size nd - 1))
       then bind_r (arr_get (childs nd) (childs_size nd - 1)) (iner_find fuel t key)
       else let low_bound = key_lower_bound nd key in
         bind_r (arr_get (vals nd) low_bound) (\<lambda>low.
           let low_bound' = (if fst low \<noteq> key then low_bound - 1 else low_bound);
               nxt_it = (if fst low \<noteq> key then low_bound else low_bound + 1) in
           bind_r (arr_get (vals nd) nxt_it) (\<lambda>nx.
             if key < fst nx
             then bind_r (arr_get (childs nd) (low_bound' + 1)) (iner_find fuel t key)
             else Inr None))))"

text \<open>The number of cells is enough fuel: a path visits a node at most once.\<close>

definition find_node :: "('k::linorder, 'v) btree \<Rightarrow> 'k \<Rightarrow> nat result" where
  "find_node t key = bind_r (iner_find (length (cache t)) t key (m_root t))
     (\<lambda>r. Inr (case r of None \<Rightarrow> m_root t | Some (leaf, _) \<Rightarrow> leaf))"

definition btree_find :: "'v \<Rightarrow> ('k::linorder, 'v) btree \<Rightarrow> 'k \<Rightarrow> 'v result" where
  "btree_find zero t key = bind_r (iner_find (length (cache t)) t key (m_root t))
     (\<lambda>r. Inr (case r of Some (_, Some v) \<Rightarrow> v | _ \<Rightarrow> zero))"

section \<open>Splitting\<close>

text \<open>\<open>C->vals[insert_pos++] = node->vals[i]; C->vals_size++\<close> for the indices given.\<close>

fun copy_vals :: "nat list \<Rightarrow> nat \<Rightarrow> nat \<Rightarrow> nat \<Rightarrow> ('k, 'v) btree \<Rightarrow> ('k, 'v) btree" where
  "copy_vals [] insert_pos node C t = t"
| "copy_vals (i # is) insert_pos node C t =
     copy_vals is (insert_pos + 1) node C
       (upd_node C (\<lambda>c. c\<lparr>vals := (vals c)[insert_pos := vals (cache t ! node) ! i],
                     vals_size := vals_size c + 1\<rparr>) t)"

text \<open>Hand the children at the given indices over to \<open>C\<close>.\<close>

fun move_childs :: "nat list \<Rightarrow> nat \<Rightarrow> nat \<Rightarrow> nat \<Rightarrow> ('k, 'v) btree \<Rightarrow> ('k, 'v) btree result" where
  "move_childs [] pos node C t = Inr t"
| "move_childs (i # is) pos node C t =
     bind_r (arr_get (childs (cache t ! node)) i) (\<lambda>ch_ind.
     bind_r (getNode t ch_ind) (\<lambda>_.
       move_childs is (pos + 1) node C
         (upd_node C (\<lambda>c. c\<lparr>childs := (childs c)[pos := ch_ind]\<rparr>)
            (upd_node ch_ind (\<lambda>ch. ch\<lparr>parent := node_id (cache t ! C)\<rparr>) t))))"

fun clear_childs :: "nat list \<Rightarrow> nat \<Rightarrow> ('k, 'v) btree \<Rightarrow> ('k, 'v) btree" where
  "clear_childs [] node t = t"
| "clear_childs (i # is) node t =
     clear_childs is node (upd_node node (\<lambda>nd. nd\<lparr>childs := (childs nd)[i := 0]\<rparr>) t)"

text \<open>The first half of \<^verbatim>\<open>split_node\<close>: distribute \<open>node\<close> over \<open>node\<close> and the fresh \<open>C\<close>.\<close>

definition split_off :: "('k, 'v) btree \<Rightarrow> nat \<Rightarrow> nat \<Rightarrow> ('k, 'v) btree result" where
  "split_off t node C =
     (let t1 = upd_node C (\<lambda>c. c\<lparr>is_leaf := is_leaf (cache t ! node)\<rparr>) t;
          nd = cache t1 ! node;
          pos_half_index = vals_size nd div 2;
          vals_begin = (if is_leaf (cache t1 ! C) then pos_half_index else pos_half_index + 1);
          t2 = copy_vals [vals_begin..<vals_size nd] 0 node C t1;
          t3 = upd_node node (\<lambda>nd. nd\<lparr>vals_size := pos_half_index\<rparr>) t2;
          tmp = nxt (cache t3 ! node);
          t4 = upd_node node (\<lambda>nd. nd\<lparr>nxt := node_id (cache t3 ! C)\<rparr>) t3;
          t5 = upd_node C (\<lambda>c. c\<lparr>nxt := tmp\<rparr>) t4;
          cs = childs_size (cache t5 ! node)
      in if cs > 0
         then let new_count = cs div 2;
                  t6 = upd_node C (\<lambda>c. c\<lparr>childs_size := new_count\<rparr>) t5
              in bind_r (move_childs [new_count..<cs] 0 node C t6) (\<lambda>t7.
                   Inr (upd_node node (\<lambda>nd. nd\<lparr>childs_size := new_count\<rparr>)
                          (clear_childs [new_count..<cs] node t7)))
         else Inr t5)"

text \<open>The second half: enter \<open>C\<close> into the parent, or make a new root.\<close>

definition attach :: "('k::linorder, 'v) btree \<Rightarrow> nat \<Rightarrow> nat \<Rightarrow> 'k \<times> 'v \<Rightarrow> (('k, 'v) btree \<times> nat) result" where
  "attach t node C midle =
     (let parent_ind = parent (cache t ! node) in
      if parent_ind \<noteq> 0
      then bind_r (getNode t parent_ind) (\<lambda>p.
           bind_r (insertValue p (fst midle) (snd midle)) (\<lambda>p1.
           bind_r (insertChild p1 (fst midle) (node_id (cache t ! C))) (\<lambda>p2.
             let t1 = upd_node parent_ind (\<lambda>_. p2) t
             in Inr (upd_node C (\<lambda>c. c\<lparr>parent := parent (cache t1 ! node)\<rparr>) t1, parent_ind))))
      else bind_r (make_node t) (\<lambda>(t1, r).
           let t2 = (upd_node (m_root t1) (\<lambda>nd. nd\<lparr>parent := node_id (cache t1 ! r)\<rparr>) t1)\<lparr>m_root := r\<rparr>
           in bind_r (insertValue (cache t2 ! r) (fst midle) (snd midle)) (\<lambda>r1.
              bind_r (arr_set (childs r1) (childs_size r1) (node_id (cache t2 ! node))) (\<lambda>c1.
              bind_r (arr_set c1 (childs_size r1 + 1) (node_id (cache t2 ! C))) (\<lambda>c2.
                let t3 = upd_node r (\<lambda>_. r1\<lparr>childs := c2, childs_size := childs_size r1 + 2\<rparr>) t2;
                    t4 = upd_node node (\<lambda>nd. nd\<lparr>parent := node_id (cache t3 ! m_root t3)\<rparr>) t3
                in Inr (upd_node C (\<lambda>c. c\<lparr>parent := node_id (cache t4 ! m_root t4)\<rparr>) t4, r))))))"

fun split_node :: "nat \<Rightarrow> nat \<Rightarrow> ('k::linorder, 'v) btree \<Rightarrow> nat \<Rightarrow> ('k, 'v) btree result" where
  "split_node 0 n t node = Inl No_fuel"
| "split_node (Suc fuel) n t node =
     bind_r (make_node t) (\<lambda>(t1, C).
     bind_r (arr_get (vals (cache t1 ! node)) (vals_size (cache t1 ! node) div 2)) (\<lambda>midle.
     bind_r (split_off t1 node C) (\<lambda>t2.
     bind_r (attach t2 node C midle) (\<lambda>(t3, node2insert).
       if isFull n (cache t3 ! node2insert) then split_node fuel n t3 node2insert else Inr t3))))"

definition btree_insert :: "nat \<Rightarrow> ('k::linorder, 'v) btree \<Rightarrow> 'k \<Rightarrow> 'v \<Rightarrow> ('k, 'v) btree result" where
  "btree_insert n t key val =
     bind_r (iner_find (length (cache t)) t key (m_root t)) (\<lambda>r. case r of
       None \<Rightarrow> Inl Assert_failed
     | Some (node, _) \<Rightarrow>
         bind_r (getNode t node) (\<lambda>nd.
         bind_r (insertValue nd key val) (\<lambda>nd'.
           if \<not> isFull n nd then Inr (upd_node node (\<lambda>_. nd') t)
           else split_node (length (cache t)) n (upd_node node (\<lambda>_. nd') t) node)))"

text \<open>
  The printer. It visits every cell of the array of children, used or not; \<open>shw\<close> prints a key, \<open>fuel\<close> bounds the depth.
\<close>

fun to_stream :: "nat \<Rightarrow> ('k \<Rightarrow> string) \<Rightarrow> ('k, 'v) btree \<Rightarrow> nat \<Rightarrow> string result"
  and to_stream_childs :: "nat \<Rightarrow> ('k \<Rightarrow> string) \<Rightarrow> ('k, 'v) btree \<Rightarrow> nat list \<Rightarrow> string result" where
  "to_stream 0 shw t root = Inl No_fuel"
| "to_stream (Suc fuel) shw t root = bind_r (getNode t root) (\<lambda>nd.
     bind_r (to_stream_childs fuel shw t (childs nd)) (\<lambda>s.
       Inr (''{  ['' @ concat (map (\<lambda>v. '' '' @ shw (fst v)) (vals nd)) @ ''], '' @ s @ ''}'' @ [CHR 0x0A])))"
| "to_stream_childs fuel shw t [] = Inr []"
| "to_stream_childs fuel shw t (c # cs) = bind_r (to_stream fuel shw t c) (\<lambda>s.
     bind_r (to_stream_childs fuel shw t cs) (\<lambda>ss. Inr (s @ ss)))"

lemma to_stream_never_returns:
  assumes "\<forall>nd \<in> set (cache t). childs nd \<noteq> []"
  shows "\<exists>e. to_stream fuel shw t root = Inl e"
proof (induction fuel arbitrary: root)
  case (Suc fuel)
  show ?case
  proof (cases "getNode t root")
    case (Inr nd)
    then have "nd \<in> set (cache t)" by (auto simp: getNode_def arr_get_def split: if_splits)
    then obtain c cs where "childs nd = c # cs" using assms by (cases "childs nd") auto
    then show ?thesis using Inr Suc.IH [of c] by auto
  qed simp
qed simp

fun insert_all :: "nat \<Rightarrow> ('k::linorder, 'v) btree \<Rightarrow> ('k \<times> 'v) list \<Rightarrow> ('k, 'v) btree result" where
  "insert_all n t [] = Inr t"
| "insert_all n t ((k, v) # xs) = bind_r (btree_insert n t k v) (\<lambda>t'. insert_all n t' xs)"

section \<open>Array and node operations on their used parts\<close>

lemma arr_get_ok [simp]: "i < length xs \<Longrightarrow> arr_get xs i = Inr (xs ! i)"
  by (simp add: arr_get_def)

lemma arr_set_ok [simp]: "i < length xs \<Longrightarrow> arr_set xs i x = Inr (xs[i := x])"
  by (simp add: arr_set_def)

lemma length_swap_down [simp]: "length (swap_down xs i pos) = length xs"
  by (induction xs i pos rule: swap_down.induct) (subst swap_down.simps, simp)

lemma swap_down_rotate:
  "pos \<le> i \<Longrightarrow> i < length xs \<Longrightarrow>
   swap_down xs i pos = take pos xs @ xs ! i # take (i - pos) (drop pos xs) @ drop (Suc i) xs"
proof (induction xs i pos rule: swap_down.induct)
  case (1 xs i pos)
  show ?case
  proof (cases "i > pos")
    case True
    let ?ys = "xs[i := xs ! (i - 1), i - 1 := xs ! i]"
    have IH: "swap_down ?ys (i - 1) pos =
      take pos ?ys @ ?ys ! (i - 1) # take (i - 1 - pos) (drop pos ?ys) @ drop i ?ys"
      using "1.IH" True "1.prems" by simp
    have i: "?ys ! (i - 1) = xs ! i" using True "1.prems" by simp
    have pre: "take pos ?ys = take pos xs" using True by simp
    have mid: "take (i - 1 - pos) (drop pos ?ys) = take (i - 1 - pos) (drop pos xs)"
      using True by (simp add: drop_update_swap)
    have "drop i ?ys = xs ! (i - 1) # drop (Suc i) xs"
      using True "1.prems" by (simp add: Cons_nth_drop_Suc [symmetric])
    moreover have "take (i - pos) (drop pos xs) = take (i - 1 - pos) (drop pos xs) @ [xs ! (i - 1)]"
      using True "1.prems" take_Suc_conv_app_nth [of "i - 1 - pos" "drop pos xs"]
      by (simp add: Suc_diff_Suc)
    ultimately show ?thesis
      using True IH i pre mid by (subst swap_down.simps) simp
  next
    case False
    with "1.prems" show ?thesis
      by (subst swap_down.simps) (simp add: id_take_nth_drop [symmetric])
  qed
qed

text \<open>
  \<^verbatim>\<open>insert_to_array\<close> opens a gap at the insertion position, keeps the order of the other
  used cells and leaves the cells beyond the used part alone.
\<close>

lemma insert_to_array_shift:
  assumes "pos < sz" and "sz \<le> length xs"
  shows "insert_to_array xs sz pos v =
    Inr (take pos xs @ v # take (sz - 1 - pos) (drop pos xs) @ drop sz xs)"
proof -
  have "swap_down xs (sz - 1) pos =
      take pos xs @ xs ! (sz - 1) # take (sz - 1 - pos) (drop pos xs) @ drop sz xs"
    using assms swap_down_rotate [of pos "sz - 1" xs] by simp
  with assms show ?thesis
    by (simp add: insert_to_array_def list_update_append)
qed

lemma insert_to_array_used:
  assumes "d \<le> m" and "m < length xs"
  shows "\<exists>a. insert_to_array xs (Suc m) d v = Inr a \<and> length a = length xs \<and>
    take (Suc m) a = insert_at d v (take m xs)"
  using assms insert_to_array_shift [of d "Suc m" xs v]
  by (auto simp: insert_at_def min_def take_Cons' take_drop)

lemma key_lower_bound_le: "vals_size nd \<le> length (vals nd) \<Longrightarrow> key_lower_bound nd k \<le> vals_size nd"
  using lower_bound_le [of "\<lambda>kv. fst kv < k" "kvs nd"] by (simp add: key_lower_bound_def kvs_def)

lemma insertValue_used:
  assumes "vals_size nd < length (vals nd)"
  shows "\<exists>a. insertValue nd k v = Inr (nd\<lparr>vals_size := Suc (vals_size nd), vals := a\<rparr>) \<and>
    length a = length (vals nd) \<and>
    take (Suc (vals_size nd)) a = insert_at (key_lower_bound nd k) (k, v) (kvs nd)"
proof -
  let ?m = "vals_size nd" and ?d = "key_lower_bound nd k"
  consider "?m = 0" | "?m > 0" "k < fst (vals nd ! 0)" | "?m > 0" "\<not> k < fst (vals nd ! 0)" "?d \<noteq> ?m"
    | "?m > 0" "\<not> k < fst (vals nd ! 0)" "?d = ?m"
    by auto
  then show ?thesis
  proof cases
    case 1
    with assms show ?thesis
      by (auto simp: insertValue_def key_lower_bound_def lower_bound_def kvs_def insert_at_def
            take_Suc hd_conv_nth neq_Nil_conv)
  next
    case 2
    then have "?d = 0"
      using assms by (cases "vals nd") (auto simp: key_lower_bound_def lower_bound_def kvs_def take_Cons')
    moreover have "0 < length (vals nd)" using assms by (cases "vals nd") auto
    ultimately show ?thesis
      using 2 assms insert_to_array_used [of 0 ?m "vals nd" "(k, v)"]
      by (auto simp: insertValue_def kvs_def Let_def)
  next
    case 3
    have "?d \<le> ?m" using assms key_lower_bound_le [of nd k] by simp
    moreover have "0 < length (vals nd)" using assms by (cases "vals nd") auto
    ultimately show ?thesis
      using 3 assms insert_to_array_used [of ?d ?m "vals nd" "(k, v)"]
      by (auto simp: insertValue_def kvs_def Let_def)
  next
    case 4
    moreover have "0 < length (vals nd)" using assms by (cases "vals nd") auto
    ultimately show ?thesis
      using assms by (auto simp: insertValue_def kvs_def Let_def insert_at_def take_Suc_conv_app_nth)
  qed
qed

lemma key_lower_bound_mem:
  assumes "sorted_wrt (<) (map fst (kvs nd))" and "d < length (kvs nd)" and "fst (kvs nd ! d) = k"
  shows "key_lower_bound nd k = d"
proof -
  have "takeWhile (\<lambda>kv. fst kv < k) (kvs nd) = take d (kvs nd)"
  proof (rule takeWhile_eq_take_P_nth)
    show "fst (kvs nd ! i) < k" if "i < d" for i
      using that assms sorted_wrt_nth_less [OF assms(1), of i d] by simp
    show "\<not> fst (kvs nd ! d) < k" using assms by simp
  qed
  with assms(2) show ?thesis by (simp add: key_lower_bound_def lower_bound_def)
qed

lemma insertChild_used:
  assumes "sorted_wrt (<) (map fst (kvs nd))" and "d < vals_size nd" and "fst (vals nd ! d) = k"
    and "vals_size nd \<le> length (vals nd)" and "childs_size nd = vals_size nd"
    and "childs_size nd < length (childs nd)"
  shows "\<exists>a. insertChild nd k C = Inr (nd\<lparr>childs := a, childs_size := Suc (childs_size nd)\<rparr>) \<and>
    length a = length (childs nd) \<and>
    take (Suc (childs_size nd)) a = insert_at (Suc d) C (chs nd)"
proof -
  have lk: "length (kvs nd) = vals_size nd" using assms(4) by (simp add: kvs_def)
  have kd: "fst (kvs nd ! d) = k" using assms(2,3) by (simp add: kvs_def)
  have lb: "key_lower_bound nd k = d"
    by (rule key_lower_bound_mem [OF assms(1) _ kd]) (simp add: lk assms(2))
  show ?thesis
  proof (cases "k = fst (vals nd ! (vals_size nd - 1))")
    case True
    have "d = vals_size nd - 1"
    proof (rule ccontr)
      assume "d \<noteq> vals_size nd - 1"
      then have "d < vals_size nd - 1" using assms(2) by simp
      then have "fst (kvs nd ! d) < fst (kvs nd ! (vals_size nd - 1))"
        using sorted_wrt_nth_less [OF assms(1), of d "vals_size nd - 1"] lk assms(2) by simp
      with True kd assms(2) show False by (simp add: kvs_def)
    qed
    with True assms show ?thesis
      by (auto simp: insertChild_def chs_def insert_at_def take_Suc_conv_app_nth)
  next
    case False
    have "Suc d \<le> childs_size nd" using assms(2,5) by simp
    with False lb assms insert_to_array_used [of "Suc d" "childs_size nd" "childs nd" C]
    show ?thesis by (auto simp: insertChild_def chs_def Let_def)
  qed
qed

end
