(* ===== verification/BTree_Shape.thy ===== *)
theory BTree_Shape
  imports BTree
begin

text \<open>
  The invariant of the B+ tree, on an abstract view: for every node its keys, children, leaf
  flag, parent and next pointers, and the ghost information the proofs need (the key interval
  of the node and its level). Splitting a full node is a function on views, and it keeps the
  invariant; \<open>BTree_Correct\<close> connects views with the node array.
\<close>

section \<open>Views and the invariant\<close>

record 'k shape =
  sk :: "nat \<Rightarrow> 'k list"
  sc :: "nat \<Rightarrow> nat list"
  slf :: "nat \<Rightarrow> bool"
  spar :: "nat \<Rightarrow> nat"
  snx :: "nat \<Rightarrow> nat"
  slo :: "nat \<Rightarrow> 'k option"
  shi :: "nat \<Rightarrow> 'k option"
  slvl :: "nat \<Rightarrow> nat"

text \<open>Half-open key intervals; \<open>None\<close> is an infinite bound.\<close>

definition above :: "'k::linorder option \<Rightarrow> 'k \<Rightarrow> bool" where
  "above l k \<longleftrightarrow> (case l of None \<Rightarrow> True | Some x \<Rightarrow> x \<le> k)"

definition below :: "'k::linorder option \<Rightarrow> 'k \<Rightarrow> bool" where
  "below h k \<longleftrightarrow> (case h of None \<Rightarrow> True | Some x \<Rightarrow> k < x)"

lemma above_below_simps [simp]:
  "above None k" "above (Some x) k \<longleftrightarrow> x \<le> k" "below None k" "below (Some x) k \<longleftrightarrow> k < x"
  by (simp_all add: above_def below_def)

definition in_rng :: "'k::linorder shape \<Rightarrow> nat \<Rightarrow> 'k \<Rightarrow> bool" where
  "in_rng S i k \<longleftrightarrow> above (slo S i) k \<and> below (shi S i) k"

text \<open>Keys of a node: strictly sorted, inside the interval, few enough.\<close>

definition keys_ok :: "nat \<Rightarrow> nat set \<Rightarrow> 'k::linorder shape \<Rightarrow> nat \<Rightarrow> bool" where
  "keys_ok n ov S i \<longleftrightarrow>
     sorted_wrt (<) (sk S i) \<and> (\<forall>k \<in> set (sk S i). in_rng S i k) \<and>
     (slf S i \<longleftrightarrow> slvl S i = 0) \<and>
     (if slf S i
      then sc S i = [] \<and> length (sk S i) \<le> 2 * n - (if i \<in> ov then 0 else 1)
      else sk S i \<noteq> [] \<and> length (sk S i) \<le> 2 * n - (if i \<in> ov then 1 else 2) \<and>
           length (sc S i) = Suc (length (sk S i)) \<and> (\<forall>k \<in> set (sk S i). slo S i \<noteq> Some k))"

text \<open>The \<open>j\<close>-th child of \<open>i\<close> points back to \<open>i\<close> and owns the \<open>j\<close>-th part of its interval.\<close>

definition child_lo :: "'k shape \<Rightarrow> nat \<Rightarrow> nat \<Rightarrow> 'k option" where
  "child_lo S i j = (if j = 0 then slo S i else Some (sk S i ! (j - 1)))"

definition child_hi :: "'k shape \<Rightarrow> nat \<Rightarrow> nat \<Rightarrow> 'k option" where
  "child_hi S i j = (if j = length (sk S i) then shi S i else Some (sk S i ! j))"

definition link_ok :: "nat set \<Rightarrow> 'k shape \<Rightarrow> nat \<Rightarrow> nat \<Rightarrow> bool" where
  "link_ok A S i j \<longleftrightarrow>
     (let c = sc S i ! j in c \<in> A \<and> spar S c = i \<and> Suc (slvl S c) = slvl S i \<and>
        slo S c = child_lo S i j \<and> shi S c = child_hi S i j)"

definition par_ok :: "nat set \<Rightarrow> nat \<Rightarrow> 'k shape \<Rightarrow> nat \<Rightarrow> bool" where
  "par_ok A r S i \<longleftrightarrow> i = r \<or> spar S i \<in> A \<and> i \<in> set (sc S (spar S i))"

definition next_ok :: "nat set \<Rightarrow> 'k shape \<Rightarrow> nat \<Rightarrow> bool" where
  "next_ok A S i \<longleftrightarrow> (snx S i = 0 \<longleftrightarrow> shi S i = None) \<and>
     (snx S i \<noteq> 0 \<longrightarrow> snx S i \<in> A \<and> slo S (snx S i) = shi S i \<and> slvl S (snx S i) = slvl S i)"

definition shape_inv :: "nat \<Rightarrow> nat set \<Rightarrow> nat set \<Rightarrow> nat \<Rightarrow> 'k::linorder shape \<Rightarrow> bool" where
  "shape_inv n ov A r S \<longleftrightarrow>
     finite A \<and> 0 \<notin> A \<and> r \<in> A \<and> spar S r = 0 \<and> slo S r = None \<and> shi S r = None \<and>
     (\<forall>i \<in> A. keys_ok n ov S i \<and> (\<forall>j < length (sc S i). link_ok A S i j) \<and>
        par_ok A r S i \<and> next_ok A S i \<and> slvl S i \<le> slvl S r)"

lemma shape_invD:
  assumes "shape_inv n ov A r S"
  shows "finite A" "0 \<notin> A" "r \<in> A" "spar S r = 0" "slo S r = None" "shi S r = None"
    "\<And>i. i \<in> A \<Longrightarrow> keys_ok n ov S i"
    "\<And>i j. i \<in> A \<Longrightarrow> j < length (sc S i) \<Longrightarrow> link_ok A S i j"
    "\<And>i. i \<in> A \<Longrightarrow> par_ok A r S i" "\<And>i. i \<in> A \<Longrightarrow> next_ok A S i"
    "\<And>i. i \<in> A \<Longrightarrow> slvl S i \<le> slvl S r"
  using assms by (auto simp: shape_inv_def)

lemma keys_okD:
  assumes "keys_ok n ov S i"
  shows "sorted_wrt (<) (sk S i)" "\<And>k. k \<in> set (sk S i) \<Longrightarrow> in_rng S i k"
    "slf S i \<longleftrightarrow> slvl S i = 0" "slf S i \<Longrightarrow> sc S i = []"
    "\<not> slf S i \<Longrightarrow> sk S i \<noteq> []" "\<not> slf S i \<Longrightarrow> length (sc S i) = Suc (length (sk S i))"
    "\<not> slf S i \<Longrightarrow> k \<in> set (sk S i) \<Longrightarrow> slo S i \<noteq> Some k"
  using assms by (auto simp: keys_ok_def split: if_splits)

section \<open>Consequences: the path to a key is unique\<close>

lemma parent_index:
  assumes "shape_inv n ov A r S" and "i \<in> A" and "i \<noteq> r"
  obtains j where "j < length (sc S (spar S i))" "sc S (spar S i) ! j = i" "spar S i \<in> A"
    "\<not> slf S (spar S i)" "link_ok A S (spar S i) j" "spar S i \<noteq> i"
proof -
  from shape_invD(9) [OF assms(1,2)] assms(3)
  have p: "spar S i \<in> A" "i \<in> set (sc S (spar S i))" by (auto simp: par_ok_def)
  then obtain j where j: "j < length (sc S (spar S i))" "sc S (spar S i) ! j = i"
    by (auto simp: in_set_conv_nth)
  have k: "keys_ok n ov S (spar S i)" by (rule shape_invD(7) [OF assms(1) p(1)])
  have leaf: "\<not> slf S (spar S i)" using keys_okD(4) [OF k] p(2) by auto
  have l: "link_ok A S (spar S i) j" by (rule shape_invD(8) [OF assms(1) p(1) j(1)])
  have "spar S i \<noteq> i" using l j by (auto simp: link_ok_def Let_def)
  with j p leaf l that show ?thesis by blast
qed

lemma child_rng:
  assumes "shape_inv n ov A r S" and "i \<in> A" and "\<not> slf S i" and "j < length (sc S i)"
  shows "in_rng S (sc S i ! j) x \<longleftrightarrow>
    (if j = 0 then above (slo S i) x else sk S i ! (j - 1) \<le> x) \<and>
    (if j = length (sk S i) then below (shi S i) x else x < sk S i ! j)"
  using shape_invD(8) [OF assms(1,2,4)]
  by (auto simp: in_rng_def link_ok_def Let_def child_lo_def child_hi_def)

lemma child_rng_subset:
  assumes inv: "shape_inv n ov A r S" and i: "i \<in> A" "\<not> slf S i" "j < length (sc S i)"
    and x: "in_rng S (sc S i ! j) x"
  shows "in_rng S i x"
proof -
  have K: "keys_ok n ov S i" by (rule shape_invD(7) [OF inv i(1)])
  have len: "length (sc S i) = Suc (length (sk S i))" using keys_okD(6) [OF K i(2)] .
  have in_i: "in_rng S i (sk S i ! m)" if "m < length (sk S i)" for m
    using keys_okD(2) [OF K] that by simp
  have "above (slo S i) x"
  proof (cases "j = 0")
    case False
    then have "sk S i ! (j - 1) \<le> x" using x child_rng [OF inv i] by auto
    moreover have "j - 1 < length (sk S i)" using i(3) len False by linarith
    ultimately show ?thesis
      using in_i [of "j - 1"] by (cases "slo S i") (auto simp: in_rng_def)
  qed (use x child_rng [OF inv i] in auto)
  moreover have "below (shi S i) x"
  proof (cases "j = length (sk S i)")
    case False
    then have "x < sk S i ! j" using x child_rng [OF inv i] by auto
    with in_i [of j] i(3) len False show ?thesis
      by (cases "shi S i") (auto simp: in_rng_def)
  qed (use x child_rng [OF inv i] in auto)
  ultimately show ?thesis by (simp add: in_rng_def)
qed

lemma child_unique:
  assumes inv: "shape_inv n ov A r S" and i: "i \<in> A" "\<not> slf S i"
    and j: "j < length (sc S i)" "j' < length (sc S i)"
    and x: "in_rng S (sc S i ! j) x" "in_rng S (sc S i ! j') x"
  shows "j = j'"
proof (rule ccontr)
  have K: "keys_ok n ov S i" by (rule shape_invD(7) [OF inv i(1)])
  have len: "length (sc S i) = Suc (length (sk S i))" using keys_okD(6) [OF K i(2)] .
  have no: False if "a < b" "b < length (sc S i)" "in_rng S (sc S i ! a) x" "in_rng S (sc S i ! b) x"
    for a b
  proof -
    have "x < sk S i ! a" using child_rng [OF inv i, of a] that len by auto
    also have "sk S i ! a \<le> sk S i ! (b - 1)"
    proof (cases "a = b - 1")
      case False
      then have "a < b - 1" "b - 1 < length (sk S i)" using that len by linarith+
      then show ?thesis using sorted_wrt_nth_less [OF keys_okD(1) [OF K]] by (simp add: less_imp_le)
    qed simp
    also have "\<dots> \<le> x" using child_rng [OF inv i, of b] that by auto
    finally show False by simp
  qed
  assume "j \<noteq> j'"
  then show False using no j x by (metis nat_neq_iff)
qed

lemma level_unique:
  assumes inv: "shape_inv n ov A r S" and "i \<in> A" "i' \<in> A" "slvl S i = slvl S i'"
    and "in_rng S i x" "in_rng S i' x"
  shows "i = i'"
  using assms(2-)
proof (induction "slvl S r - slvl S i" arbitrary: i i')
  case 0
  have top: "a = r" if "a \<in> A" "slvl S a = slvl S r" for a
  proof (rule ccontr)
    assume "a \<noteq> r"
    from parent_index [OF inv that(1) this] obtain j where
      "spar S a \<in> A" "link_ok A S (spar S a) j" "sc S (spar S a) ! j = a" by metis
    then have "Suc (slvl S a) = slvl S (spar S a)" "spar S a \<in> A"
      by (auto simp: link_ok_def Let_def)
    with shape_invD(11) [OF inv, of "spar S a"] that show False by simp
  qed
  have "slvl S i = slvl S r"
    using 0 shape_invD(11) [OF inv 0(2)] by simp
  then show ?case using top [OF 0(2)] top [OF 0(3)] 0(4) by simp
next
  case (Suc d)
  have "slvl S i \<noteq> slvl S r" using Suc.hyps(2) by simp
  then have "i \<noteq> r" "i' \<noteq> r" using Suc.prems(3) by blast+
  from parent_index [OF inv Suc.prems(1) \<open>i \<noteq> r\<close>] obtain j where
    j: "j < length (sc S (spar S i))" "sc S (spar S i) ! j = i" "spar S i \<in> A"
      "\<not> slf S (spar S i)" "link_ok A S (spar S i) j" by metis
  from parent_index [OF inv Suc.prems(2) \<open>i' \<noteq> r\<close>] obtain j' where
    j': "j' < length (sc S (spar S i'))" "sc S (spar S i') ! j' = i'" "spar S i' \<in> A"
      "\<not> slf S (spar S i')" "link_ok A S (spar S i') j'" by metis
  have lv: "slvl S (spar S i) = Suc (slvl S i)" "slvl S (spar S i') = Suc (slvl S i')"
    using j j' by (auto simp: link_ok_def Let_def)
  have "in_rng S (spar S i) x" "in_rng S (spar S i') x"
    using child_rng_subset [OF inv j(3,4,1)] child_rng_subset [OF inv j'(3,4,1)] j j' Suc.prems
    by auto
  then have "spar S i = spar S i'"
    using Suc.hyps(1) [of "spar S i" "spar S i'"] Suc.hyps(2) Suc.prems j(3) j'(3) lv by simp
  with child_unique [OF inv j(3,4,1), of j'] j j' Suc.prems show ?case by auto
qed

lemma keys_ok_mono: "keys_ok n {} S i \<Longrightarrow> keys_ok n ov S i"
  by (auto simp: keys_ok_def)

lemma keys_ok_other: "keys_ok n ov S x \<Longrightarrow> x \<notin> ov \<Longrightarrow> keys_ok n {} S x"
  by (auto simp: keys_ok_def split: if_splits)

lemma distinct_childs:
  assumes inv: "shape_inv n ov A r S" and i: "i \<in> A" and j: "a < b" "b < length (sc S i)"
  shows "sc S i ! a \<noteq> sc S i ! b"
proof
  assume eq: "sc S i ! a = sc S i ! b"
  have K: "keys_ok n ov S i" by (rule shape_invD(7) [OF inv i])
  have lf: "\<not> slf S i" using keys_okD(4) [OF K] j by auto
  have len: "length (sc S i) = Suc (length (sk S i))" using keys_okD(6) [OF K lf] .
  have "link_ok A S i a" "link_ok A S i b" using shape_invD(8) [OF inv i] j by auto
  with eq j have lo: "child_lo S i a = Some (sk S i ! (b - 1))"
    by (auto simp: link_ok_def Let_def child_lo_def)
  have b: "b - 1 < length (sk S i)" using j len by linarith
  show False
  proof (cases "a = 0")
    case True
    with lo keys_okD(7) [OF K lf, of "sk S i ! (b - 1)"] b show False
      by (auto simp: child_lo_def)
  next
    case False
    then have "sk S i ! (a - 1) < sk S i ! (b - 1)"
      using sorted_wrt_nth_less [OF keys_okD(1) [OF K], of "a - 1" "b - 1"] b j by simp
    with lo False show False by (auto simp: child_lo_def)
  qed
qed

section \<open>Splitting a full node\<close>

definition half :: "'k shape \<Rightarrow> nat \<Rightarrow> nat" where
  "half S i = length (sk S i) div 2"

definition mid_key :: "'k shape \<Rightarrow> nat \<Rightarrow> 'k" where
  "mid_key S i = sk S i ! half S i"

definition half_childs :: "'k shape \<Rightarrow> nat \<Rightarrow> nat" where
  "half_childs S i = length (sc S i) div 2"

definition right_from :: "'k shape \<Rightarrow> nat \<Rightarrow> nat" where
  "right_from S i = (if slf S i then half S i else half S i + 1)"

text \<open>The view after the first half of a split: \<open>c\<close> takes the upper half of \<open>i\<close>.\<close>

definition split_shape :: "'k shape \<Rightarrow> nat \<Rightarrow> nat \<Rightarrow> 'k shape" where
  "split_shape S i c = S\<lparr>
     sk := (sk S)(i := take (half S i) (sk S i), c := drop (right_from S i) (sk S i)),
     sc := (sc S)(i := take (half_childs S i) (sc S i), c := drop (half_childs S i) (sc S i)),
     slf := (slf S)(c := slf S i),
     spar := (\<lambda>x. if x = c then 0
                  else if x \<in> set (drop (half_childs S i) (sc S i)) then c else spar S x),
     snx := (snx S)(i := c, c := snx S i),
     slo := (slo S)(c := Some (mid_key S i)),
     shi := (shi S)(i := Some (mid_key S i), c := shi S i),
     slvl := (slvl S)(c := slvl S i)\<rparr>"

definition can_split :: "nat \<Rightarrow> nat set \<Rightarrow> nat \<Rightarrow> 'k::linorder shape \<Rightarrow> nat \<Rightarrow> nat \<Rightarrow> bool" where
  "can_split n A r S i c \<longleftrightarrow> 2 \<le> n \<and> shape_inv n {i} A r S \<and> i \<in> A \<and> c \<notin> A \<and> c \<noteq> 0 \<and>
     length (sk S i) = (if slf S i then 2 * n else 2 * n - 1)"

lemma can_splitD:
  assumes "can_split n A r S i c"
  shows "2 \<le> n" "shape_inv n {i} A r S" "i \<in> A" "c \<notin> A" "c \<noteq> 0" "c \<noteq> i" "i \<noteq> 0"
    "keys_ok n {i} S i"
  using assms shape_invD(2,7) [of n "{i}" A r S]
  unfolding can_split_def by (blast, blast, blast, blast, blast, blast, metis, blast)

lemma split_sizes:
  assumes "can_split n A r S i c"
  shows "half S i = (if slf S i then n else n - 1)" "right_from S i = n" "half S i < length (sk S i)"
    "0 < half S i" "half_childs S i = (if slf S i then 0 else n)"
    "length (sc S i) = (if slf S i then 0 else 2 * n)"
    "length (sk S i) = (if slf S i then 2 * n else 2 * n - 1)"
  using assms can_splitD(1,8) [OF assms]
  by (auto simp: can_split_def half_def right_from_def half_childs_def keys_ok_def split: if_splits)

lemma mid_key_facts:
  assumes "can_split n A r S i c"
  shows "in_rng S i (mid_key S i)" "slo S i \<noteq> Some (mid_key S i)"
    "\<And>k. k \<in> set (take (half S i) (sk S i)) \<Longrightarrow> k < mid_key S i"
    "\<And>k. k \<in> set (drop (right_from S i) (sk S i)) \<Longrightarrow> mid_key S i \<le> k"
    "\<And>k. \<not> slf S i \<Longrightarrow> k \<in> set (drop (right_from S i) (sk S i)) \<Longrightarrow> mid_key S i \<noteq> k"
proof -
  note c = can_splitD [OF assms] and z = split_sizes [OF assms]
  note srt = keys_okD(1) [OF c(8)]
  have less: "sk S i ! a < sk S i ! b" if "a < b" "b < length (sk S i)" for a b
    using sorted_wrt_nth_less [OF srt] that by simp
  show rng: "in_rng S i (mid_key S i)"
    using keys_okD(2) [OF c(8)] z(3) by (simp add: mid_key_def)
  show lt: "k < mid_key S i" if "k \<in> set (take (half S i) (sk S i))" for k
    using that z(3) by (auto simp: mid_key_def in_set_conv_nth intro: less)
  have first: "sk S i ! 0 < mid_key S i" using less [of 0 "half S i"] z(3,4) by (simp add: mid_key_def)
  have "in_rng S i (sk S i ! 0)" using keys_okD(2) [OF c(8)] z(3) by (cases "sk S i") auto
  with first show "slo S i \<noteq> Some (mid_key S i)" by (auto simp: in_rng_def)
  have idx: "half S i \<le> n" "\<not> slf S i \<Longrightarrow> half S i < n" using z(1) c(1) by (auto split: if_splits)
  show "mid_key S i \<le> k" if "k \<in> set (drop (right_from S i) (sk S i))" for k
  proof -
    from that z(2) obtain a where "k = sk S i ! (n + a)" "n + a < length (sk S i)"
      by (auto simp: in_set_conv_nth)
    with less [of "half S i" "n + a"] idx(1) show ?thesis
      by (cases "half S i = n + a") (auto simp: mid_key_def)
  qed
  show "mid_key S i \<noteq> k" if "\<not> slf S i" "k \<in> set (drop (right_from S i) (sk S i))" for k
  proof -
    from that z(2) obtain a where "k = sk S i ! (n + a)" "n + a < length (sk S i)"
      by (auto simp: in_set_conv_nth)
    with less [of "half S i" "n + a"] idx(2) that(1) show ?thesis
      by (auto simp: mid_key_def)
  qed
qed

lemma split_keys_left:
  assumes "can_split n A r S i c"
  shows "keys_ok n {} (split_shape S i c) i"
proof -
  note c = can_splitD [OF assms] and z = split_sizes [OF assms] and m = mid_key_facts [OF assms]
  have "in_rng S i k" if "k \<in> set (take (half S i) (sk S i))" for k
    using keys_okD(2) [OF c(8)] that by (auto dest: in_set_takeD)
  moreover have "slo S i \<noteq> Some k" if "\<not> slf S i" "k \<in> set (take (half S i) (sk S i))" for k
    using keys_okD(7) [OF c(8) that(1)] that(2) by (auto dest: in_set_takeD)
  moreover have "sorted_wrt (<) (take (half S i) (sk S i))"
    using keys_okD(1) [OF c(8)] by (rule sorted_wrt_take)
  ultimately show ?thesis
    using c z m(3) keys_okD(3,4) [OF c(8)]
    by (auto simp: keys_ok_def split_shape_def in_rng_def)
qed

lemma split_keys_right:
  assumes "can_split n A r S i c"
  shows "keys_ok n {} (split_shape S i c) c"
proof -
  note c = can_splitD [OF assms] and z = split_sizes [OF assms] and m = mid_key_facts [OF assms]
  have "in_rng S i k" if "k \<in> set (drop (right_from S i) (sk S i))" for k
    using keys_okD(2) [OF c(8)] that by (auto dest: in_set_dropD)
  moreover have "sorted_wrt (<) (drop (right_from S i) (sk S i))"
    using keys_okD(1) [OF c(8)] by (rule sorted_wrt_drop)
  ultimately show ?thesis
    using c z m(4,5) keys_okD(3,4) [OF c(8)]
    by (auto simp: keys_ok_def split_shape_def in_rng_def)
qed

lemma split_keys_other:
  assumes "can_split n A r S i c" and "x \<in> A" and "x \<noteq> i"
  shows "keys_ok n {} (split_shape S i c) x"
proof -
  note c = can_splitD [OF assms(1)]
  have "keys_ok n {} S x"
    using shape_invD(7) [OF c(2) assms(2)] assms(3) by (auto intro: keys_ok_other)
  moreover have "x \<noteq> c" using assms(2) c(4) by auto
  ultimately show ?thesis
    using assms(3) by (auto simp: keys_ok_def split_shape_def in_rng_def split: if_splits)
qed

lemma split_link_left:
  assumes "can_split n A r S i c" and "j < length (sc (split_shape S i c) i)"
  shows "link_ok (insert c A) (split_shape S i c) i j"
proof -
  note c = can_splitD [OF assms(1)] and z = split_sizes [OF assms(1)]
  have lf: "\<not> slf S i" and j: "j < n"
    using assms(2) c(6) z(5,6) by (auto simp: split_shape_def split: if_splits)
  have h: "half S i = n - 1" "half_childs S i = n" "length (sc S i) = 2 * n" using z lf by auto
  have l: "link_ok A S i j" using shape_invD(8) [OF c(2,3)] j h by simp
  let ?y = "sc S i ! j"
  have y: "?y \<in> A" "?y \<noteq> c" "?y \<noteq> i" using l c(4) by (auto simp: link_ok_def Let_def)
  have "?y \<notin> set (drop n (sc S i))"
  proof
    assume "?y \<in> set (drop n (sc S i))"
    then obtain a where "sc S i ! (n + a) = ?y" "a < length (sc S i) - n"
      by (auto simp: in_set_conv_nth)
    moreover then have "j < n + a" "n + a < length (sc S i)" using j by linarith+
    ultimately show False using distinct_childs [OF c(2,3), of j "n + a"] by simp
  qed
  moreover have "child_hi (split_shape S i c) i j = child_hi S i j"
    using j c(1,6) lf h z(7)
    by (auto simp: child_hi_def split_shape_def mid_key_def)
  moreover have "child_lo (split_shape S i c) i j = child_lo S i j"
    using j c(1,6) lf h z(7) by (auto simp: child_lo_def split_shape_def)
  ultimately show ?thesis
    using l y j h c(6) by (auto simp: link_ok_def Let_def split_shape_def)
qed

lemma split_link_right:
  assumes "can_split n A r S i c" and "j < length (sc (split_shape S i c) c)"
  shows "link_ok (insert c A) (split_shape S i c) c j"
proof -
  note c = can_splitD [OF assms(1)] and z = split_sizes [OF assms(1)]
  have lf: "\<not> slf S i" and j: "j < n"
    using assms(2) z(5,6) by (auto simp: split_shape_def split: if_splits)
  have h: "half S i = n - 1" "half_childs S i = n" "length (sc S i) = 2 * n" "right_from S i = n"
    using z lf by auto
  have l: "link_ok A S i (n + j)" using shape_invD(8) [OF c(2,3)] j h by simp
  let ?y = "sc S i ! (n + j)"
  have y: "?y \<in> A" "?y \<noteq> c" "?y \<noteq> i" using l c(4) by (auto simp: link_ok_def Let_def)
  have "?y \<in> set (drop n (sc S i))"
    using j h(3) by (auto simp: in_set_conv_nth intro!: exI [of _ j])
  moreover have "child_hi (split_shape S i c) c j = child_hi S i (n + j)"
    using j c(1) lf h z(7) by (auto simp: child_hi_def split_shape_def)
  moreover have "child_lo (split_shape S i c) c j = child_lo S i (n + j)"
  proof (cases "j = 0")
    case True
    then show ?thesis using c(1) h by (simp add: child_lo_def split_shape_def mid_key_def)
  next
    case False
    then have "n + (j - 1) < length (sk S i)" "n + (j - 1) = n + j - 1" using j lf z(7) by auto
    then show ?thesis using False c(1) h by (simp add: child_lo_def split_shape_def)
  qed
  ultimately show ?thesis
    using l y j h by (auto simp: link_ok_def Let_def split_shape_def)
qed

lemma split_link_other:
  assumes "can_split n A r S i c" and "x \<in> A" "x \<noteq> i" "j < length (sc S x)" "sc S x ! j \<noteq> i"
  shows "link_ok (insert c A) (split_shape S i c) x j"
proof -
  note c = can_splitD [OF assms(1)]
  have l: "link_ok A S x j" using shape_invD(8) [OF c(2) assms(2,4)] .
  let ?y = "sc S x ! j"
  have y: "?y \<in> A" "?y \<noteq> c" "spar S ?y = x" "x \<noteq> c" using l c(4) assms(2) by (auto simp: link_ok_def Let_def)
  have "?y \<notin> set (drop (half_childs S i) (sc S i))"
  proof
    assume "?y \<in> set (drop (half_childs S i) (sc S i))"
    then obtain a where "a < length (sc S i)" "sc S i ! a = ?y"
      by (metis in_set_conv_nth in_set_dropD)
    with shape_invD(8) [OF c(2,3), of a] have "spar S ?y = i" by (auto simp: link_ok_def Let_def)
    with y(3) assms(3) show False by simp
  qed
  with l y assms(3,5) show ?thesis
    by (auto simp: link_ok_def Let_def split_shape_def child_lo_def child_hi_def)
qed

lemma split_par:
  assumes "can_split n A r S i c" and "x \<in> A" "x \<noteq> r"
  shows "spar (split_shape S i c) x \<in> insert c A \<and>
    x \<in> set (sc (split_shape S i c) (spar (split_shape S i c) x))"
proof -
  note c = can_splitD [OF assms(1)]
  have p: "spar S x \<in> A" "x \<in> set (sc S (spar S x))" "spar S x \<noteq> c"
    using shape_invD(9) [OF c(2) assms(2)] assms(3) c(4) by (auto simp: par_ok_def)
  show ?thesis
  proof (cases "x \<in> set (drop (half_childs S i) (sc S i))")
    case True
    moreover have "x \<noteq> c" using assms(2) c(4) by auto
    ultimately show ?thesis by (simp add: split_shape_def)
  next
    case False
    moreover have "x \<in> set (take (half_childs S i) (sc S i))" if "spar S x = i"
      using False p(2) that by (metis Un_iff append_take_drop_id set_append)
    moreover have "x \<noteq> c" using assms(2) c(4) by auto
    ultimately show ?thesis using p by (auto simp: split_shape_def)
  qed
qed

lemma split_next:
  assumes "can_split n A r S i c" and "x \<in> insert c A"
  shows "next_ok (insert c A) (split_shape S i c) x"
proof -
  note c = can_splitD [OF assms(1)]
  have old: "next_ok A S y" if "y \<in> A" for y using shape_invD(10) [OF c(2) that] .
  consider "x = i" | "x = c" | "x \<in> A" "x \<noteq> i" "x \<noteq> c" using assms(2) by auto
  then show ?thesis
  proof cases
    case 1
    then show ?thesis using c by (simp add: next_ok_def split_shape_def)
  next
    case 2
    have "snx S i \<noteq> c" using old [OF c(3)] c(4,5) by (auto simp: next_ok_def)
    then show ?thesis using 2 old [OF c(3)] by (auto simp: next_ok_def split_shape_def)
  next
    case 3
    have "snx S x \<noteq> c" using old [OF 3(1)] c(4,5) by (auto simp: next_ok_def)
    then show ?thesis using 3 old [OF 3(1)] by (auto simp: next_ok_def split_shape_def)
  qed
qed

lemma split_levels:
  assumes "can_split n A r S i c" and "x \<in> insert c A"
  shows "slvl (split_shape S i c) x \<le> slvl S r"
  using can_splitD [OF assms(1)] assms(2) shape_invD(11) [OF can_splitD(2) [OF assms(1)]]
  by (auto simp: split_shape_def)

text \<open>Together: after the first half everything is right, except the link of the old parent to \<open>i\<close>.\<close>

lemma split_keys:
  assumes "can_split n A r S i c" and "x \<in> insert c A"
  shows "keys_ok n {} (split_shape S i c) x"
  using assms(2) split_keys_left [OF assms(1)] split_keys_right [OF assms(1)] split_keys_other [OF assms(1), of x]
  by (cases "x = i"; cases "x = c") auto

lemma split_child:
  assumes "can_split n A r S i c" and "x \<in> insert c A" and "y \<in> set (sc (split_shape S i c) x)"
  shows "y \<in> A" "y \<noteq> c" "y \<noteq> r"
proof -
  note c = can_splitD [OF assms(1)]
  from assms(2,3) obtain z where z: "z \<in> A" "y \<in> set (sc S z)"
    using c(3) by (auto simp: split_shape_def split: if_splits dest: in_set_takeD in_set_dropD)
  then obtain b where "b < length (sc S z)" "sc S z ! b = y" by (auto simp: in_set_conv_nth)
  with shape_invD(8) [OF c(2) z(1)] have "y \<in> A" "Suc (slvl S y) = slvl S z" by (auto simp: link_ok_def Let_def)
  with shape_invD(11) [OF c(2) z(1)] c(4) show "y \<in> A" "y \<noteq> c" "y \<noteq> r" by auto
qed

lemma split_link:
  assumes "can_split n A r S i c" and x: "x \<in> insert c A" "x \<noteq> spar S i \<or> i = r" and a: "a < length (sc (split_shape S i c) x)"
  shows "link_ok (insert c A) (split_shape S i c) x a"
proof -
  note c = can_splitD [OF assms(1)]
  consider "x = i" | "x = c" | "x \<in> A" "x \<noteq> i" "x \<noteq> c" using x(1) by auto
  then show ?thesis
  proof cases
    case 3
    have a': "a < length (sc S x)" "sc S x ! a = sc (split_shape S i c) x ! a" using a 3 by (simp_all add: split_shape_def)
    have "spar S (sc S x ! a) = x" using shape_invD(8) [OF c(2) 3(1) a'(1)] by (simp add: link_ok_def Let_def)
    moreover have "sc S x ! a \<noteq> r" using split_child(3) [OF assms(1) x(1)] a a'(2) by simp
    ultimately show ?thesis using split_link_other [OF assms(1) 3(1,2) a'(1)] x(2) by metis
  qed (use a split_link_left [OF assms(1)] split_link_right [OF assms(1)] in auto)
qed

section \<open>Entering the new node into the parent\<close>

definition attach_shape :: "'k shape \<Rightarrow> nat \<Rightarrow> nat \<Rightarrow> nat \<Rightarrow> 'k \<Rightarrow> 'k shape" where
  "attach_shape S p j c mid = S\<lparr>
     sk := (sk S)(p := insert_at j mid (sk S p)),
     sc := (sc S)(p := insert_at (Suc j) c (sc S p)),
     spar := (spar S)(c := p)\<rparr>"

text \<open>Node \<open>i\<close> is the \<open>j\<close>-th child of its parent \<open>p\<close>.\<close>

definition child_at :: "'k shape \<Rightarrow> nat \<Rightarrow> nat \<Rightarrow> nat \<Rightarrow> bool" where
  "child_at S p j i \<longleftrightarrow> p = spar S i \<and> j < length (sc S p) \<and> sc S p ! j = i"

lemma child_atD:
  assumes "can_split n A r S i c" and "child_at S p j i" and "i \<noteq> r"
  shows "p \<in> A" "p \<noteq> i" "p \<noteq> c" "\<not> slf S p" "link_ok A S p j" "keys_ok n {i} S p"
    "length (sc S p) = Suc (length (sk S p))" "j \<le> length (sk S p)" "length (sk S p) \<le> 2 * n - 2"
proof -
  note c = can_splitD [OF assms(1)]
  have p: "p = spar S i" "j < length (sc S p)" "sc S p ! j = i"
    using assms(2) by (auto simp: child_at_def)
  from parent_index [OF c(2,3) assms(3)]
  have "spar S i \<in> A \<and> spar S i \<noteq> i \<and> \<not> slf S (spar S i)" by blast
  then show pA: "p \<in> A" and pi: "p \<noteq> i" and lf: "\<not> slf S p" using p(1) by simp_all
  show "p \<noteq> c" using pA c(4) by auto
  show "link_ok A S p j" by (rule shape_invD(8) [OF c(2) pA p(2)])
  show k: "keys_ok n {i} S p" by (rule shape_invD(7) [OF c(2) pA])
  show len: "length (sc S p) = Suc (length (sk S p))" using keys_okD(6) [OF k lf] .
  then show "j \<le> length (sk S p)" using p(2) by simp
  show "length (sk S p) \<le> 2 * n - 2" using k lf pi by (auto simp: keys_ok_def)
qed

text \<open>Where the separator goes: exactly between the separators around child \<open>j\<close>.\<close>

lemma mid_position:
  assumes "can_split n A r S i c" and "child_at S p j i" and "i \<noteq> r"
  shows "\<And>a. a < j \<Longrightarrow> sk S p ! a < mid_key S i"
    "\<And>a. j \<le> a \<Longrightarrow> a < length (sk S p) \<Longrightarrow> mid_key S i < sk S p ! a"
    "in_rng S p (mid_key S i)" "slo S p \<noteq> Some (mid_key S i)"
proof -
  note c = can_splitD [OF assms(1)] and d = child_atD [OF assms] and m = mid_key_facts [OF assms(1)]
  note srt = keys_okD(1) [OF d(6)]
  have i: "sc S p ! j = i" "j < length (sc S p)" using assms(2) by (auto simp: child_at_def)
  have lo: "slo S i = child_lo S p j" and hi: "shi S i = child_hi S p j"
    using d(5) i(1) by (simp_all add: link_ok_def Let_def)
  have prev: "sk S p ! (j - 1) < mid_key S i" if "0 < j"
  proof (rule le_neq_trans)
    have eq: "slo S i = Some (sk S p ! (j - 1))" using that lo by (simp add: child_lo_def)
    show "sk S p ! (j - 1) \<le> mid_key S i" using m(1) eq by (simp add: in_rng_def)
    show "sk S p ! (j - 1) \<noteq> mid_key S i" using m(2) eq by simp
  qed
  show lt: "sk S p ! a < mid_key S i" if "a < j" for a
  proof (cases "a = j - 1")
    case False
    then have "sk S p ! a < sk S p ! (j - 1)"
      using sorted_wrt_nth_less [OF srt, of a "j - 1"] that d(8) by simp
    also have "\<dots> < mid_key S i" using prev that by simp
    finally show ?thesis .
  qed (use prev that in simp)
  show "mid_key S i < sk S p ! a" if "j \<le> a" "a < length (sk S p)" for a
  proof -
    have "mid_key S i < sk S p ! j" using that hi m(1) by (auto simp: child_hi_def in_rng_def)
    also have "sk S p ! j \<le> sk S p ! a"
      using sorted_wrt_nth_less [OF srt, of j a] that by (cases "j = a") (auto intro: less_imp_le)
    finally show ?thesis .
  qed
  show "in_rng S p (mid_key S i)"
    using child_rng_subset [OF c(2) d(1,4) i(2)] i(1) m(1) by simp
  show "slo S p \<noteq> Some (mid_key S i)"
  proof (cases "j = 0")
    case True
    with lo m(2) show ?thesis by (simp add: child_lo_def)
  next
    case False
    then have "in_rng S p (sk S p ! (j - 1))" using keys_okD(2) [OF d(6)] d(8) by simp
    with lt [of "j - 1"] False show ?thesis by (auto simp: in_rng_def)
  qed
qed

abbreviation grown :: "'k shape \<Rightarrow> nat \<Rightarrow> nat \<Rightarrow> nat \<Rightarrow> nat \<Rightarrow> 'k shape" where
  "grown S i c p j \<equiv> attach_shape (split_shape S i c) p j c (mid_key S i)"

lemma grown_keys_parent:
  assumes "can_split n A r S i c" and "child_at S p j i" and "i \<noteq> r"
  shows "keys_ok n {p} (grown S i c p j) p"
proof -
  note c = can_splitD [OF assms(1)] and d = child_atD [OF assms] and m = mid_position [OF assms]
  have "sorted_wrt (<) (insert_at j (mid_key S i) (sk S p))"
    by (rule sorted_insert_at [OF keys_okD(1) [OF d(6)] d(8)]) (auto intro: m)
  with d c(1) m(3,4) show ?thesis
    by (auto simp: keys_ok_def attach_shape_def split_shape_def in_rng_def)
qed

lemma grown_link_parent:
  assumes "can_split n A r S i c" and "child_at S p j i" and "i \<noteq> r"
    and "a < length (sc (grown S i c p j) p)"
  shows "link_ok (insert c A) (grown S i c p j) p a"
proof -
  note c = can_splitD [OF assms(1)] and d = child_atD [OF assms(1-3)]
  have i: "sc S p ! j = i" "j < length (sc S p)" using assms(2) by (auto simp: child_at_def)
  have a: "a \<le> Suc (length (sk S p))"
    using assms(4) d(2,3,7) by (simp add: attach_shape_def split_shape_def)
  have li: "slo S i = child_lo S p j" "shi S i = child_hi S p j" "Suc (slvl S i) = slvl S p"
    using d(5) i(1) by (auto simp: link_ok_def Let_def)
  note simps = link_ok_def Let_def attach_shape_def split_shape_def child_lo_def child_hi_def
    nth_insert_at
  consider "a < j" | "a = j" | "a = Suc j" | "Suc j < a" by linarith
  then show ?thesis
  proof cases
    case 1
    have y: "sc S p ! a \<noteq> i" using distinct_childs [OF c(2) d(1) 1 i(2)] i(1) by simp
    have "link_ok (insert c A) (split_shape S i c) p a"
      by (rule split_link_other [OF assms(1) d(1,2) _ y]) (use 1 i in simp)
    moreover have "sc S p ! a \<noteq> c" using shape_invD(8) [OF c(2) d(1), of a] 1 i c(4)
      by (auto simp: link_ok_def Let_def)
    ultimately show ?thesis using 1 d i y by (auto simp: simps)
  next
    case 2
    have "i \<notin> set (drop (half_childs S i) (sc S i))"
    proof
      assume "i \<in> set (drop (half_childs S i) (sc S i))"
      then obtain b where "b < length (sc S i)" "sc S i ! b = i"
        by (metis in_set_conv_nth in_set_dropD)
      with shape_invD(8) [OF c(2,3), of b] show False by (auto simp: link_ok_def Let_def)
    qed
    with 2 c d i li assms(2) show ?thesis by (auto simp: simps child_at_def)
  next
    case 3
    with c d i li show ?thesis by (auto simp: simps)
  next
    case 4
    have b: "j < a - 1" "a - 1 < length (sc S p)" using 4 a d(7) by auto
    have y: "sc S p ! (a - 1) \<noteq> i" using distinct_childs [OF c(2) d(1) b] i(1) by simp
    have l: "link_ok (insert c A) (split_shape S i c) p (a - 1)"
      by (rule split_link_other [OF assms(1) d(1,2) b(2) y])
    have yc: "sc S p ! (a - 1) \<noteq> c" using shape_invD(8) [OF c(2) d(1) b(2)] c(4)
      by (auto simp: link_ok_def Let_def)
    have "a - 1 - 1 = a - 2" "\<not> a - 1 < j" "a - 1 \<noteq> j" "a \<noteq> 0" "a - 1 \<noteq> 0" using 4 by auto
    with l yc 4 a d i y show ?thesis by (auto simp: simps)
  qed
qed

lemma attach_frame:
  assumes "x \<noteq> p"
  shows "keys_ok n ov (attach_shape S p j c mid) x = keys_ok n ov S x"
    "next_ok A (attach_shape S p j c mid) y = next_ok A S y"
    "slvl (attach_shape S p j c mid) = slvl S"
  using assms by (simp_all add: keys_ok_def attach_shape_def in_rng_def next_ok_def)

text \<open>Splitting a full node below the root keeps the invariant; only the parent may now be full.\<close>

lemma grown_inv:
  assumes "can_split n A r S i c" and "child_at S p j i" and "i \<noteq> r"
  shows "shape_inv n {p} (insert c A) r (grown S i c p j)"
proof -
  note c = can_splitD [OF assms(1)] and d = child_atD [OF assms] and si = shape_invD [OF can_splitD(2) [OF assms(1)]]
  have rc: "r \<noteq> c" using si(3) c(4) by auto
  have keys: "keys_ok n {p} (grown S i c p j) x" if "x \<in> insert c A" for x
    using grown_keys_parent [OF assms] split_keys [OF assms(1) that] by (cases "x = p") (simp_all add: attach_frame keys_ok_mono)
  have links: "link_ok (insert c A) (grown S i c p j) x a"
    if x: "x \<in> insert c A" "a < length (sc (grown S i c p j) x)" for x a
  proof (cases "x = p")
    case True
    then show ?thesis using grown_link_parent [OF assms] x(2) by simp
  next
    case False
    then have a: "a < length (sc (split_shape S i c) x)" using x(2) by (simp add: attach_shape_def)
    have "link_ok (insert c A) (split_shape S i c) x a"
      by (rule split_link [OF assms(1) x(1) _ a]) (use False assms(2) in \<open>simp add: child_at_def\<close>)
    moreover have "sc (split_shape S i c) x ! a \<noteq> c" using split_child(2) [OF assms(1) x(1)] a by simp
    ultimately show ?thesis using False by (auto simp: link_ok_def Let_def attach_shape_def child_lo_def child_hi_def)
  qed
  have par: "par_ok (insert c A) r (grown S i c p j) x" if "x \<in> insert c A" for x
    using that d(1) split_par [OF assms(1), of x] by (cases "x = c") (auto simp: par_ok_def attach_shape_def)
  have "r \<notin> set (sc S i)"
    using si(8) [OF c(3)] si(4) c(7) by (auto simp: in_set_conv_nth link_ok_def Let_def)
  then have "spar (grown S i c p j) r = 0"
    using rc si(4) by (auto simp: attach_shape_def split_shape_def dest: in_set_dropD)
  moreover have "slo (grown S i c p j) r = None" "shi (grown S i c p j) r = None" "slvl (grown S i c p j) r = slvl S r"
    using rc si(5,6) assms(3) by (simp_all add: attach_shape_def split_shape_def)
  moreover have "next_ok (insert c A) (grown S i c p j) x" "slvl (grown S i c p j) x \<le> slvl S r"
    if "x \<in> insert c A" for x
    using split_next [OF assms(1) that] split_levels [OF assms(1) that] d(2)
    by (auto simp: next_ok_def attach_shape_def)
  ultimately show ?thesis
    unfolding shape_inv_def using keys links par si(1,2,3) c(5) by simp
qed

section \<open>Growing a new root\<close>

definition root_shape :: "'k shape \<Rightarrow> nat \<Rightarrow> nat \<Rightarrow> nat \<Rightarrow> 'k \<Rightarrow> 'k shape" where
  "root_shape S q i c mid = S\<lparr>
     sk := (sk S)(q := [mid]), sc := (sc S)(q := [i, c]), slf := (slf S)(q := False),
     spar := (spar S)(i := q, c := q, q := 0), snx := (snx S)(q := 0),
     slo := (slo S)(q := None), shi := (shi S)(q := None), slvl := (slvl S)(q := Suc (slvl S i))\<rparr>"

abbreviation rooted :: "'k shape \<Rightarrow> nat \<Rightarrow> nat \<Rightarrow> nat \<Rightarrow> 'k shape" where
  "rooted S i c q \<equiv> root_shape (split_shape S i c) q i c (mid_key S i)"

lemma rooted_root:
  assumes "can_split n A i S i c" and q: "q \<notin> insert c A" "q \<noteq> 0"
  shows "keys_ok n {} (rooted S i c q) q" "\<And>j. j < length (sc (rooted S i c q) q) \<Longrightarrow> link_ok (insert q (insert c A)) (rooted S i c q) q j"
    "par_ok (insert q (insert c A)) q (rooted S i c q) q" "next_ok (insert q (insert c A)) (rooted S i c q) q"
  using can_splitD(1,3,6) [OF assms(1)] shape_invD(5,6) [OF can_splitD(2) [OF assms(1)]] q
  by (auto simp: keys_ok_def in_rng_def link_ok_def Let_def child_lo_def child_hi_def par_ok_def
        next_ok_def root_shape_def split_shape_def less_Suc_eq)

lemma rooted_inv:
  assumes "can_split n A i S i c" and q: "q \<notin> insert c A" "q \<noteq> 0"
  shows "shape_inv n {} (insert q (insert c A)) q (rooted S i c q)"
proof -
  note c = can_splitD [OF assms(1)] and si = shape_invD [OF can_splitD(2) [OF assms(1)]]
  let ?H = "split_shape S i c" and ?T = "rooted S i c q"
  have neq: "q \<noteq> i" "q \<noteq> c" "c \<noteq> i" using q c(3,6) by auto
  have keys: "keys_ok n {} ?T x" if "x \<in> insert c A" for x
    using split_keys [OF assms(1) that] that q by (auto simp: keys_ok_def root_shape_def in_rng_def split: if_splits)
  have links: "link_ok (insert q (insert c A)) ?T x a"
    if x: "x \<in> insert c A" "a < length (sc ?T x)" for x a
  proof -
    have xq: "x \<noteq> q" using x(1) q by auto
    then have a: "a < length (sc ?H x)" using x(2) by (simp add: root_shape_def)
    let ?y = "sc ?H x ! a"
    have "link_ok (insert c A) ?H x a" by (rule split_link [OF assms(1) x(1) _ a]) simp
    moreover have "?y \<noteq> i" "?y \<noteq> q" "?y \<noteq> c" using split_child [OF assms(1) x(1), of ?y] a q by auto
    ultimately show ?thesis
      using xq by (auto simp: link_ok_def Let_def root_shape_def child_lo_def child_hi_def)
  qed
  have par: "par_ok (insert q (insert c A)) q ?T x" if x: "x \<in> insert c A" for x
  proof -
    consider "x = i" | "x = c" | "x \<in> A" "x \<noteq> i" "x \<noteq> c" using x by auto
    then show ?thesis
    proof cases
      case 3
      have "spar ?H x \<noteq> q" using split_par [OF assms(1) 3(1,2)] q by auto
      with split_par [OF assms(1) 3(1,2)] 3 show ?thesis
        by (auto simp: par_ok_def root_shape_def)
    qed (use neq in \<open>auto simp: par_ok_def root_shape_def\<close>)
  qed
  have nxt: "next_ok (insert q (insert c A)) ?T x" if "x \<in> insert c A" for x
  proof -
    have "x \<noteq> q" "snx ?H x \<noteq> q" using split_next [OF assms(1) that] that q by (auto simp: next_ok_def)
    then show ?thesis using split_next [OF assms(1) that] by (auto simp: next_ok_def root_shape_def)
  qed
  have lvl: "slvl ?T x \<le> slvl ?T q" if "x \<in> insert c A" for x
    using split_levels [OF assms(1) that] that q neq
    by (auto simp: root_shape_def split_shape_def)
  show ?thesis
    unfolding shape_inv_def
    using si(1,2) c(5) q rooted_root [OF assms] keys links par nxt lvl by (auto simp: root_shape_def)
qed

section \<open>Inserting a key into a leaf\<close>

definition leaf_shape :: "'k shape \<Rightarrow> nat \<Rightarrow> nat \<Rightarrow> 'k \<Rightarrow> 'k shape" where
  "leaf_shape S i d k = S\<lparr>sk := (sk S)(i := insert_at d k (sk S i))\<rparr>"

lemma leaf_inv:
  assumes "shape_inv n {} A r S" and "1 \<le> n" and "i \<in> A" "slf S i" "in_rng S i k" "k \<notin> set (sk S i)"
    and d: "d = lower_bound (\<lambda>x. x < k) (sk S i)"
  shows "shape_inv n {i} A r (leaf_shape S i d k)"
proof -
  note si = shape_invD [OF assms(1)]
  have K: "keys_ok n {} S i" by (rule si(7) [OF assms(3)])
  have "sorted_wrt (<) (insert_at d k (sk S i))"
  proof (rule sorted_insert_at [OF keys_okD(1) [OF K]])
    show "d \<le> length (sk S i)" unfolding d by (rule lower_bound_le)
    show "sk S i ! a < k" if "a < d" for a using lower_bound_before that d by blast
    show "k < sk S i ! a" if "d \<le> a" "a < length (sk S i)" for a
    proof -
      have "sk S i ! d \<le> sk S i ! a"
        using sorted_wrt_nth_less [OF keys_okD(1) [OF K], of d a] that
        by (cases "d = a") (auto intro: less_imp_le)
      moreover have "\<not> sk S i ! d < k" using lower_bound_at [of "\<lambda>x. x < k" "sk S i"] d that by simp
      moreover have "sk S i ! a \<noteq> k" using assms(6) that by auto
      ultimately show ?thesis by auto
    qed
  qed
  then have "keys_ok n {i} (leaf_shape S i d k) i"
    using K assms(2,4,5) by (auto simp: keys_ok_def leaf_shape_def in_rng_def)
  moreover have "keys_ok n {i} (leaf_shape S i d k) x" if "x \<in> A" "x \<noteq> i" for x
    using si(7) [OF that(1)] that(2)
    by (auto simp: keys_ok_def leaf_shape_def in_rng_def split: if_splits)
  moreover have "link_ok A (leaf_shape S i d k) x j" if "x \<in> A" "j < length (sc S x)" for x j
  proof -
    have "x \<noteq> i" using that keys_okD(4) [OF K assms(4)] by auto
    then show ?thesis using si(8) [OF that]
      by (auto simp: link_ok_def Let_def leaf_shape_def child_lo_def child_hi_def)
  qed
  moreover have "par_ok A r (leaf_shape S i d k) x = par_ok A r S x"
    "next_ok A (leaf_shape S i d k) x = next_ok A S x" "slvl (leaf_shape S i d k) = slvl S"
    "sc (leaf_shape S i d k) = sc S" "spar (leaf_shape S i d k) = spar S"
    "slo (leaf_shape S i d k) = slo S" "shi (leaf_shape S i d k) = shi S" for x
    by (simp_all add: par_ok_def next_ok_def leaf_shape_def)
  ultimately show ?thesis
    unfolding shape_inv_def using si by metis
qed

end
