(* ===== verification/BTree_Correct.thy ===== *)
theory BTree_Correct
  imports BTree_Shape
begin

text \<open>
  The node array against the abstract view: every operation of \<open>BTree\<close> acts on the array as
  the corresponding operation of \<open>BTree_Shape\<close> acts on the view. From this follow the
  correctness theorems of the tree: insertion succeeds, keeps the invariant and adds exactly
  the new pair; the search ends in the one leaf whose interval holds the key.
\<close>

section \<open>Writes through node pointers\<close>

lemma upd_node_simps [simp]:
  "length (cache (upd_node i f t)) = length (cache t)" "cache_pos (upd_node i f t) = cache_pos t"
  "m_root (upd_node i f t) = m_root t" "cache_size (upd_node i f t) = cache_size t"
  by (simp_all add: upd_node_def)

lemma cache_upd_node:
  "i < length (cache t) \<Longrightarrow>
   cache (upd_node i f t) ! x = (if x = i then f (cache t ! i) else cache t ! x)"
  by (simp add: upd_node_def nth_list_update)

lemma upd_node_upd_node:
  "i < length (cache t) \<Longrightarrow> upd_node i f (upd_node i g t) = upd_node i (\<lambda>nd. f (g nd)) t"
  by (simp add: upd_node_def)

lemma copy_vals_spec:
  assumes "node \<noteq> C" and "C < length (cache t)" and "p + length is \<le> length (vals (cache t ! C))"
  shows "copy_vals is p node C t = upd_node C (\<lambda>c. c\<lparr>
    vals := take p (vals c) @ map (\<lambda>i. vals (cache t ! node) ! i) is @ drop (p + length is) (vals c),
    vals_size := vals_size c + length is\<rparr>) t"
  using assms
proof (induction "is" arbitrary: p t)
  case Nil
  then show ?case by (simp add: upd_node_def)
next
  case (Cons i "is")
  let ?v = "vals (cache t ! node) ! i"
  let ?t = "upd_node C (\<lambda>c. c\<lparr>vals := (vals c)[p := ?v], vals_size := vals_size c + 1\<rparr>) t"
  have node: "cache ?t ! node = cache t ! node" and C: "length (vals (cache ?t ! C)) = length (vals (cache t ! C))"
    using Cons.prems by (simp_all add: cache_upd_node)
  have upd: "take (p + 1) ((vals (cache t ! C))[p := ?v]) = take p (vals (cache t ! C)) @ [?v]"
    using Cons.prems by (simp add: take_Suc_conv_app_nth)
  have "copy_vals (i # is) p node C t = copy_vals is (p + 1) node C ?t" by simp
  also have "\<dots> = upd_node C (\<lambda>c. c\<lparr>
      vals := take (p + 1) (vals c) @ map (\<lambda>i. vals (cache t ! node) ! i) is @ drop (p + 1 + length is) (vals c),
      vals_size := vals_size c + length is\<rparr>) ?t"
    using Cons.IH [of ?t "p + 1"] Cons.prems node C by simp
  also have "\<dots> = upd_node C (\<lambda>c. c\<lparr>
      vals := take p (vals c) @ map (\<lambda>i. vals (cache t ! node) ! i) (i # is) @ drop (p + length (i # is)) (vals c),
      vals_size := vals_size c + length (i # is)\<rparr>) t"
    using Cons.prems upd
    by (simp add: upd_node_upd_node) (simp add: upd_node_def)
  finally show ?case .
qed

lemma move_childs_spec:
  assumes "node \<noteq> C" and "C < length (cache t)" and "node_id (cache t ! C) = C"
    and "p + length is \<le> length (childs (cache t ! C))"
    and "\<forall>i \<in> set is. i < length (childs (cache t ! node)) \<and>
      childs (cache t ! node) ! i < length (cache t) \<and> childs (cache t ! node) ! i \<notin> {node, C}"
  shows "\<exists>cs. move_childs is p node C t = Inr (t\<lparr>cache := cs\<rparr>) \<and> length cs = length (cache t) \<and>
    (\<forall>x < length (cache t). cs ! x =
      (if x = C then (cache t ! C)\<lparr>childs := take p (childs (cache t ! C)) @
            map (\<lambda>i. childs (cache t ! node) ! i) is @ drop (p + length is) (childs (cache t ! C))\<rparr>
       else if x \<in> (\<lambda>i. childs (cache t ! node) ! i) ` set is then (cache t ! x)\<lparr>parent := C\<rparr>
       else cache t ! x))"
  using assms
proof (induction "is" arbitrary: p t)
  case Nil
  then show ?case by (auto intro!: exI [of _ "cache t"])
next
  case (Cons i "is")
  let ?ch = "childs (cache t ! node) ! i"
  let ?t = "upd_node C (\<lambda>c. c\<lparr>childs := (childs c)[p := ?ch]\<rparr>)
    (upd_node ?ch (\<lambda>ch. ch\<lparr>parent := node_id (cache t ! C)\<rparr>) t)"
  have ch: "?ch < length (cache t)" "?ch \<noteq> node" "?ch \<noteq> C" "i < length (childs (cache t ! node))"
    using Cons.prems(5) by auto
  have look: "cache ?t ! x = (if x = C then (cache t ! C)\<lparr>childs := (childs (cache t ! C))[p := ?ch]\<rparr>
      else if x = ?ch then (cache t ! ?ch)\<lparr>parent := C\<rparr> else cache t ! x)" if "x < length (cache t)" for x
    using that ch Cons.prems(1-3) by (simp add: cache_upd_node)
  have node: "childs (cache ?t ! node) = childs (cache t ! node)"
    using look [of node] ch Cons.prems(1) by (cases "node < length (cache t)") (auto simp: upd_node_def)
  have step: "move_childs (i # is) p node C t = move_childs is (p + 1) node C ?t"
    using ch by (simp add: getNode_def)
  have "\<exists>cs. move_childs is (p + 1) node C ?t = Inr (?t\<lparr>cache := cs\<rparr>) \<and> length cs = length (cache ?t) \<and>
    (\<forall>x < length (cache ?t). cs ! x =
      (if x = C then (cache ?t ! C)\<lparr>childs := take (p + 1) (childs (cache ?t ! C)) @
            map (\<lambda>i. childs (cache ?t ! node) ! i) is @ drop (p + 1 + length is) (childs (cache ?t ! C))\<rparr>
       else if x \<in> (\<lambda>i. childs (cache ?t ! node) ! i) ` set is then (cache ?t ! x)\<lparr>parent := C\<rparr>
       else cache ?t ! x))"
    by (rule Cons.IH) (use Cons.prems node look [of C] in auto)
  then obtain cs where cs: "move_childs is (p + 1) node C ?t = Inr (?t\<lparr>cache := cs\<rparr>)"
    "length cs = length (cache t)"
    "\<And>x. x < length (cache t) \<Longrightarrow> cs ! x =
      (if x = C then (cache ?t ! C)\<lparr>childs := take (p + 1) (childs (cache ?t ! C)) @
            map (\<lambda>i. childs (cache t ! node) ! i) is @ drop (p + 1 + length is) (childs (cache ?t ! C))\<rparr>
       else if x \<in> (\<lambda>i. childs (cache t ! node) ! i) ` set is then (cache ?t ! x)\<lparr>parent := C\<rparr>
       else cache ?t ! x)"
    unfolding node by auto
  have "?t\<lparr>cache := cs\<rparr> = t\<lparr>cache := cs\<rparr>" by (simp add: upd_node_def)
  moreover have "take (p + 1) ((childs (cache t ! C))[p := ?ch]) = take p (childs (cache t ! C)) @ [?ch]"
    using Cons.prems(4) by (simp add: take_Suc_conv_app_nth)
  ultimately show ?case
    using cs step look ch Cons.prems(1,2,4)
    by (intro exI [of _ cs]) (auto simp: image_iff)
qed

lemma clear_childs_spec:
  "node < length (cache t) \<Longrightarrow>
   clear_childs is node t = upd_node node (\<lambda>nd. nd\<lparr>childs := fold (\<lambda>i a. a[i := 0]) is (childs nd)\<rparr>) t"
proof (induction "is" arbitrary: t)
  case Nil
  then show ?case by (simp add: upd_node_def)
next
  case (Cons i "is")
  then show ?case by (simp add: upd_node_upd_node)
qed

lemma fold_clear:
  "length (fold (\<lambda>i a. a[i := (0::nat)]) is xs) = length xs"
  "\<forall>i \<in> set is. m \<le> i \<Longrightarrow> take m (fold (\<lambda>i a. a[i := (0::nat)]) is xs) = take m xs"
  by (induction "is" arbitrary: xs) auto

section \<open>The array view and the concrete invariant\<close>

definition view_ok :: "'k shape \<Rightarrow> nat \<Rightarrow> ('k, 'v) node \<Rightarrow> bool" where
  "view_ok S i nd \<longleftrightarrow> sk S i = map fst (kvs nd) \<and> sc S i = chs nd \<and> slf S i = is_leaf nd \<and>
     spar S i = parent nd \<and> snx S i = nxt nd"

definition node_ok :: "nat \<Rightarrow> nat \<Rightarrow> ('k, 'v) node \<Rightarrow> bool" where
  "node_ok n i nd \<longleftrightarrow> node_id nd = i \<and> length (vals nd) = 2 * n \<and> length (childs nd) = 2 * n \<and>
     vals_size nd \<le> 2 * n \<and> childs_size nd \<le> 2 * n"

text \<open>A cell of the array that no node occupies yet is zeroed.\<close>

definition blank :: "nat \<Rightarrow> ('k, 'v) node \<Rightarrow> bool" where
  "blank n nd \<longleftrightarrow> length (vals nd) = 2 * n \<and> length (childs nd) = 2 * n \<and> vals_size nd = 0 \<and>
     childs_size nd = 0 \<and> \<not> is_leaf nd \<and> parent nd = 0 \<and> nxt nd = 0"

definition used :: "('k, 'v) btree \<Rightarrow> nat set" where
  "used t = {1..<cache_pos t}"

definition btree_inv :: "nat \<Rightarrow> nat set \<Rightarrow> ('k::linorder, 'v) btree \<Rightarrow> 'k shape \<Rightarrow> bool" where
  "btree_inv n ov t S \<longleftrightarrow> 2 \<le> n \<and> shape_inv n ov (used t) (m_root t) S \<and>
     cache_pos t \<le> length (cache t) \<and> length (cache t) \<le> Suc (cache_size t) \<and>
     (\<forall>i \<in> used t. node_ok n i (cache t ! i) \<and> view_ok S i (cache t ! i)) \<and>
     (\<forall>i. cache_pos t \<le> i \<and> i < length (cache t) \<longrightarrow> blank n (cache t ! i))"

lemma btree_invD:
  assumes "btree_inv n ov t S"
  shows "2 \<le> n" "shape_inv n ov (used t) (m_root t) S" "cache_pos t \<le> length (cache t)"
    "length (cache t) \<le> Suc (cache_size t)"
    "\<And>i. i \<in> used t \<Longrightarrow> node_ok n i (cache t ! i)" "\<And>i. i \<in> used t \<Longrightarrow> view_ok S i (cache t ! i)"
    "\<And>i. i \<in> used t \<Longrightarrow> i < length (cache t)"
    "\<And>i. cache_pos t \<le> i \<Longrightarrow> i < length (cache t) \<Longrightarrow> blank n (cache t ! i)" "1 < cache_pos t"
  using assms shape_invD(3) [of n ov "used t" "m_root t" S]
  by (auto simp: btree_inv_def used_def)

lemma length_kvs [simp]: "node_ok n i nd \<Longrightarrow> length (kvs nd) = vals_size nd"
  by (simp add: node_ok_def kvs_def)

lemma length_chs [simp]: "node_ok n i nd \<Longrightarrow> length (chs nd) = childs_size nd"
  by (simp add: node_ok_def chs_def)

section \<open>The first half of a split\<close>

lemma map_nth_upt: "a \<le> b \<Longrightarrow> b \<le> length xs \<Longrightarrow> map ((!) xs) [a..<b] = take (b - a) (drop a xs)"
  by (rule nth_equalityI) (auto simp: min_def)

lemma split_off_vals:
  assumes "node \<noteq> C" "node < length (cache t)" "C < length (cache t)"
    and "node_ok n node (cache t ! node)" and "blank n (cache t ! C)" "node_id (cache t ! C) = C"
    and "nd = cache t ! node" and "h = vals_size nd div 2" and "vb = (if is_leaf nd then h else h + 1)"
    and "vb \<le> vals_size nd"
  obtains t5 where "t5 = t\<lparr>cache := cache t5\<rparr>" "length (cache t5) = length (cache t)"
    "cache t5 ! node = nd\<lparr>vals_size := h, nxt := C\<rparr>"
    "kvs (cache t5 ! C) = drop vb (kvs nd)"
    "\<exists>v. cache t5 ! C = (cache t ! C)\<lparr>is_leaf := is_leaf nd, vals := v, vals_size := vals_size nd - vb,
       nxt := nxt nd\<rparr> \<and> length v = 2 * n"
    "\<And>x. x \<noteq> node \<Longrightarrow> x \<noteq> C \<Longrightarrow> cache t5 ! x = cache t ! x"
    "split_off t node C = (if childs_size nd > 0
      then bind_r (move_childs [childs_size nd div 2..<childs_size nd] 0 node C
             (upd_node C (\<lambda>c. c\<lparr>childs_size := childs_size nd div 2\<rparr>) t5)) (\<lambda>t7.
           Inr (upd_node node (\<lambda>nd'. nd'\<lparr>childs_size := childs_size nd div 2\<rparr>)
                  (clear_childs [childs_size nd div 2..<childs_size nd] node t7)))
      else Inr t5)"
proof -
  define t1 where "t1 = upd_node C (\<lambda>c. c\<lparr>is_leaf := is_leaf (cache t ! node)\<rparr>) t"
  define v where "v = take 0 (vals (cache t ! C)) @ map ((!) (vals nd)) [vb..<vals_size nd] @
    drop (0 + (vals_size nd - vb)) (vals (cache t ! C))"
  define t2 where "t2 = copy_vals [vb..<vals_size nd] 0 node C t1"
  define t3 where "t3 = upd_node node (\<lambda>nd. nd\<lparr>vals_size := h\<rparr>) t2"
  define t4 where "t4 = upd_node node (\<lambda>nd. nd\<lparr>nxt := node_id (cache t3 ! C)\<rparr>) t3"
  define t5 where "t5 = upd_node C (\<lambda>c. c\<lparr>nxt := nxt (cache t3 ! node)\<rparr>) t4"
  have ok: "vals_size nd \<le> 2 * n" "length (vals nd) = 2 * n" "length (vals (cache t ! C)) = 2 * n"
    "vals_size (cache t ! C) = 0"
    using assms(4,5,7) by (simp_all add: node_ok_def blank_def)
  have t1: "cache t1 ! node = nd" "is_leaf (cache t1 ! C) = is_leaf nd" "length (vals (cache t1 ! C)) = 2 * n"
    "vals_size (cache t1 ! C) = 0" "vals (cache t1 ! C) = vals (cache t ! C)"
    using assms(1-3,7) ok by (simp_all add: t1_def cache_upd_node)
  have t2: "t2 = upd_node C (\<lambda>c. c\<lparr>vals := take 0 (vals c) @ map ((!) (vals nd)) [vb..<vals_size nd] @
      drop (0 + (vals_size nd - vb)) (vals c), vals_size := vals_size c + (vals_size nd - vb)\<rparr>) t1"
    unfolding t2_def by (subst copy_vals_spec) (use assms(1,3) ok t1 in \<open>simp_all add: t1_def\<close>)
  have c5: "cache t5 ! node = nd\<lparr>vals_size := h, nxt := C\<rparr>"
    "cache t5 ! C = (cache t ! C)\<lparr>is_leaf := is_leaf nd, vals := v, vals_size := vals_size nd - vb, nxt := nxt nd\<rparr>"
    "\<And>x. x \<noteq> node \<Longrightarrow> x \<noteq> C \<Longrightarrow> cache t5 ! x = cache t ! x"
    using assms(1-3,6,7) ok(4)
    by (simp_all add: t5_def t4_def t3_def t2 t1_def cache_upd_node v_def)
  have len: "length v = 2 * n" using ok assms(10) by (simp add: v_def)
  have "kvs (cache t5 ! C) = drop vb (kvs nd)"
    using ok assms(10) by (simp add: c5 kvs_def v_def map_nth_upt drop_take)
  moreover have "length (cache t5) = length (cache t)" "t5 = t\<lparr>cache := cache t5\<rparr>"
    by (simp_all add: t5_def t4_def t3_def t2 t1_def upd_node_def)
  moreover have "split_off t node C = (if childs_size nd > 0
      then bind_r (move_childs [childs_size nd div 2..<childs_size nd] 0 node C
             (upd_node C (\<lambda>c. c\<lparr>childs_size := childs_size nd div 2\<rparr>) t5)) (\<lambda>t7.
           Inr (upd_node node (\<lambda>nd'. nd'\<lparr>childs_size := childs_size nd div 2\<rparr>)
                  (clear_childs [childs_size nd div 2..<childs_size nd] node t7)))
      else Inr t5)"
  proof -
    have "childs_size (cache t5 ! node) = childs_size nd" by (simp add: c5)
    then show ?thesis
      unfolding split_off_def Let_def t1_def [symmetric] t1 assms(8,9) [symmetric]
        t2_def [symmetric] t3_def [symmetric] t4_def [symmetric] t5_def [symmetric]
      by simp
  qed
  ultimately show thesis using that c5 len by blast
qed

definition nodes_ok :: "nat \<Rightarrow> nat set \<Rightarrow> 'k shape \<Rightarrow> ('k, 'v) btree \<Rightarrow> bool" where
  "nodes_ok n A S t \<longleftrightarrow> (\<forall>x \<in> A. x < length (cache t) \<and> node_ok n x (cache t ! x) \<and> view_ok S x (cache t ! x))"

lemma nodes_okD:
  assumes "nodes_ok n A S t" and "x \<in> A"
  shows "x < length (cache t)" "node_ok n x (cache t ! x)" "view_ok S x (cache t ! x)"
  using assms by (auto simp: nodes_ok_def)

text \<open>The pairs stored in a set of nodes (of leaves, for the contents of the tree).\<close>

definition pairs_of :: "nat set \<Rightarrow> ('k, 'v) btree \<Rightarrow> ('k \<times> 'v) set" where
  "pairs_of A t = (\<Union>i \<in> {i \<in> A. is_leaf (cache t ! i)}. set (kvs (cache t ! i)))"

definition contents :: "('k, 'v) btree \<Rightarrow> ('k \<times> 'v) set" where
  "contents t = pairs_of (used t) t"

lemma pairs_of_insert:
  "pairs_of (insert x A) t = pairs_of A t \<union> (if is_leaf (cache t ! x) then set (kvs (cache t ! x)) else {})"
  by (auto simp: pairs_of_def)

lemma pairs_of_remove:
  "x \<in> A \<Longrightarrow> pairs_of A t = pairs_of (A - {x}) t \<union> (if is_leaf (cache t ! x) then set (kvs (cache t ! x)) else {})"
  by (metis insert_Diff pairs_of_insert)

lemma pairs_of_cong:
  "(\<And>x. x \<in> A \<Longrightarrow> kvs (cache t ! x) = kvs (cache t' ! x) \<and> is_leaf (cache t ! x) = is_leaf (cache t' ! x)) \<Longrightarrow>
   pairs_of A t = pairs_of A t'"
  by (auto simp: pairs_of_def)

text \<open>
  What the first half of a split leaves in the array: the lower part of \<open>node\<close> in place, its
  upper part in \<open>C\<close>, and \<open>C\<close> as the parent of the children that moved.
\<close>

definition halves :: "nat \<Rightarrow> 'k shape \<Rightarrow> nat \<Rightarrow> nat \<Rightarrow> ('k, 'v) btree \<Rightarrow> ('k, 'v) btree \<Rightarrow> bool" where
  "halves n S node C t t2 \<longleftrightarrow> t2 = t\<lparr>cache := cache t2\<rparr> \<and> length (cache t2) = length (cache t) \<and>
     (let nd = cache t ! node; lo = cache t2 ! node; hi = cache t2 ! C in
       node_ok n node lo \<and> kvs lo = take (half S node) (kvs nd) \<and>
       chs lo = take (half_childs S node) (sc S node) \<and> is_leaf lo = is_leaf nd \<and>
       parent lo = parent nd \<and> nxt lo = C \<and>
       node_ok n C hi \<and> kvs hi = drop (right_from S node) (kvs nd) \<and>
       chs hi = drop (half_childs S node) (sc S node) \<and> is_leaf hi = is_leaf nd \<and>
       parent hi = 0 \<and> nxt hi = nxt nd) \<and>
     (\<forall>x < length (cache t). x \<noteq> node \<longrightarrow> x \<noteq> C \<longrightarrow> cache t2 ! x =
       (if x \<in> set (drop (half_childs S node) (sc S node)) then (cache t ! x)\<lparr>parent := C\<rparr>
        else cache t ! x))"

lemma halvesD:
  assumes "halves n S node C t t2"
  shows "t2 = t\<lparr>cache := cache t2\<rparr>" "length (cache t2) = length (cache t)"
    "node_ok n node (cache t2 ! node)" "kvs (cache t2 ! node) = take (half S node) (kvs (cache t ! node))"
    "chs (cache t2 ! node) = take (half_childs S node) (sc S node)"
    "is_leaf (cache t2 ! node) = is_leaf (cache t ! node)"
    "parent (cache t2 ! node) = parent (cache t ! node)" "nxt (cache t2 ! node) = C"
    "node_ok n C (cache t2 ! C)" "kvs (cache t2 ! C) = drop (right_from S node) (kvs (cache t ! node))"
    "chs (cache t2 ! C) = drop (half_childs S node) (sc S node)"
    "is_leaf (cache t2 ! C) = is_leaf (cache t ! node)"
    "parent (cache t2 ! C) = 0" "nxt (cache t2 ! C) = nxt (cache t ! node)"
    "\<And>x. x < length (cache t) \<Longrightarrow> x \<noteq> node \<Longrightarrow> x \<noteq> C \<Longrightarrow> cache t2 ! x =
       (if x \<in> set (drop (half_childs S node) (sc S node)) then (cache t ! x)\<lparr>parent := C\<rparr>
        else cache t ! x)"
  using assms unfolding halves_def Let_def by simp_all

lemma moved_childs:
  assumes cs: "can_split n A r S node C"
  shows "set (drop (half_childs S node) (sc S node)) \<subseteq> A" "C \<notin> set (sc S node)" "node \<notin> set (sc S node)"
proof -
  note c = can_splitD [OF cs]
  have kid: "x \<in> A \<and> x \<noteq> node" if "x \<in> set (sc S node)" for x
    using that shape_invD(8) [OF c(2,3)] by (fastforce simp: link_ok_def Let_def in_set_conv_nth)
  then show "set (drop (half_childs S node) (sc S node)) \<subseteq> A" using set_drop_subset by fast
  show "C \<notin> set (sc S node)" "node \<notin> set (sc S node)" using kid c(4) by auto
qed

lemma halves_nodes_ok:
  assumes cs: "can_split n A r S node C" and ok: "nodes_ok n A S t" and C: "C < length (cache t)"
    and hv: "halves n S node C t t2"
  shows "nodes_ok n (insert C A) (split_shape S node C) t2"
  unfolding nodes_ok_def
proof
  note c = can_splitD [OF cs] and m = moved_childs [OF cs] and H = halvesD [OF hv]
  note nd = nodes_okD [OF ok c(3)]
  have out: "node \<notin> set (drop (half_childs S node) (sc S node))" "C \<notin> set (drop (half_childs S node) (sc S node))"
    using m(2,3) by (auto dest: in_set_dropD)
  fix x assume "x \<in> insert C A"
  then consider "x = node" | "x = C" | "x \<in> A" "x \<noteq> node" "x \<noteq> C" by auto
  then show "x < length (cache t2) \<and> node_ok n x (cache t2 ! x) \<and> view_ok (split_shape S node C) x (cache t2 ! x)"
  proof cases
    case 1
    have "view_ok (split_shape S node C) node (cache t2 ! node)"
      using nd(3) c(6) out H(4-8) by (simp add: view_ok_def split_shape_def take_map)
    then show ?thesis using 1 nd(1) H(2,3) by simp
  next
    case 2
    have "view_ok (split_shape S node C) C (cache t2 ! C)"
      using nd(3) H(10-14) by (simp add: view_ok_def split_shape_def drop_map)
    then show ?thesis using 2 C H(2,9) by simp
  next
    case 3
    then show ?thesis using nodes_okD [OF ok 3(1)] H(2) H(15) [of x]
      by (auto simp: view_ok_def node_ok_def split_shape_def kvs_def chs_def)
  qed
qed

lemma halves_pairs:
  assumes cs: "can_split n A r S node C" and ok: "nodes_ok n A S t" and hv: "halves n S node C t t2"
  shows "pairs_of (insert C A) t2 = pairs_of A t"
proof -
  note c = can_splitD [OF cs] and H = halvesD [OF hv]
  let ?nd = "cache t ! node"
  have lf: "slf S node = is_leaf ?nd" using nodes_okD(3) [OF ok c(3)] by (simp add: view_ok_def)
  have "set (take (half S node) (kvs ?nd)) \<union> set (drop (right_from S node) (kvs ?nd)) = set (kvs ?nd)"
    if "is_leaf ?nd"
    using that lf by (simp add: right_from_def flip: set_append)
  moreover have "pairs_of (A - {node}) t2 = pairs_of (A - {node}) t"
  proof (rule pairs_of_cong)
    fix x assume "x \<in> A - {node}"
    then show "kvs (cache t2 ! x) = kvs (cache t ! x) \<and> is_leaf (cache t2 ! x) = is_leaf (cache t ! x)"
      using H(15) [of x] nodes_okD(1) [OF ok, of x] c(4) by (cases "x = C") (auto simp: kvs_def)
  qed
  moreover have "pairs_of (insert C A) t2 = pairs_of (A - {node}) t2 \<union>
      (if is_leaf ?nd then set (take (half S node) (kvs ?nd)) \<union> set (drop (right_from S node) (kvs ?nd)) else {})"
    using H(4,6,10,12) pairs_of_remove [OF c(3), of t2] by (auto simp: pairs_of_insert)
  moreover have "pairs_of A t = pairs_of (A - {node}) t \<union> (if is_leaf ?nd then set (kvs ?nd) else {})"
    by (rule pairs_of_remove [OF c(3)])
  ultimately show ?thesis by simp
qed

text \<open>The loop over the values, then the one over the children of an inner node.\<close>

lemma split_off_vals_halves:
  assumes cs: "can_split n A r S node C" and ok: "nodes_ok n A S t"
    and C: "C < length (cache t)" "blank n (cache t ! C)" "node_id (cache t ! C) = C"
    and nd: "nd = cache t ! node"
  obtains t5 v where "t5 = t\<lparr>cache := cache t5\<rparr>" "length (cache t5) = length (cache t)"
    "cache t5 ! node = nd\<lparr>vals_size := half S node, nxt := C\<rparr>"
    "kvs (cache t5 ! node) = take (half S node) (kvs nd)"
    "kvs (cache t5 ! C) = drop (right_from S node) (kvs nd)"
    "cache t5 ! C = (cache t ! C)\<lparr>is_leaf := is_leaf nd, vals := v,
       vals_size := vals_size nd - right_from S node, nxt := nxt nd\<rparr>" "length v = 2 * n"
    "\<And>x. x \<noteq> node \<Longrightarrow> x \<noteq> C \<Longrightarrow> cache t5 ! x = cache t ! x"
    "split_off t node C = (if slf S node then Inr t5
      else bind_r (move_childs [n..<2 * n] 0 node C (upd_node C (\<lambda>c. c\<lparr>childs_size := n\<rparr>) t5)) (\<lambda>t7.
           Inr (upd_node node (\<lambda>nd'. nd'\<lparr>childs_size := n\<rparr>) (clear_childs [n..<2 * n] node t7))))"
proof -
  note c = can_splitD [OF cs] and z = split_sizes [OF cs]
  note ndok = nodes_okD [OF ok c(3)]
  have sz: "vals_size nd = length (sk S node)" "childs_size nd = length (sc S node)" "is_leaf nd = slf S node"
    using ndok unfolding nd by (simp_all add: view_ok_def)
  have h: "half S node = vals_size nd div 2"
    "right_from S node = (if is_leaf nd then half S node else half S node + 1)"
    "right_from S node \<le> vals_size nd"
    using z sz c(1) by (auto simp: half_def right_from_def split: if_splits)
  have kv: "kvs (nd\<lparr>vals_size := half S node, nxt := C\<rparr>) = take (half S node) (kvs nd)"
    using h(1) by (simp add: kvs_def min_def)
  have ch: "childs_size nd = (if slf S node then 0 else 2 * n)" using sz(2) z(6) by simp
  show thesis
    by (rule split_off_vals [OF c(6) [symmetric] ndok(1) C(1) ndok(2) C(2,3) nd h])
      (use that kv ch c(1) in \<open>auto split: if_splits\<close>)
qed

lemma split_off_leaf:
  assumes cs: "can_split n A r S node C" and ok: "nodes_ok n A S t"
    and C: "C < length (cache t)" "blank n (cache t ! C)" "node_id (cache t ! C) = C" and lf: "slf S node"
  shows "\<exists>t2. split_off t node C = Inr t2 \<and> halves n S node C t t2"
proof -
  note c = can_splitD [OF cs] and z = split_sizes [OF cs]
  note nd = nodes_okD [OF ok c(3)]
  have cz: "childs_size (cache t ! node) = 0" "half S node \<le> 2 * n"
    using nd(2,3) z(1,6) lf by (auto simp: view_ok_def)
  have "sc S node = []" using z(6) lf by simp
  note cz = cz this
  show ?thesis
    by (rule split_off_vals_halves [OF cs ok C refl])
      (use nd(2) cz C(2,3) lf in \<open>auto simp: halves_def Let_def node_ok_def blank_def chs_def\<close>)
qed

lemma move_upper:
  assumes ne: "node \<noteq> C" and i: "node < length (cache t)" "C < length (cache t)"
    and C: "node_id (cache t ! C) = C" "length (childs (cache t ! C)) = 2 * n"
    and nd: "length (childs (cache t ! node)) = 2 * n"
    and kids: "\<And>x. x \<in> set (drop n (childs (cache t ! node))) \<Longrightarrow> x < length (cache t) \<and> x \<noteq> node \<and> x \<noteq> C"
  obtains t2 z where "bind_r (move_childs [n..<2 * n] 0 node C (upd_node C (\<lambda>c. c\<lparr>childs_size := n\<rparr>) t)) (\<lambda>t7.
       Inr (upd_node node (\<lambda>nd'. nd'\<lparr>childs_size := n\<rparr>) (clear_childs [n..<2 * n] node t7))) = Inr t2"
    "t2 = t\<lparr>cache := cache t2\<rparr>" "length (cache t2) = length (cache t)"
    "cache t2 ! node = (cache t ! node)\<lparr>childs := z, childs_size := n\<rparr>"
    "take n z = take n (childs (cache t ! node))" "length z = 2 * n"
    "cache t2 ! C = (cache t ! C)\<lparr>childs_size := n,
       childs := drop n (childs (cache t ! node)) @ drop n (childs (cache t ! C))\<rparr>"
    "\<And>x. x < length (cache t) \<Longrightarrow> x \<noteq> node \<Longrightarrow> x \<noteq> C \<Longrightarrow> cache t2 ! x =
       (if x \<in> set (drop n (childs (cache t ! node))) then (cache t ! x)\<lparr>parent := C\<rparr> else cache t ! x)"
proof -
  let ?ch = "childs (cache t ! node)"
  define t6 where "t6 = upd_node C (\<lambda>c. c\<lparr>childs_size := n\<rparr>) t"
  define z where "z = fold (\<lambda>i a. a[i := (0::nat)]) [n..<2 * n] ?ch"
  have c6: "length (cache t6) = length (cache t)" "cache t6 ! node = cache t ! node"
    "cache t6 ! C = (cache t ! C)\<lparr>childs_size := n\<rparr>" "\<And>x. x \<noteq> C \<Longrightarrow> cache t6 ! x = cache t ! x"
    using i ne by (simp_all add: t6_def cache_upd_node)
  have upper: "map ((!) ?ch) [n..<2 * n] = drop n ?ch" "(!) ?ch ` set [n..<2 * n] = set (drop n ?ch)"
    using nd by (simp add: map_nth_upt, subst set_map [symmetric], simp add: map_nth_upt)
  have kid: "?ch ! j < length (cache t) \<and> ?ch ! j \<noteq> node \<and> ?ch ! j \<noteq> C" if "j \<in> set [n..<2 * n]" for j
    using kids [of "?ch ! j"] that upper(2) by blast
  have "\<exists>cs. move_childs [n..<2 * n] 0 node C t6 = Inr (t6\<lparr>cache := cs\<rparr>) \<and> length cs = length (cache t6) \<and>
    (\<forall>x < length (cache t6). cs ! x =
      (if x = C then (cache t6 ! C)\<lparr>childs := take 0 (childs (cache t6 ! C)) @
            map ((!) (childs (cache t6 ! node))) [n..<2 * n] @ drop (0 + length [n..<2 * n]) (childs (cache t6 ! C))\<rparr>
       else if x \<in> (!) (childs (cache t6 ! node)) ` set [n..<2 * n] then (cache t6 ! x)\<lparr>parent := C\<rparr>
       else cache t6 ! x))"
    by (rule move_childs_spec [OF ne]) (use i(2) C nd kid in \<open>simp_all add: c6\<close>)
  then obtain cs where cs: "move_childs [n..<2 * n] 0 node C t6 = Inr (t6\<lparr>cache := cs\<rparr>)"
    "length cs = length (cache t)" "\<And>x. x < length (cache t) \<Longrightarrow> cs ! x =
      (if x = C then (cache t6 ! C)\<lparr>childs := drop n ?ch @ drop n (childs (cache t ! C))\<rparr>
       else if x \<in> set (drop n ?ch) then (cache t6 ! x)\<lparr>parent := C\<rparr> else cache t6 ! x)"
    unfolding c6(1,2) upper by (auto simp: c6(3))
  define t2 where "t2 = upd_node node (\<lambda>nd'. nd'\<lparr>childs_size := n\<rparr>) (clear_childs [n..<2 * n] node (t6\<lparr>cache := cs\<rparr>))"
  have t2: "t2 = upd_node node (\<lambda>nd'. nd'\<lparr>childs := fold (\<lambda>i a. a[i := 0]) [n..<2 * n] (childs nd'), childs_size := n\<rparr>)
      (t6\<lparr>cache := cs\<rparr>)"
    using i(1) cs(2) by (simp add: t2_def clear_childs_spec upd_node_upd_node)
  have out: "node \<notin> set (drop n ?ch)" using kids by blast
  show thesis
  proof
    show "t2 = t\<lparr>cache := cache t2\<rparr>" by (simp add: t2 t6_def upd_node_def)
    show "cache t2 ! node = (cache t ! node)\<lparr>childs := z, childs_size := n\<rparr>"
      using i(1) ne out cs(2,3) by (simp add: t2 cache_upd_node c6 z_def)
    show "take n z = take n ?ch" "length z = 2 * n"
      using nd fold_clear(2) [of "[n..<2 * n]" n ?ch] by (simp_all add: z_def fold_clear(1))
  qed (use i ne out cs in \<open>simp_all add: t2 t2_def [symmetric] t6_def [symmetric] cache_upd_node c6\<close>)
qed

lemma split_off_inner:
  assumes cs: "can_split n A r S node C" and ok: "nodes_ok n A S t"
    and C: "C < length (cache t)" "blank n (cache t ! C)" "node_id (cache t ! C) = C" and lf: "\<not> slf S node"
  shows "\<exists>t2. split_off t node C = Inr t2 \<and> halves n S node C t t2"
proof -
  note c = can_splitD [OF cs] and z = split_sizes [OF cs] and m = moved_childs [OF cs]
  define nd where "nd = cache t ! node"
  have nd: "node_ok n node nd" "view_ok S node nd" "node < length (cache t)"
    using nodes_okD [OF ok c(3)] by (simp_all add: nd_def)
  have cz: "half_childs S node = n" "sc S node = childs nd" "length (childs nd) = 2 * n" "half S node \<le> 2 * n"
    using nd(1,2) z(1,5,6) lf by (simp_all add: view_ok_def chs_def node_ok_def)
  obtain t5 v where t5: "t5 = t\<lparr>cache := cache t5\<rparr>" "length (cache t5) = length (cache t)"
    "cache t5 ! node = nd\<lparr>vals_size := half S node, nxt := C\<rparr>"
    "kvs (cache t5 ! node) = take (half S node) (kvs nd)"
    "kvs (cache t5 ! C) = drop (right_from S node) (kvs nd)"
    "cache t5 ! C = (cache t ! C)\<lparr>is_leaf := is_leaf nd, vals := v,
       vals_size := vals_size nd - right_from S node, nxt := nxt nd\<rparr>" "length v = 2 * n"
    "\<And>x. x \<noteq> node \<Longrightarrow> x \<noteq> C \<Longrightarrow> cache t5 ! x = cache t ! x"
    "split_off t node C = bind_r (move_childs [n..<2 * n] 0 node C (upd_node C (\<lambda>c. c\<lparr>childs_size := n\<rparr>) t5)) (\<lambda>t7.
       Inr (upd_node node (\<lambda>nd'. nd'\<lparr>childs_size := n\<rparr>) (clear_childs [n..<2 * n] node t7)))"
    by (rule split_off_vals_halves [OF cs ok C nd_def]) (use lf in auto)
  have at: "node_id (cache t5 ! C) = C" "length (childs (cache t5 ! C)) = 2 * n"
    "childs (cache t5 ! node) = childs nd" "node < length (cache t5)" "C < length (cache t5)"
    using C t5(2) nd(3) by (simp_all add: t5(3,6) blank_def)
  have kids: "x < length (cache t5) \<and> x \<noteq> node \<and> x \<noteq> C" if "x \<in> set (drop n (childs nd))" for x
    using that m nodes_okD(1) [OF ok, of x] cz(1,2) t5(2) by (auto dest: in_set_dropD)
  obtain t2 z where t2: "split_off t node C = Inr t2" "t2 = t5\<lparr>cache := cache t2\<rparr>"
    "length (cache t2) = length (cache t)"
    "cache t2 ! node = (cache t5 ! node)\<lparr>childs := z, childs_size := n\<rparr>"
    "take n z = take n (childs nd)" "length z = 2 * n"
    "cache t2 ! C = (cache t5 ! C)\<lparr>childs_size := n, childs := drop n (childs nd) @ drop n (childs (cache t5 ! C))\<rparr>"
    "\<And>x. x < length (cache t) \<Longrightarrow> x \<noteq> node \<Longrightarrow> x \<noteq> C \<Longrightarrow> cache t2 ! x =
       (if x \<in> set (drop n (childs nd)) then (cache t5 ! x)\<lparr>parent := C\<rparr> else cache t5 ! x)"
    by (rule move_upper [of node C t5 n]) (use c(6) at cz(3) kids t5(2,9) in auto)
  have "t2 = t\<lparr>cache := cache t2\<rparr>" by (subst t2(2), subst t5(1)) simp
  moreover have "kvs (cache t2 ! node) = take (half S node) (kvs nd)" "kvs (cache t2 ! C) = drop (right_from S node) (kvs nd)"
    using t5(4,5) by (simp_all add: t2(4,7) kvs_def)
  moreover have "chs (cache t2 ! node) = take n (childs nd)" "chs (cache t2 ! C) = drop n (childs nd)"
    using t2(5,6) cz(3) by (simp_all add: t2(4,7) chs_def)
  moreover have "node_ok n node (cache t2 ! node)" "node_ok n C (cache t2 ! C)"
    using nd(1) C(2,3) t5(7) t2(6) cz by (auto simp: t2(4,7) t5(3,6) node_ok_def blank_def)
  ultimately have "halves n S node C t t2"
    using t2(3,8) t5(8) cz(1,2) C(2) by (simp add: halves_def Let_def t2(4,7) t5(3,6) blank_def flip: nd_def)
  then show ?thesis using t2(1) by blast
qed

lemma split_off_spec:
  assumes cs: "can_split n A r S node C" and ok: "nodes_ok n A S t"
    and C: "C < length (cache t)" "blank n (cache t ! C)" "node_id (cache t ! C) = C"
  shows "\<exists>t2. split_off t node C = Inr t2 \<and> t2 = t\<lparr>cache := cache t2\<rparr> \<and>
    length (cache t2) = length (cache t) \<and> nodes_ok n (insert C A) (split_shape S node C) t2 \<and>
    (\<forall>x. x < length (cache t) \<longrightarrow> x \<notin> insert C A \<longrightarrow> cache t2 ! x = cache t ! x) \<and>
    pairs_of (insert C A) t2 = pairs_of A t"
proof -
  obtain t2 where t2: "split_off t node C = Inr t2" and hv: "halves n S node C t t2"
    using split_off_leaf [OF cs ok C] split_off_inner [OF cs ok C] by blast
  have "cache t2 ! x = cache t ! x" if "x < length (cache t)" "x \<notin> insert C A" for x
    using that halvesD(15) [OF hv, of x] moved_childs(1) [OF cs] can_splitD(3) [OF cs] by (cases "x = node") auto
  then show ?thesis
    using t2 halvesD(1,2) [OF hv] halves_nodes_ok [OF cs ok C(1) hv] halves_pairs [OF cs ok hv] by blast
qed

section \<open>The second half of a split\<close>

lemma lower_bound_eqI:
  assumes "j \<le> length xs" and "\<And>a. a < j \<Longrightarrow> P (xs ! a)" and "j < length xs \<Longrightarrow> \<not> P (xs ! j)"
  shows "lower_bound P xs = j"
proof (cases "j < length xs")
  case True
  then have "takeWhile P xs = take j xs" using assms by (intro takeWhile_eq_take_P_nth) auto
  with True show ?thesis by (simp add: lower_bound_def)
next
  case False
  with assms(1) have "j = length xs" by simp
  then have "takeWhile P xs = xs" using assms(2) by (auto simp: takeWhile_eq_all_conv in_set_conv_nth)
  with \<open>j = length xs\<close> show ?thesis unfolding lower_bound_def by metis
qed

lemma split_shape_at:
  assumes "can_split n A r S node C"
  shows "spar (split_shape S node C) node = spar S node"
    "\<And>x. x \<in> A \<Longrightarrow> x \<noteq> node \<Longrightarrow> sk (split_shape S node C) x = sk S x"
    "\<And>x. x \<in> A \<Longrightarrow> x \<noteq> node \<Longrightarrow> sc (split_shape S node C) x = sc S x"
    "\<And>x. x \<in> A \<Longrightarrow> slf (split_shape S node C) x = slf S x"
proof -
  note c = can_splitD [OF assms]
  have "node \<notin> set (sc S node)"
  proof
    assume "node \<in> set (sc S node)"
    then obtain a where "a < length (sc S node)" "sc S node ! a = node" by (auto simp: in_set_conv_nth)
    with shape_invD(8) [OF c(2,3), of a] show False by (auto simp: link_ok_def Let_def)
  qed
  then show "spar (split_shape S node C) node = spar S node"
    using c(6) by (auto simp: split_shape_def dest: in_set_dropD)
qed (use can_splitD(4) [OF assms] in \<open>auto simp: split_shape_def\<close>)

lemma insert_into_parent:
  assumes "can_split n A r S node C" and "child_at S p j node" and "node \<noteq> r"
    and ok: "nodes_ok n (insert C A) (split_shape S node C) t" and mid: "fst midle = mid_key S node"
  shows "\<exists>p1 p2. insertValue (cache t ! p) (fst midle) (snd midle) = Inr p1 \<and>
    insertChild p1 (fst midle) C = Inr p2 \<and> node_ok n p p2 \<and>
    kvs p2 = insert_at j midle (kvs (cache t ! p)) \<and> chs p2 = insert_at (Suc j) C (chs (cache t ! p)) \<and>
    is_leaf p2 = is_leaf (cache t ! p) \<and> parent p2 = parent (cache t ! p) \<and> nxt p2 = nxt (cache t ! p)"
proof -
  note c = can_splitD [OF assms(1)] and d = child_atD [OF assms(1-3)] and m = mid_position [OF assms(1-3)]
  define nd where "nd = cache t ! p"
  have nd: "node_ok n p nd" "view_ok (split_shape S node C) p nd"
    using nodes_okD [OF ok, of p] d(1) by (simp_all add: nd_def)
  have sk: "map fst (kvs nd) = sk S p" and sc: "chs nd = sc S p"
    using nd(2) split_shape_at(2,3) [OF assms(1) d(1,2)] by (simp_all add: view_ok_def)
  have sz: "vals_size nd = length (sk S p)" "childs_size nd = Suc (length (sk S p))"
    using length_kvs [OF nd(1)] length_chs [OF nd(1)] d(7) arg_cong [OF sk, of length] arg_cong [OF sc, of length]
    by simp_all
  have bnd: "vals_size nd < length (vals nd)" "Suc (vals_size nd) < length (childs nd)"
    using nd(1) sz(1) d(9) c(1) by (simp_all add: node_ok_def)
  have key: "fst (kvs nd ! a) = sk S p ! a" if "a < length (sk S p)" for a
    using that nth_map [of a "kvs nd" fst] length_kvs [OF nd(1)] sz(1) unfolding sk by simp
  have lb: "key_lower_bound nd (fst midle) = j"
    unfolding key_lower_bound_def
    by (rule lower_bound_eqI) (use nd(1) sz(1) d(8) key m(1,2) mid in \<open>auto simp: not_less order.strict_implies_order\<close>)
  obtain a where a: "insertValue nd (fst midle) (snd midle) = Inr (nd\<lparr>vals_size := Suc (vals_size nd), vals := a\<rparr>)"
    "length a = length (vals nd)" "take (Suc (vals_size nd)) a = insert_at j midle (kvs nd)"
    using insertValue_used [OF bnd(1), of "fst midle" "snd midle"] lb by auto
  define p1 where "p1 = nd\<lparr>vals_size := Suc (vals_size nd), vals := a\<rparr>"
  have kv1: "kvs p1 = insert_at j midle (kvs nd)" using a(3) by (simp add: p1_def kvs_def)
  have lk: "length (kvs nd) = vals_size nd" using nd(1) by simp
  have "sorted_wrt (<) (map fst (kvs p1))"
    unfolding kv1 map_insert_at sk mid
    by (rule sorted_insert_at [OF keys_okD(1) [OF d(6)] d(8)]) (auto intro: m)
  moreover have "vals p1 ! j = midle"
  proof -
    have "kvs p1 ! j = midle" using d(8) lk sz(1) by (simp add: kv1 nth_insert_at)
    then show ?thesis using d(8) sz(1) by (simp add: p1_def kvs_def)
  qed
  ultimately obtain b where b: "insertChild p1 (fst midle) C = Inr (p1\<lparr>childs := b, childs_size := Suc (childs_size p1)\<rparr>)"
    "length b = length (childs p1)" "take (Suc (childs_size p1)) b = insert_at (Suc j) C (chs p1)"
    using insertChild_used [of p1 j "fst midle" C] d(8) sz bnd a(2) by (auto simp: p1_def)
  have "node_ok n p (p1\<lparr>childs := b, childs_size := Suc (childs_size p1)\<rparr>)"
    using nd(1) a(2) b(2) bnd sz by (simp add: node_ok_def p1_def)
  moreover have "kvs (p1\<lparr>childs := b, childs_size := Suc (childs_size p1)\<rparr>) = insert_at j midle (kvs nd)"
    using kv1 by (simp add: kvs_def)
  moreover have "chs (p1\<lparr>childs := b, childs_size := Suc (childs_size p1)\<rparr>) = insert_at (Suc j) C (chs nd)"
    using b(3) by (simp add: chs_def p1_def)
  ultimately show ?thesis
    using a(1) b(1) unfolding nd_def [symmetric] p1_def by auto
qed

lemma attach_parent_spec:
  assumes "can_split n A r S node C" and "child_at S p j node" and "node \<noteq> r"
    and ok: "nodes_ok n (insert C A) (split_shape S node C) t" and mid: "fst midle = mid_key S node"
  shows "\<exists>t3. attach t node C midle = Inr (t3, p) \<and> t3 = t\<lparr>cache := cache t3\<rparr> \<and>
    length (cache t3) = length (cache t) \<and> nodes_ok n (insert C A) (grown S node C p j) t3 \<and>
    (\<forall>x. x < length (cache t) \<longrightarrow> x \<notin> insert C A \<longrightarrow> cache t3 ! x = cache t ! x) \<and>
    pairs_of (insert C A) t3 = pairs_of (insert C A) t"
proof -
  note c = can_splitD [OF assms(1)] and d = child_atD [OF assms(1-3)]
  let ?H = "split_shape S node C"
  have p0: "p \<noteq> 0" using shape_invD(2) [OF c(2)] d(1) by metis
  have pn: "parent (cache t ! node) = p"
    using nodes_okD(3) [OF ok, of node] c(3) split_shape_at(1) [OF assms(1)] assms(2)
    by (simp add: view_ok_def child_at_def)
  have ids: "node_id (cache t ! C) = C" "C < length (cache t)" "p < length (cache t)"
    using nodes_okD(1,2) [OF ok] d(1) by (auto simp: node_ok_def)
  from insert_into_parent [OF assms] obtain p1 p2 where
    ins: "insertValue (cache t ! p) (fst midle) (snd midle) = Inr p1" "insertChild p1 (fst midle) C = Inr p2"
    and p2: "node_ok n p p2" "kvs p2 = insert_at j midle (kvs (cache t ! p))"
      "chs p2 = insert_at (Suc j) C (chs (cache t ! p))"
      "is_leaf p2 = is_leaf (cache t ! p)" "parent p2 = parent (cache t ! p)" "nxt p2 = nxt (cache t ! p)"
    by blast
  define t3 where "t3 = upd_node C (\<lambda>c. c\<lparr>parent := p\<rparr>) (upd_node p (\<lambda>_. p2) t)"
  have att: "attach t node C midle = Inr (t3, p)"
    using ins ids pn p0 d(2) by (simp add: attach_def getNode_def t3_def cache_upd_node Let_def)
  have look: "cache t3 ! x = (if x = C then (cache t ! C)\<lparr>parent := p\<rparr> else if x = p then p2 else cache t ! x)" for x
    using ids d(3) by (simp add: t3_def cache_upd_node)
  have "nodes_ok n (insert C A) (grown S node C p j) t3"
    unfolding nodes_ok_def
  proof
    fix x assume x: "x \<in> insert C A"
    note o = nodes_okD [OF ok x]
    have "node_ok n x (cache t3 ! x)"
      using o(2) p2(1) by (auto simp: look node_ok_def)
    moreover have "view_ok (grown S node C p j) x (cache t3 ! x)"
    proof (cases "x = p")
      case True
      then show ?thesis
        using o(3) p2 d(3) mid
        by (auto simp: look view_ok_def attach_shape_def map_insert_at)
    next
      case False
      then show ?thesis
        using o(3) by (auto simp: look view_ok_def attach_shape_def kvs_def chs_def)
    qed
    ultimately show "x < length (cache t3) \<and> node_ok n x (cache t3 ! x) \<and> view_ok (grown S node C p j) x (cache t3 ! x)"
      using o(1) by (simp add: t3_def)
  qed
  moreover have "\<not> is_leaf (cache t ! p)"
    using nodes_okD(3) [OF ok, of p] d(1,4) split_shape_at(4) [OF assms(1) d(1)] by (simp add: view_ok_def)
  then have "pairs_of (insert C A) t3 = pairs_of (insert C A) t"
    using p2(4) by (auto simp: pairs_of_def look kvs_def split: if_splits)
  moreover have "t3 = t\<lparr>cache := cache t3\<rparr>" "length (cache t3) = length (cache t)"
    by (simp_all add: t3_def upd_node_def)
  moreover have "cache t3 ! x = cache t ! x" if "x \<notin> insert C A" for x
    using that d(1) by (auto simp: look)
  ultimately show ?thesis using att by blast
qed

lemma make_node_spec:
  assumes "cache_pos t < length (cache t)" and "length (cache t) \<le> Suc (cache_size t)"
  shows "make_node t = Inr ((upd_node (cache_pos t) (\<lambda>nd. nd\<lparr>node_id := cache_pos t\<rparr>) t)
    \<lparr>cache_pos := Suc (cache_pos t)\<rparr>, cache_pos t)"
  using assms by (simp add: make_node_def)

lemma insertValue_blank:
  assumes "blank n nd" and "1 \<le> n"
  shows "\<exists>a. insertValue nd k v = Inr (nd\<lparr>vals_size := 1, vals := a\<rparr>) \<and> length a = 2 * n \<and>
    take 1 a = [(k, v)]"
proof -
  have "vals_size nd < length (vals nd)" using assms by (simp add: blank_def)
  from insertValue_used [OF this, of k v] assms(1) show ?thesis
    by (auto simp: blank_def kvs_def insert_at_def)
qed

text \<open>The new root: a blank node that gets one value and two children.\<close>

lemma root_fill:
  assumes bl: "blank n nd" and id: "node_id nd = q" and n: "2 \<le> n"
  obtains r0 c1 c2 r1 where "insertValue nd (fst m) (snd m) = Inr r0" "arr_set (childs r0) (childs_size r0) a = Inr c1"
    "arr_set c1 (childs_size r0 + 1) b = Inr c2" "r1 = r0\<lparr>childs := c2, childs_size := childs_size r0 + 2\<rparr>"
    "kvs r1 = [m]" "chs r1 = [a, b]" "node_ok n q r1" "\<not> is_leaf r1" "parent r1 = 0" "nxt r1 = 0"
proof -
  from insertValue_blank [OF bl, of "fst m" "snd m"] n obtain v where
    v: "insertValue nd (fst m) (snd m) = Inr (nd\<lparr>vals_size := 1, vals := v\<rparr>)" "length v = 2 * n" "take 1 v = [m]" by auto
  have lc: "length (childs nd) = 2 * n" "childs_size nd = 0" using bl by (simp_all add: blank_def)
  obtain x y zs where ch: "childs nd = x # y # zs" using lc(1) n
    by (metis Suc_le_length_iff Suc_1 le_trans mult_2 numeral_2_eq_2 trans_le_add1)
  show ?thesis
    by (rule that [OF v(1), of "a # y # zs" "a # b # zs" "nd\<lparr>vals_size := 1, vals := v, childs := a # b # zs, childs_size := 2\<rparr>"])
      (use v lc ch bl id n in \<open>auto simp: arr_set_def kvs_def chs_def node_ok_def blank_def numeral_2_eq_2\<close>)
qed

text \<open>What \<^verbatim>\<open>attach\<close> does to the array when the node that was split is the root.\<close>

lemma attach_root_step:
  assumes root: "m_root t = node" "parent (cache t ! node) = 0" "node < length (cache t)" "node_id (cache t ! node) = node"
    and C: "C < length (cache t)" "node_id (cache t ! C) = C" "C \<noteq> node"
    and q: "q = cache_pos t" "q < length (cache t)" "length (cache t) \<le> Suc (cache_size t)" "q \<noteq> node" "q \<noteq> C" "blank n (cache t ! q)"
    and n: "2 \<le> n"
  obtains t3 r1 where "attach t node C midle = Inr (t3, q)" "t3 = t\<lparr>cache := cache t3, m_root := q, cache_pos := Suc q\<rparr>"
    "length (cache t3) = length (cache t)"
    "\<And>x. cache t3 ! x = (if x = C then (cache t ! C)\<lparr>parent := q\<rparr>
      else if x = node then (cache t ! node)\<lparr>parent := q\<rparr> else if x = q then r1 else cache t ! x)"
    "kvs r1 = [midle]" "chs r1 = [node, C]" "node_ok n q r1" "\<not> is_leaf r1" "parent r1 = 0" "nxt r1 = 0"
proof -
  define nd where "nd = (cache t ! q)\<lparr>node_id := q\<rparr>"
  have bl: "blank n nd" using q(6) by (simp add: nd_def blank_def)
  obtain r0 c1 ch2 r1 where r1: "insertValue nd (fst midle) (snd midle) = Inr r0" "arr_set (childs r0) (childs_size r0) node = Inr c1"
    "arr_set c1 (childs_size r0 + 1) C = Inr ch2" "r1 = r0\<lparr>childs := ch2, childs_size := childs_size r0 + 2\<rparr>"
    "kvs r1 = [midle]" "chs r1 = [node, C]" "node_ok n q r1" "\<not> is_leaf r1" "parent r1 = 0" "nxt r1 = 0"
    by (rule root_fill [OF bl _ n, of q]) (simp_all add: nd_def)
  define t1 where "t1 = (upd_node q (\<lambda>nd. nd\<lparr>node_id := q\<rparr>) t)\<lparr>cache_pos := Suc q\<rparr>"
  define t2 where "t2 = (upd_node node (\<lambda>nd. nd\<lparr>parent := q\<rparr>) t1)\<lparr>m_root := q\<rparr>"
  define t3 where "t3 = upd_node C (\<lambda>c. c\<lparr>parent := q\<rparr>) (upd_node node (\<lambda>nd. nd\<lparr>parent := q\<rparr>) (upd_node q (\<lambda>_. r1) t2))"
  have l: "length (cache t1) = length (cache t)" "length (cache t2) = length (cache t)"
    by (simp_all add: t1_def t2_def)
  have c1: "cache t1 ! x = (if x = q then nd else cache t ! x)" for x
    using cache_upd_node [OF q(2)] by (simp add: t1_def nd_def)
  have c2: "cache t2 ! x = (if x = node then (cache t ! node)\<lparr>parent := q\<rparr> else if x = q then nd else cache t ! x)" for x
    using cache_upd_node [of node t1] root(3) l q(4) by (simp add: t2_def c1)
  have look: "cache t3 ! x = (if x = C then (cache t ! C)\<lparr>parent := q\<rparr>
      else if x = node then (cache t ! node)\<lparr>parent := q\<rparr> else if x = q then r1 else cache t ! x)" for x
    using root(3) C q(2,4,5) l by (simp add: t3_def cache_upd_node c2)
  have mk: "make_node t = Inr (t1, q)" using make_node_spec [of t] q(1-3) by (simp add: t1_def)
  have roots: "m_root t1 = node" "m_root t2 = q" "node_id r1 = q" using root r1(7) by (simp_all add: t1_def t2_def node_ok_def)
  have nids: "node_id (cache t1 ! q) = q" "cache t2 ! q = nd" "node_id (cache t2 ! node) = node" "node_id (cache t2 ! C) = C"
    using root q(4,5) C by (simp_all add: c1 c2 nd_def)
  note ids = roots nids
  have look3: "node_id (cache (upd_node q (\<lambda>_. r1) t2) ! q) = q"
    "node_id (cache (upd_node node f (upd_node q (\<lambda>_. r1) t2)) ! q) = q" for f
    using q(2,4) l root(3) ids(3) by (simp_all add: cache_upd_node)
  have "attach t node C midle = Inr (t3, q)"
    unfolding attach_def Let_def
    by (simp only: root(2) mk bind_r.simps prod.case simp_thms if_False t2_def [symmetric] ids r1(1-3) r1(4) [symmetric]
          upd_node_simps look3 t3_def)
  moreover have "t3 = t\<lparr>cache := cache t3, m_root := q, cache_pos := Suc q\<rparr>" "length (cache t3) = length (cache t)"
    by (simp_all add: t3_def t2_def t1_def upd_node_def)
  ultimately show ?thesis using that look r1(5-10) by blast
qed

lemma attach_root_spec:
  assumes cs: "can_split n A node S node C" and root: "m_root t = node"
    and ok: "nodes_ok n (insert C A) (split_shape S node C) t"
    and q: "q = cache_pos t" "q < length (cache t)" "length (cache t) \<le> Suc (cache_size t)"
      "q \<notin> insert C A" "q \<noteq> 0" "blank n (cache t ! q)"
    and mid: "fst midle = mid_key S node"
  shows "\<exists>t3. attach t node C midle = Inr (t3, q) \<and>
    t3 = t\<lparr>cache := cache t3, m_root := q, cache_pos := Suc q\<rparr> \<and>
    length (cache t3) = length (cache t) \<and>
    nodes_ok n (insert q (insert C A)) (rooted S node C q) t3 \<and>
    (\<forall>x. x < length (cache t) \<longrightarrow> x \<notin> insert q (insert C A) \<longrightarrow> cache t3 ! x = cache t ! x) \<and>
    pairs_of (insert q (insert C A)) t3 = pairs_of (insert C A) t"
proof -
  note c = can_splitD [OF cs] and si = shape_invD [OF can_splitD(2) [OF cs]]
  have pn: "parent (cache t ! node) = 0"
    using nodes_okD(3) [OF ok, of node] c(3) split_shape_at(1) [OF cs] si(4) by (simp add: view_ok_def)
  have ids: "node_id (cache t ! C) = C" "C < length (cache t)" "node_id (cache t ! node) = node" "node < length (cache t)"
    using nodes_okD(1,2) [OF ok] c(3) by (auto simp: node_ok_def)
  have neq: "q \<noteq> node" "q \<noteq> C" "C \<noteq> node" using q(4) c(3,6) by auto
  obtain t3 r1 where t3: "attach t node C midle = Inr (t3, q)" "t3 = t\<lparr>cache := cache t3, m_root := q, cache_pos := Suc q\<rparr>"
      "length (cache t3) = length (cache t)"
    and look: "\<And>x. cache t3 ! x = (if x = C then (cache t ! C)\<lparr>parent := q\<rparr>
      else if x = node then (cache t ! node)\<lparr>parent := q\<rparr> else if x = q then r1 else cache t ! x)"
    and r1: "kvs r1 = [midle]" "chs r1 = [node, C]" "node_ok n q r1" "\<not> is_leaf r1" "parent r1 = 0" "nxt r1 = 0"
    by (rule attach_root_step [OF root pn ids(4,3,2,1) neq(3) q(1-3) neq(1,2) q(6) c(1)]) blast
  have "nodes_ok n (insert q (insert C A)) (rooted S node C q) t3"
    unfolding nodes_ok_def
  proof
    fix x assume x: "x \<in> insert q (insert C A)"
    show "x < length (cache t3) \<and> node_ok n x (cache t3 ! x) \<and> view_ok (rooted S node C q) x (cache t3 ! x)"
    proof (cases "x = q")
      case True
      then show ?thesis using q(2) neq r1 mid t3(3) by (simp add: look view_ok_def root_shape_def)
    next
      case False
      then have "x \<in> insert C A" using x by simp
      note o = nodes_okD [OF ok this]
      have "node_ok n x (cache t3 ! x)" using o(2) False by (auto simp: look node_ok_def)
      moreover have "view_ok (rooted S node C q) x (cache t3 ! x)"
        using o(3) False neq by (auto simp: look view_ok_def root_shape_def kvs_def chs_def)
      ultimately show ?thesis using o(1) t3(3) by simp
    qed
  qed
  moreover have "pairs_of (insert q (insert C A)) t3 = pairs_of (insert C A) t"
  proof -
    have "\<not> is_leaf (cache t3 ! q)" using neq r1(4) by (simp add: look)
    moreover have "pairs_of (insert C A) t3 = pairs_of (insert C A) t"
      by (rule pairs_of_cong) (use q(4) in \<open>auto simp: look kvs_def\<close>)
    ultimately show ?thesis by (simp add: pairs_of_insert)
  qed
  moreover have "cache t3 ! x = cache t ! x" if "x \<notin> insert q (insert C A)" for x
    using that c(3) by (auto simp: look)
  ultimately show ?thesis using t3 by blast
qed

section \<open>Splitting upwards\<close>

definition leaves :: "('k, 'v) btree \<Rightarrow> nat set" where
  "leaves t = {i \<in> used t. is_leaf (cache t ! i)}"

lemma leaves_used: "leaves t \<subseteq> used t" "finite (leaves t)"
  by (auto simp: leaves_def used_def)

lemma used_Suc: "1 \<le> cache_pos t \<Longrightarrow> cache_pos t' = Suc (cache_pos t) \<Longrightarrow> used t' = insert (cache_pos t) (used t)"
  by (auto simp: used_def)

lemma leaves_view: "btree_inv n ov t S \<Longrightarrow> leaves t = {i \<in> used t. slf S i}"
  using btree_invD(6) [of n ov t S] by (auto simp: leaves_def view_ok_def)

text \<open>\<^verbatim>\<open>make_node\<close> and the first half of a split, on a tree whose node \<open>i\<close> overflows.\<close>

definition overflows :: "nat \<Rightarrow> ('k::linorder, 'v) btree \<Rightarrow> 'k shape \<Rightarrow> nat \<Rightarrow> bool" where
  "overflows n t S i \<longleftrightarrow> btree_inv n {i} t S \<and> i \<in> used t \<and>
     length (sk S i) = (if slf S i then 2 * n else 2 * n - 1)"

lemma split_half:
  assumes ov: "overflows n t S i" and room: "cache_pos t < length (cache t)" and C: "C = cache_pos t"
  shows "can_split n (used t) (m_root t) S i C"
    "\<exists>t1 t2 midle. make_node t = Inr (t1, C) \<and>
       arr_get (vals (cache t1 ! i)) (vals_size (cache t1 ! i) div 2) = Inr midle \<and>
       fst midle = mid_key S i \<and> split_off t1 i C = Inr t2 \<and>
       t2 = t\<lparr>cache := cache t2, cache_pos := Suc C\<rparr> \<and> length (cache t2) = length (cache t) \<and>
       nodes_ok n (insert C (used t)) (split_shape S i C) t2 \<and>
       (\<forall>x. x < length (cache t) \<longrightarrow> x \<notin> insert C (used t) \<longrightarrow> cache t2 ! x = cache t ! x) \<and>
       pairs_of (insert C (used t)) t2 = contents t"
proof -
  from ov have inv: "btree_inv n {i} t S" and i: "i \<in> used t"
    and len: "length (sk S i) = (if slf S i then 2 * n else 2 * n - 1)" by (auto simp: overflows_def)
  note b = btree_invD [OF inv]
  show cs: "can_split n (used t) (m_root t) S i C"
    using b(1,2,9) i len C by (auto simp: can_split_def used_def)
  define t1 where "t1 = (upd_node C (\<lambda>nd. nd\<lparr>node_id := C\<rparr>) t)\<lparr>cache_pos := Suc C\<rparr>"
  have mk: "make_node t = Inr (t1, C)" using make_node_spec [OF room b(4)] by (simp add: t1_def C)
  have look: "cache t1 ! x = (if x = C then (cache t ! C)\<lparr>node_id := C\<rparr> else cache t ! x)" for x
    using cache_upd_node [of C t] room C by (simp add: t1_def)
  have CU: "x \<noteq> C" if "x \<in> used t" for x using that C by (auto simp: used_def)
  have ok: "nodes_ok n (used t) S t1"
    using b(5-7) CU by (simp add: nodes_ok_def look) (simp add: t1_def)
  have bl: "blank n (cache t1 ! C)" using b(8) [of C] room C by (simp add: look blank_def)
  from split_off_spec [OF cs ok _ bl] room C look obtain t2 where
    t2: "split_off t1 i C = Inr t2" "t2 = t1\<lparr>cache := cache t2\<rparr>" "length (cache t2) = length (cache t1)"
      "nodes_ok n (insert C (used t)) (split_shape S i C) t2"
      "\<forall>x. x < length (cache t1) \<longrightarrow> x \<notin> insert C (used t) \<longrightarrow> cache t2 ! x = cache t1 ! x"
      "pairs_of (insert C (used t)) t2 = pairs_of (used t) t1"
    by (auto simp: t1_def)
  have sz: "vals_size (cache t ! i) = length (sk S i)"
    using b(5,6) [OF i] by (simp add: view_ok_def)
  have h: "half S i < length (sk S i)" using split_sizes(3) [OF cs] .
  have "arr_get (vals (cache t1 ! i)) (vals_size (cache t1 ! i) div 2) = Inr (kvs (cache t ! i) ! half S i)"
    using sz h b(5) [OF i] CU [OF i] by (auto simp: look half_def kvs_def node_ok_def)
  moreover have "fst (kvs (cache t ! i) ! half S i) = mid_key S i"
  proof -
    have "sk S i = map fst (kvs (cache t ! i))" using b(6) [OF i] by (simp add: view_ok_def)
    then show ?thesis using h unfolding mid_key_def by (metis length_map nth_map)
  qed
  moreover have "pairs_of (used t) t1 = contents t"
    unfolding contents_def by (rule pairs_of_cong) (simp add: look CU)
  moreover have "t2 = t\<lparr>cache := cache t2, cache_pos := Suc C\<rparr>"
    by (rule trans [OF t2(2)]) (simp add: t1_def upd_node_def)
  ultimately show "\<exists>t1 t2 midle. make_node t = Inr (t1, C) \<and>
       arr_get (vals (cache t1 ! i)) (vals_size (cache t1 ! i) div 2) = Inr midle \<and>
       fst midle = mid_key S i \<and> split_off t1 i C = Inr t2 \<and>
       t2 = t\<lparr>cache := cache t2, cache_pos := Suc C\<rparr> \<and> length (cache t2) = length (cache t) \<and>
       nodes_ok n (insert C (used t)) (split_shape S i C) t2 \<and>
       (\<forall>x. x < length (cache t) \<longrightarrow> x \<notin> insert C (used t) \<longrightarrow> cache t2 ! x = cache t ! x) \<and>
       pairs_of (insert C (used t)) t2 = contents t"
    using mk t2(1,3-6) look by (intro exI [of _ t1] exI [of _ t2]) (auto simp: t1_def)
qed

lemma split_node_unfold:
  assumes "make_node t = Inr (t1, C)"
    and "arr_get (vals (cache t1 ! i)) (vals_size (cache t1 ! i) div 2) = Inr midle"
    and "split_off t1 i C = Inr t2" and "attach t2 i C midle = Inr (t3, p)"
  shows "split_node (Suc fuel) n t i =
    (if isFull n (cache t3 ! p) then split_node fuel n t3 p else Inr t3)"
  using assms by simp

text \<open>What a split keeps of the tree besides the invariant.\<close>

definition same_store :: "('k, 'v) btree \<Rightarrow> ('k, 'v) btree \<Rightarrow> bool" where
  "same_store t t' \<longleftrightarrow> length (cache t') = length (cache t) \<and> cache_size t' = cache_size t \<and>
     contents t' = contents t"

text \<open>A split of a leaf adds one leaf; the new nodes \<open>Q\<close> above are none.\<close>

lemma card_leaves_split:
  assumes inv: "btree_inv n ov t S" and inv': "btree_inv n' ov' t' S'" and C: "C \<notin> used t" "C \<notin> Q" "used t \<inter> Q = {}"
    and U: "used t' = Q \<union> insert C (used t)" and lf: "\<And>x. slf S' x = (x \<notin> Q \<and> (if x = C then slf S i else slf S x))"
  shows "card (leaves t') = card (leaves t) + (if slf S i then 1 else 0)"
proof -
  have "leaves t' = (if slf S i then insert C (leaves t) else leaves t)"
    unfolding leaves_view [OF inv'] leaves_view [OF inv] U using C by (auto simp: lf)
  then show ?thesis using C(1) leaves_used [of t] by (auto simp: subset_iff card_insert_if)
qed

lemma new_root_not_full:
  assumes "nodes_ok n U (rooted S i c q) t" and "q \<in> U" and "2 \<le> n"
  shows "\<not> isFull n (cache t ! q)"
proof -
  have "view_ok (rooted S i c q) q (cache t ! q)" "node_ok n q (cache t ! q)"
    using nodes_okD [OF assms(1,2)] by simp_all
  moreover have "sk (rooted S i c q) q = [mid_key S i]" by (simp add: root_shape_def)
  ultimately have "vals_size (cache t ! q) = 1"
    by (metis One_nat_def length_Cons length_kvs length_map list.size(3) view_ok_def)
  then show ?thesis using assms(3) by (simp add: isFull_def)
qed

lemma split_node_parent:
  assumes ov: "overflows n t S i" and ne: "i \<noteq> m_root t" and room: "cache_pos t < length (cache t)"
  obtains t3 S3 p where
    "\<forall>fuel. split_node (Suc fuel) n t i =
      (if isFull n (cache t3 ! p) then split_node fuel n t3 p else Inr t3)"
    "btree_inv n {p} t3 S3" "p \<in> used t3" "\<not> slf S3 p" "slvl S3 p = Suc (slvl S i)"
    "m_root t3 = m_root t" "slvl S3 (m_root t3) = slvl S (m_root t)"
    "same_store t t3" "cache_pos t3 = Suc (cache_pos t)"
    "card (leaves t3) = card (leaves t) + (if slf S i then 1 else 0)"
proof -
  define C where "C = cache_pos t"
  from ov have inv: "btree_inv n {i} t S" and i: "i \<in> used t" by (auto simp: overflows_def)
  note b = btree_invD [OF inv]
  note cs = split_half(1) [OF ov room C_def]
  from split_half(2) [OF ov room C_def] obtain t1 t2 midle where
    h: "make_node t = Inr (t1, C)" "arr_get (vals (cache t1 ! i)) (vals_size (cache t1 ! i) div 2) = Inr midle"
      "fst midle = mid_key S i" "split_off t1 i C = Inr t2"
      "t2 = t\<lparr>cache := cache t2, cache_pos := Suc C\<rparr>" "length (cache t2) = length (cache t)"
      "nodes_ok n (insert C (used t)) (split_shape S i C) t2"
      "\<forall>x. x < length (cache t) \<longrightarrow> x \<notin> insert C (used t) \<longrightarrow> cache t2 ! x = cache t ! x"
      "pairs_of (insert C (used t)) t2 = contents t" by blast
  from parent_index [OF b(2) i ne] obtain j where
    j: "j < length (sc S (spar S i))" "sc S (spar S i) ! j = i" by metis
  define p where "p = spar S i"
  have ca: "child_at S p j i" using j by (simp add: child_at_def p_def)
  note d = child_atD [OF cs ca ne]
  from attach_parent_spec [OF cs ca ne h(7,3)] obtain t3 where
    t3: "attach t2 i C midle = Inr (t3, p)" "t3 = t2\<lparr>cache := cache t3\<rparr>" "length (cache t3) = length (cache t2)"
      "nodes_ok n (insert C (used t)) (grown S i C p j) t3"
      "\<forall>x. x < length (cache t2) \<longrightarrow> x \<notin> insert C (used t) \<longrightarrow> cache t3 ! x = cache t2 ! x"
      "pairs_of (insert C (used t)) t3 = pairs_of (insert C (used t)) t2" by blast
  have fr: "m_root t3 = m_root t" "cache_pos t3 = Suc C" "cache_size t3 = cache_size t"
    using t3(2) h(5) by (metis btree.select_convs btree.surjective btree.update_convs)+
  have U: "used t3 = insert C (used t)" using used_Suc [of t t3] fr b(9) by (simp add: C_def)
  have blk: "blank n (cache t3 ! x)" if "Suc C \<le> x" "x < length (cache t)" for x
  proof -
    have "x \<notin> insert C (used t)" using that by (auto simp: C_def used_def)
    then show ?thesis using t3(5) h(6,8) b(8) that by (simp add: C_def)
  qed
  have inv3: "btree_inv n {p} t3 (grown S i C p j)"
    using b(1,4) fr U t3(3,4) h(6) grown_inv [OF cs ca ne] room blk
    by (auto simp: btree_inv_def nodes_ok_def C_def)
  have lv: "slvl (grown S i C p j) x = slvl S x" if "x \<in> used t" for x
    using that by (auto simp: attach_shape_def split_shape_def C_def used_def)
  have lf: "slf (grown S i C p j) x = (if x = C then slf S i else slf S x)" for x
    by (simp add: attach_shape_def split_shape_def)
  have CU: "C \<notin> used t" by (simp add: C_def used_def)
  have lvs: "card (leaves t3) = card (leaves t) + (if slf S i then 1 else 0)"
    by (rule card_leaves_split [OF inv inv3 CU, of "{}"]) (simp_all add: U lf)
  have lvp: "slvl S p = Suc (slvl S i)" using d(5) j by (simp add: link_ok_def p_def Let_def)
  have nl: "\<not> slf (grown S i C p j) p" using d(3,4) lf by simp
  have rU: "m_root t \<in> used t" by (rule shape_invD(3) [OF b(2)])
  show ?thesis
  proof (rule that [OF _ inv3 _ nl _ fr(1)])
    show "\<forall>fuel. split_node (Suc fuel) n t i =
      (if isFull n (cache t3 ! p) then split_node fuel n t3 p else Inr t3)"
      using split_node_unfold [OF h(1,2,4) t3(1)] by blast
    show "same_store t t3" using t3(3,6) h(6,9) fr(3) by (simp add: same_store_def contents_def U)
  qed (use U d(1) lv [OF d(1)] lv [OF rU] lvp fr lvs in \<open>auto simp: C_def\<close>)
qed

lemma split_node_root:
  assumes ov: "overflows n t S i" and rt: "i = m_root t" and room: "Suc (cache_pos t) < length (cache t)"
  obtains t3 S3 where
    "\<And>fuel. split_node (Suc fuel) n t i = Inr t3" "btree_inv n {} t3 S3"
    "same_store t t3" "cache_pos t3 = cache_pos t + 2"
    "card (leaves t3) = card (leaves t) + (if slf S i then 1 else 0)"
proof -
  define C q where "C = cache_pos t" and "q = Suc C"
  from ov have inv: "btree_inv n {i} t S" and i: "i \<in> used t" by (auto simp: overflows_def)
  note b = btree_invD [OF inv]
  have room': "cache_pos t < length (cache t)" using room by simp
  note cs = split_half(1) [OF ov room' C_def, folded rt]
  from split_half(2) [OF ov room' C_def] obtain t1 t2 midle where
    h: "make_node t = Inr (t1, C)" "arr_get (vals (cache t1 ! i)) (vals_size (cache t1 ! i) div 2) = Inr midle"
      "fst midle = mid_key S i" "split_off t1 i C = Inr t2"
      "t2 = t\<lparr>cache := cache t2, cache_pos := Suc C\<rparr>" "length (cache t2) = length (cache t)"
      "nodes_ok n (insert C (used t)) (split_shape S i C) t2"
      "\<forall>x. x < length (cache t) \<longrightarrow> x \<notin> insert C (used t) \<longrightarrow> cache t2 ! x = cache t ! x"
      "pairs_of (insert C (used t)) t2 = contents t" by blast
  have fr2: "m_root t2 = m_root t" "cache_pos t2 = q" "cache_size t2 = cache_size t"
    using h(5) unfolding q_def by (metis btree.select_convs btree.surjective btree.update_convs)+
  have qU: "q \<notin> insert C (used t)" "q \<noteq> 0" by (simp_all add: q_def C_def used_def)
  have ql: "q < length (cache t2)" "length (cache t2) \<le> Suc (cache_size t2)"
    using room b(4) h(6) fr2 by (simp_all add: q_def C_def)
  have blq: "blank n (cache t2 ! q)"
    using h(6,8) qU b(8) [of q] ql(1) by (simp add: q_def C_def)
  from attach_root_spec [OF cs _ h(7) fr2(2) [symmetric] ql qU blq h(3)] rt fr2(1) obtain t3 where
    t3: "attach t2 i C midle = Inr (t3, q)" "t3 = t2\<lparr>cache := cache t3, m_root := q, cache_pos := Suc q\<rparr>"
      "length (cache t3) = length (cache t2)"
      "nodes_ok n (insert q (insert C (used t))) (rooted S i C q) t3"
      "\<forall>x. x < length (cache t2) \<longrightarrow> x \<notin> insert q (insert C (used t)) \<longrightarrow> cache t3 ! x = cache t2 ! x"
      "pairs_of (insert q (insert C (used t))) t3 = pairs_of (insert C (used t)) t2" by auto
  have fr: "m_root t3 = q" "cache_pos t3 = Suc q" "cache_size t3 = cache_size t"
    using t3(2) fr2(3) by (metis btree.select_convs btree.surjective btree.update_convs)+
  have U: "used t3 = insert q (insert C (used t))"
    using b(9) fr(2) by (auto simp: used_def q_def C_def)
  have blk: "blank n (cache t3 ! x)" if "Suc q \<le> x" "x < length (cache t)" for x
  proof -
    have "x \<notin> insert q (insert C (used t))" using that by (auto simp: q_def C_def used_def)
    then show ?thesis using t3(5) h(6,8) b(8) that by (simp add: q_def C_def)
  qed
  have inv3: "btree_inv n {} t3 (rooted S i C q)"
    using b(1,4) fr U t3(3,4) h(6) rooted_inv [OF cs qU] room blk
    by (auto simp: btree_inv_def nodes_ok_def q_def C_def)
  have lf: "slf (rooted S i C q) x = (x \<noteq> q \<and> (if x = C then slf S i else slf S x))" for x
    by (simp add: root_shape_def split_shape_def)
  have CU: "C \<notin> used t" by (simp add: C_def used_def)
  have lvs: "card (leaves t3) = card (leaves t) + (if slf S i then 1 else 0)"
    by (rule card_leaves_split [OF inv inv3 CU, of "{q}"]) (use qU(1) in \<open>auto simp: U lf\<close>)
  have nf: "\<not> isFull n (cache t3 ! q)" by (rule new_root_not_full [OF t3(4) _ b(1)]) simp
  show ?thesis
  proof (rule that [OF _ inv3])
    show "split_node (Suc fuel) n t i = Inr t3" for fuel
      using split_node_unfold [OF h(1,2,4) t3(1)] nf by simp
    show "same_store t t3" using t3(3,6) h(6,9) fr(3) by (simp add: same_store_def contents_def U)
  qed (use fr lvs in \<open>auto simp: q_def C_def\<close>)
qed

lemma btree_inv_drop:
  assumes "btree_inv n {p} t S" "p \<in> used t" "\<not> slf S p" "\<not> isFull n (cache t ! p)"
  shows "btree_inv n {} t S"
proof -
  note b = btree_invD [OF assms(1)]
  have "length (sk S p) = vals_size (cache t ! p)" using b(5,6) [OF assms(2)] by (simp add: view_ok_def)
  then have "keys_ok n {} S p"
    using shape_invD(7) [OF b(2) assms(2)] assms(3,4) by (simp add: keys_ok_def isFull_def)
  moreover have "keys_ok n {} S x" if "x \<in> used t" "x \<noteq> p" for x
    using shape_invD(7) [OF b(2) that(1)] that(2) by (auto intro: keys_ok_other)
  ultimately have "shape_inv n {} (used t) (m_root t) S"
    using b(2) unfolding shape_inv_def by metis
  with assms(1) show ?thesis by (simp add: btree_inv_def)
qed

lemma overflowsI:
  assumes "btree_inv n {p} t S" "p \<in> used t" "\<not> slf S p" "isFull n (cache t ! p)"
  shows "overflows n t S p"
proof -
  note b = btree_invD [OF assms(1)]
  have "length (sk S p) = vals_size (cache t ! p)" using b(5,6) [OF assms(2)] by (simp add: view_ok_def)
  moreover have "length (sk S p) \<le> 2 * n - 1"
    using shape_invD(7) [OF b(2) assms(2)] assms(3) by (simp add: keys_ok_def)
  ultimately have "length (sk S p) = 2 * n - 1" using assms(4) by (simp add: isFull_def)
  with assms show ?thesis by (simp add: overflows_def)
qed

text \<open>
  \<^verbatim>\<open>split_node\<close> returns, mends the overflowing node and loses nothing, whenever there are cells for
  one new node per level up to the root and for a new root.
\<close>

lemma split_node_ok:
  assumes "overflows n t S i" and "slvl S (m_root t) - slvl S i < fuel"
    and "cache_pos t + (slvl S (m_root t) - slvl S i) + 2 \<le> length (cache t)"
  shows "\<exists>t' S'. split_node fuel n t i = Inr t' \<and> btree_inv n {} t' S' \<and> same_store t t' \<and>
    card (leaves t') = card (leaves t) + (if slf S i then 1 else 0)"
  using assms
proof (induction fuel arbitrary: t S i)
  case (Suc fuel)
  show ?case
  proof (cases "i = m_root t")
    case True
    from Suc.prems(3) True have "Suc (cache_pos t) < length (cache t)" by simp
    from split_node_root [OF Suc.prems(1) True this] show ?thesis by metis
  next
    case False
    have "i \<in> used t" and inv: "btree_inv n {i} t S" using Suc.prems(1) by (auto simp: overflows_def)
    have room: "cache_pos t < length (cache t)" using Suc.prems(3) by simp
    obtain t3 S3 p where
      s: "\<forall>fuel. split_node (Suc fuel) n t i = (if isFull n (cache t3 ! p) then split_node fuel n t3 p else Inr t3)"
      and r: "btree_inv n {p} t3 S3" "p \<in> used t3" "\<not> slf S3 p" "slvl S3 p = Suc (slvl S i)"
        "m_root t3 = m_root t" "slvl S3 (m_root t3) = slvl S (m_root t)"
        "same_store t t3" "cache_pos t3 = Suc (cache_pos t)"
        "card (leaves t3) = card (leaves t) + (if slf S i then 1 else 0)"
      by (rule split_node_parent [OF Suc.prems(1) False room])
    show ?thesis
    proof (cases "isFull n (cache t3 ! p)")
      case True
      have up: "slvl S3 p \<le> slvl S3 (m_root t3)" by (rule shape_invD(11) [OF btree_invD(2) [OF r(1)] r(2)])
      have "length (cache t3) = length (cache t)" using r(7) by (simp add: same_store_def)
      then have "slvl S3 (m_root t3) - slvl S3 p < fuel"
        "cache_pos t3 + (slvl S3 (m_root t3) - slvl S3 p) + 2 \<le> length (cache t3)"
        using Suc.prems(2,3) r(4,6,8) up by linarith+
      from Suc.IH [OF overflowsI [OF r(1-3) True] this] r(3)
      obtain t' S' where "split_node fuel n t3 p = Inr t'" "btree_inv n {} t' S'" "same_store t3 t'"
        "card (leaves t') = card (leaves t3)" by auto
      then show ?thesis using s True r(7,9) by (auto simp: same_store_def)
    next
      case False
      then show ?thesis using s r(7,9) btree_inv_drop [OF r(1-3) False] by auto
    qed
  qed
qed simp

end
