(* ===== verification/BTree_Map.thy ===== *)
theory BTree_Map
  imports BTree_Correct
begin

text \<open>
  The B+ tree as a finite map: the descent reaches the one leaf whose key interval contains the
  key, insertion adds exactly the pair inserted, lookup returns it, and a tree with \<open>m\<close>
  cells takes a number of insertions linear in \<open>m\<close>.
\<close>

section \<open>How many nodes there are\<close>

lemma used_card: "card (used t) = cache_pos t - 1"
  by (simp add: used_def)

lemma card_by_childs:
  assumes inv: "shape_inv n ov A r S"
  shows "card A = Suc (\<Sum>i\<in>A. length (sc S i))"
proof -
  let ?E = "SIGMA i:A. {..<length (sc S i)}" and ?f = "\<lambda>(i, j). sc S i ! j"
  note si = shape_invD [OF inv]
  have "inj_on ?f ?E"
  proof (rule inj_onI, clarsimp)
    fix a x b y
    assume e: "a \<in> A" "b \<in> A" "x < length (sc S a)" "y < length (sc S b)" "sc S a ! x = sc S b ! y"
    then have "a = b" using si(8) [of a x] si(8) [of b y] by (auto simp: link_ok_def Let_def)
    moreover have "x = y" using distinct_childs [OF inv e(1)] e \<open>a = b\<close> by (metis nat_neq_iff)
    ultimately show "a = b \<and> x = y" by simp
  qed
  then have "card (?f ` ?E) = card ?E" by (rule card_image)
  also have "\<dots> = (\<Sum>i\<in>A. length (sc S i))" using si(1) by simp
  also have "?f ` ?E = A - {r}"
  proof (intro equalityI subsetI)
    fix x assume "x \<in> ?f ` ?E"
    then obtain i j where ij: "i \<in> A" "j < length (sc S i)" "x = sc S i ! j" by auto
    with si(8) [OF ij(1,2)] si(11) [OF ij(1)] show "x \<in> A - {r}"
      by (auto simp: link_ok_def Let_def)
  next
    fix x assume "x \<in> A - {r}"
    then have "x \<in> A" "x \<noteq> r" by auto
    from parent_index [OF inv this] obtain j where
      "j < length (sc S (spar S x))" "sc S (spar S x) ! j = x" "spar S x \<in> A" by metis
    then show "x \<in> ?f ` ?E" by (intro image_eqI [of _ _ "(spar S x, j)"]) auto
  qed
  finally have "card (A - {r}) = (\<Sum>i\<in>A. length (sc S i))" .
  then show ?thesis using si(1,3) by (metis card_Suc_Diff1)
qed

text \<open>Inner nodes branch, so there are fewer of them than leaves.\<close>

lemma inner_less_leaves:
  assumes inv: "shape_inv n ov A r S"
  shows "Suc (card {i \<in> A. \<not> slf S i}) \<le> card {i \<in> A. slf S i}"
proof -
  note si = shape_invD [OF inv]
  have two: "(if slf S i then 0 else 2) \<le> length (sc S i)" if "i \<in> A" for i
  proof (cases "slf S i")
    case False
    with keys_okD(5,6) [OF si(7) [OF that]] show ?thesis by (cases "sk S i") auto
  qed simp
  have "2 * card {i \<in> A. \<not> slf S i} = (\<Sum>i\<in>A. if slf S i then 0 else 2)"
    using si(1) by (simp add: sum.If_cases Int_def Collect_conj_eq [symmetric])
  also have "\<dots> \<le> (\<Sum>i\<in>A. length (sc S i))" by (rule sum_mono) (rule two)
  finally have "Suc (2 * card {i \<in> A. \<not> slf S i}) \<le> card A" using card_by_childs [OF inv] by simp
  also have "card A = card {i \<in> A. slf S i} + card {i \<in> A. \<not> slf S i}"
    using si(1) by (subst card_Un_disjoint [symmetric]) (auto intro: arg_cong [where f = card])
  finally show ?thesis by simp
qed

lemma levels_inhabited:
  assumes inv: "shape_inv n ov A r S" and l: "l \<le> slvl S r"
  shows "\<exists>i \<in> A. slvl S i = l"
  using l
proof (induction "slvl S r - l" arbitrary: l)
  case 0
  then show ?case using shape_invD(3) [OF inv] by (metis diff_is_0_eq le_antisym)
next
  case (Suc d)
  then have "d = slvl S r - Suc l" "Suc l \<le> slvl S r" by linarith+
  from Suc.hyps(1) [OF this] obtain i where i: "i \<in> A" "slvl S i = Suc l" by blast
  have K: "keys_ok n ov S i" by (rule shape_invD(7) [OF inv i(1)])
  with i have "\<not> slf S i" by (simp add: keys_okD(3) [OF K])
  then have "0 < length (sc S i)" using keys_okD(6) [OF K] by simp
  from shape_invD(8) [OF inv i(1) this] i(2) show ?case by (auto simp: link_ok_def Let_def)
qed

lemma height_inner:
  assumes inv: "shape_inv n ov A r S"
  shows "slvl S r \<le> card {i \<in> A. \<not> slf S i}"
proof -
  have "{1..slvl S r} \<subseteq> slvl S ` {i \<in> A. \<not> slf S i}"
  proof
    fix l assume l: "l \<in> {1..slvl S r}"
    then obtain i where "i \<in> A" "slvl S i = l" using levels_inhabited [OF inv, of l] by auto
    with l keys_okD(3) [OF shape_invD(7) [OF inv \<open>i \<in> A\<close>]] show "l \<in> slvl S ` {i \<in> A. \<not> slf S i}"
      by auto
  qed
  then have "card {1..slvl S r} \<le> card (slvl S ` {i \<in> A. \<not> slf S i})"
    using shape_invD(1) [OF inv] by (intro card_mono) auto
  also have "\<dots> \<le> card {i \<in> A. \<not> slf S i}" using shape_invD(1) [OF inv] by (intro card_image_le) auto
  finally show ?thesis by simp
qed

text \<open>The cells a tree needs, measured in its leaves.\<close>

lemma cells_by_leaves:
  assumes inv: "btree_inv n ov t S"
  shows "cache_pos t \<le> 2 * card (leaves t)" "Suc (slvl S (m_root t)) \<le> card (leaves t)"
    "Suc (slvl S (m_root t)) < cache_pos t"
proof -
  note si = btree_invD(2) [OF inv]
  have lv: "leaves t = {i \<in> used t. slf S i}" by (rule leaves_view [OF inv])
  have sum: "card (used t) = card (leaves t) + card {i \<in> used t. \<not> slf S i}"
    unfolding lv using shape_invD(1) [OF si]
    by (subst card_Un_disjoint [symmetric]) (auto intro: arg_cong [where f = card])
  from inner_less_leaves [OF si] height_inner [OF si] sum used_card [of t] btree_invD(9) [OF inv]
  show "cache_pos t \<le> 2 * card (leaves t)" "Suc (slvl S (m_root t)) \<le> card (leaves t)"
    "Suc (slvl S (m_root t)) < cache_pos t"
    unfolding lv by linarith+
qed

section \<open>The descent\<close>

lemma sk_at:
  assumes "view_ok S i nd" "node_ok n i nd"
  shows "length (sk S i) = vals_size nd" "length (sc S i) = childs_size nd"
    "\<And>a. a < vals_size nd \<Longrightarrow> a < length (vals nd) \<and> fst (vals nd ! a) = sk S i ! a"
    "\<And>a. a < childs_size nd \<Longrightarrow> a < length (childs nd) \<and> childs nd ! a = sc S i ! a"
  using assms by (auto simp: view_ok_def node_ok_def kvs_def chs_def)

lemma lb_key:
  assumes "view_ok S i nd"
  shows "key_lower_bound nd key = lower_bound (\<lambda>x. x < key) (sk S i)"
  using assms by (simp add: key_lower_bound_def view_ok_def lower_bound_def takeWhile_map comp_def)

text \<open>Where a key between the first and the last separator goes.\<close>

lemma lower_bound_between:
  fixes ks :: "'k::linorder list"
  assumes "sorted_wrt (<) ks" and "ks \<noteq> []" and "\<not> key < ks ! 0" and "\<not> ks ! (length ks - 1) \<le> key" and d: "d = lower_bound (\<lambda>x. x < key) ks"
  shows "(ks ! d = key \<and> Suc d < length ks \<and> key < ks ! Suc d) \<or> (0 < d \<and> d < length ks \<and> ks ! (d - 1) < key \<and> key < ks ! d)"
proof -
  have dl: "d < length ks"
  proof (rule ccontr)
    assume "\<not> d < length ks"
    then have "length ks - 1 < d" using assms(2) by (cases ks) auto
    from lower_bound_before [OF this [unfolded d]] assms(4) show False by simp
  qed
  then have at: "\<not> ks ! d < key" using lower_bound_at [of "\<lambda>x. x < key" ks] d by simp
  show ?thesis
  proof (cases "ks ! d = key")
    case True
    then have "Suc d < length ks" using assms(4) dl by (metis Suc_lessI diff_Suc_1 order_refl)
    then show ?thesis using True sorted_wrt_nth_less [OF assms(1), of d "Suc d"] by simp
  next
    case False
    then have "key < ks ! d" "0 < d" using at assms(3) by (auto intro: gr0I)
    then show ?thesis using dl lower_bound_before [of "d - 1" "\<lambda>x. x < key" ks] d by simp
  qed
qed

text \<open>One step of the descent moves to the child whose interval contains the key.\<close>

lemma descend_step:
  assumes inv: "btree_inv n ov t S" and i: "i \<in> used t" "\<not> slf S i" and rng: "in_rng S i key"
  obtains j where "j < length (sc S i)" "in_rng S (sc S i ! j) key"
    "\<And>fuel. iner_find (Suc fuel) t key i = iner_find fuel t key (sc S i ! j)"
proof -
  note b = btree_invD [OF inv]
  have K: "keys_ok n ov S i" by (rule shape_invD(7) [OF b(2) i(1)])
  define nd where "nd = cache t ! i"
  have nd: "view_ok S i nd" "node_ok n i nd" using b(5,6) [OF i(1)] by (simp_all add: nd_def)
  note z = sk_at [OF nd]
  let ?m = "vals_size nd" and ?d = "lower_bound (\<lambda>x. x < key) (sk S i)"
  have lf: "\<not> is_leaf nd" using i(2) nd(1) by (simp add: view_ok_def)
  have m: "0 < ?m" "childs_size nd = Suc ?m"
    using keys_okD(5,6) [OF K i(2)] z(1,2) by (cases "sk S i"; simp)+
  have gn: "getNode t i = Inr nd" using b(7) [OF i(1)] by (simp add: getNode_def nd_def)
  note cr = child_rng [OF b(2) i, unfolded z(1,2)]
  consider (lo) "key < sk S i ! 0" | (hi) "\<not> key < sk S i ! 0" "sk S i ! (?m - 1) \<le> key"
    | (mid) "\<not> key < sk S i ! 0" "\<not> sk S i ! (?m - 1) \<le> key" by blast
  then show ?thesis
  proof cases
    case lo
    have "iner_find (Suc fuel) t key i = iner_find fuel t key (sc S i ! 0)" for fuel
      using gn lf m z(3) [of 0] z(4) [of 0] lo by simp
    moreover have "in_rng S (sc S i ! 0) key" using cr [of 0 key] m lo rng by (simp add: in_rng_def)
    ultimately show ?thesis using that [of 0] m z(2) by simp
  next
    case hi
    have "iner_find (Suc fuel) t key i = iner_find fuel t key (sc S i ! ?m)" for fuel
      using gn lf m z(3) [of 0] z(3) [of "?m - 1"] z(4) [of ?m] hi by simp
    moreover have "in_rng S (sc S i ! ?m) key" using cr [of ?m key] m hi rng by (simp add: in_rng_def)
    ultimately show ?thesis using that [of ?m] m z(2) by simp
  next
    case mid
    have "sk S i \<noteq> []" using m(1) z(1) by auto
    from lower_bound_between [OF keys_okD(1) [OF K] this _ _ refl, of key, unfolded z(1), OF mid]
    consider (eq) "sk S i ! ?d = key" "Suc ?d < ?m" "key < sk S i ! Suc ?d"
      | (lt) "0 < ?d" "?d < ?m" "sk S i ! (?d - 1) < key" "key < sk S i ! ?d" by metis
    then show ?thesis
    proof cases
      case eq
      have "iner_find (Suc fuel) t key i = iner_find fuel t key (sc S i ! Suc ?d)" for fuel
        using gn lf m z(3) [of 0] z(3) [of "?m - 1"] z(3) [of ?d] z(3) [of "Suc ?d"] z(4) [of "Suc ?d"]
          mid eq by (simp add: lb_key [OF nd(1)] Let_def)
      moreover have "in_rng S (sc S i ! Suc ?d) key" using cr [of "Suc ?d" key] m eq by simp
      ultimately show ?thesis using that [of "Suc ?d"] m z(2) eq(2) by simp
    next
      case lt
      have ne: "sk S i ! ?d \<noteq> key" using lt(4) by simp
      have "iner_find (Suc fuel) t key i = iner_find fuel t key (sc S i ! ?d)" for fuel
        using gn lf m z(3) [of 0] z(3) [of "?m - 1"] z(3) [of ?d] z(4) [of ?d]
          mid lt ne by (simp add: lb_key [OF nd(1)] Let_def)
      moreover have "in_rng S (sc S i ! ?d) key" using cr [of ?d key] m lt by (simp add: less_imp_le)
      ultimately show ?thesis using that [of ?d] m z(2) lt(2) by simp
    qed
  qed
qed

text \<open>The value the search reports for a leaf: that of the first key not below the one sought.\<close>

definition leaf_hit :: "('k::linorder, 'v) node \<Rightarrow> 'k \<Rightarrow> 'v option" where
  "leaf_hit nd key =
     (let d = key_lower_bound nd key in if d < length (kvs nd) then Some (snd (kvs nd ! d)) else None)"

lemma iner_find_ok:
  assumes inv: "btree_inv n ov t S" and "i \<in> used t" "in_rng S i key" "slvl S i < fuel"
  shows "\<exists>leaf \<in> leaves t. in_rng S leaf key \<and>
    iner_find fuel t key i = Inr (Some (leaf, leaf_hit (cache t ! leaf) key))"
  using assms(2-)
proof (induction fuel arbitrary: i)
  case (Suc fuel)
  note b = btree_invD [OF inv]
  show ?case
  proof (cases "slf S i")
    case True
    have nd: "view_ok S i (cache t ! i)" "node_ok n i (cache t ! i)" using b(5,6) [OF Suc.prems(1)] by simp_all
    have d: "key_lower_bound (cache t ! i) key \<le> vals_size (cache t ! i)"
      using nd(2) by (intro key_lower_bound_le) (simp add: node_ok_def)
    have "iner_find (Suc fuel) t key i = Inr (Some (i, leaf_hit (cache t ! i) key))"
      using b(7) [OF Suc.prems(1)] nd True d
      by (auto simp: getNode_def view_ok_def leaf_hit_def Let_def kvs_def node_ok_def min_def)
    moreover have "i \<in> leaves t" using leaves_view [OF inv] True Suc.prems(1) by simp
    ultimately show ?thesis using Suc.prems(2) by blast
  next
    case False
    from descend_step [OF inv Suc.prems(1) False Suc.prems(2)] obtain j where
      j: "j < length (sc S i)" "in_rng S (sc S i ! j) key"
        "iner_find (Suc fuel) t key i = iner_find fuel t key (sc S i ! j)" by metis
    have "sc S i ! j \<in> used t" "Suc (slvl S (sc S i ! j)) = slvl S i"
      using shape_invD(8) [OF b(2) Suc.prems(1) j(1)] by (auto simp: link_ok_def Let_def)
    with Suc.IH [of "sc S i ! j"] j Suc.prems(3) show ?thesis by simp
  qed
qed simp

lemma descent_from_root:
  assumes inv: "btree_inv n ov t S"
  obtains leaf where "leaf \<in> leaves t" "in_rng S leaf key"
    "iner_find (length (cache t)) t key (m_root t) = Inr (Some (leaf, leaf_hit (cache t ! leaf) key))"
proof -
  note b = btree_invD [OF inv]
  have r: "m_root t \<in> used t" "in_rng S (m_root t) key"
    using shape_invD(3,5,6) [OF b(2)] by (simp_all add: in_rng_def)
  have "slvl S (m_root t) < length (cache t)" using cells_by_leaves(3) [OF inv] b(3) by linarith
  from iner_find_ok [OF inv r this] that show ?thesis by blast
qed

section \<open>Insertion and lookup\<close>

definition keys_of :: "('k \<times> 'v) set \<Rightarrow> 'k set" where
  "keys_of m = fst ` m"

lemma leaf_pairs:
  assumes inv: "btree_inv n ov t S" and l: "l \<in> leaves t" and rng: "in_rng S l k"
  shows "(k, v) \<in> contents t \<longleftrightarrow> (k, v) \<in> set (kvs (cache t ! l))"
proof
  note b = btree_invD [OF inv]
  assume "(k, v) \<in> contents t"
  then obtain i where i: "i \<in> used t" "is_leaf (cache t ! i)" "(k, v) \<in> set (kvs (cache t ! i))"
    by (auto simp: contents_def pairs_of_def)
  then have "k \<in> set (sk S i)" using b(6) [OF i(1)] by (force simp: view_ok_def)
  then have "in_rng S i k" using keys_okD(2) [OF shape_invD(7) [OF b(2) i(1)]] by blast
  moreover have "slvl S i = slvl S l"
  proof -
    have "slf S i" "slf S l" "l \<in> used t"
      using i(2) b(6) [OF i(1)] l leaves_view [OF inv] by (auto simp: view_ok_def)
    then show ?thesis
      using keys_okD(3) [OF shape_invD(7) [OF b(2) i(1)]] keys_okD(3) [OF shape_invD(7) [OF b(2) \<open>l \<in> used t\<close>]]
      by simp
  qed
  moreover have "l \<in> used t" using l leaves_used by blast
  ultimately have "i = l" using level_unique [OF b(2) i(1) _ _ _ rng] by blast
  then show "(k, v) \<in> set (kvs (cache t ! l))" using i(3) by simp
next
  assume "(k, v) \<in> set (kvs (cache t ! l))"
  then show "(k, v) \<in> contents t" using l by (auto simp: contents_def pairs_of_def leaves_def)
qed

lemma leaf_insert:
  assumes inv: "btree_inv n {} t S" and l: "l \<in> leaves t" "in_rng S l k" and new: "k \<notin> keys_of (contents t)"
  obtains nd' S' where "insertValue (cache t ! l) k v = Inr nd'"
    "btree_inv n {l} (upd_node l (\<lambda>_. nd') t) S'" "slvl S' = slvl S" "slf S' = slf S"
    "length (sk S' l) = Suc (vals_size (cache t ! l))"
    "contents (upd_node l (\<lambda>_. nd') t) = insert (k, v) (contents t)"
    "leaves (upd_node l (\<lambda>_. nd') t) = leaves t"
proof -
  note b = btree_invD [OF inv]
  have lU: "l \<in> used t" and lf: "slf S l" using l(1) leaves_view [OF inv] by auto
  define nd where "nd = cache t ! l"
  have nd: "view_ok S l nd" "node_ok n l nd" using b(5,6) [OF lU] by (simp_all add: nd_def)
  note K = shape_invD(7) [OF b(2) lU]
  have sz: "vals_size nd \<le> 2 * n - 1" using sk_at(1) [OF nd] K lf by (simp add: keys_ok_def)
  then have "vals_size nd < length (vals nd)" using nd(2) b(1) by (simp add: node_ok_def)
  from insertValue_used [OF this, of k v] obtain a where
    a: "insertValue nd k v = Inr (nd\<lparr>vals_size := Suc (vals_size nd), vals := a\<rparr>)"
      "length a = length (vals nd)"
      "take (Suc (vals_size nd)) a = insert_at (key_lower_bound nd k) (k, v) (kvs nd)" by blast
  define nd' where "nd' = nd\<lparr>vals_size := Suc (vals_size nd), vals := a\<rparr>"
  let ?d = "lower_bound (\<lambda>x. x < k) (sk S l)" and ?t = "upd_node l (\<lambda>_. nd') t"
  let ?S = "leaf_shape S l ?d k"
  have kv: "kvs nd' = insert_at (key_lower_bound nd k) (k, v) (kvs nd)" using a(3) by (simp add: nd'_def kvs_def)
  have dl: "key_lower_bound nd k \<le> length (kvs nd)" by (simp add: key_lower_bound_def lower_bound_le)
  have look: "cache ?t ! x = (if x = l then nd' else cache t ! x)" for x
    using cache_upd_node [OF b(7) [OF lU]] by simp
  have nk: "k \<notin> set (sk S l)"
  proof
    assume "k \<in> set (sk S l)"
    then obtain w where "(k, w) \<in> set (kvs nd)" using nd(1) by (auto simp: view_ok_def)
    then have "(k, w) \<in> contents t" using leaf_pairs [OF inv l] by (simp add: nd_def)
    with new show False by (force simp: keys_of_def)
  qed
  have "shape_inv n {l} (used t) (m_root t) ?S"
    by (rule leaf_inv [OF b(2) _ lU lf l(2) nk refl]) (use b(1) in simp)
  moreover have "node_ok n l nd'" using nd(2) a(2) sz b(1) by (auto simp: node_ok_def nd'_def)
  moreover have "view_ok ?S l nd'"
    using nd(1) dl by (auto simp: view_ok_def kv leaf_shape_def map_insert_at lb_key [OF nd(1)])
      (auto simp: nd'_def chs_def)
  moreover have "view_ok ?S x (cache t ! x)" if "x \<in> used t" "x \<noteq> l" for x
    using b(6) [OF that(1)] that(2) by (simp add: view_ok_def leaf_shape_def)
  moreover have "used ?t = used t" by (simp add: used_def)
  moreover have "l \<noteq> x" if "cache_pos t \<le> x" for x using that lU by (auto simp: used_def)
  ultimately have inv': "btree_inv n {l} ?t ?S"
    using b by (auto simp: btree_inv_def look)
  have lfl: "is_leaf nd" "is_leaf nd'" using l(1) by (simp_all add: leaves_def nd_def nd'_def)
  have "contents ?t = insert (k, v) (contents t)"
  proof -
    have "pairs_of (used t - {l}) ?t = pairs_of (used t - {l}) t" by (rule pairs_of_cong) (simp add: look)
    then show ?thesis
      using pairs_of_remove [OF lU, of t] pairs_of_remove [OF lU, of ?t] lfl dl \<open>used ?t = used t\<close>
      by (simp add: contents_def look kv set_insert_at nd_def)
  qed
  moreover have "leaves ?t = leaves t" using lfl \<open>used ?t = used t\<close> by (auto simp: leaves_def look nd_def)
  moreover have "length (sk ?S l) = Suc (vals_size nd)"
    using sk_at(1) [OF nd] lower_bound_le [of "\<lambda>x. x < k" "sk S l"] by (simp add: leaf_shape_def)
  ultimately show ?thesis using that [OF _ inv'] a(1) by (simp add: nd_def nd'_def leaf_shape_def)
qed

text \<open>The invariant without its ghost view.\<close>

definition btree_ok :: "nat \<Rightarrow> ('k::linorder, 'v) btree \<Rightarrow> bool" where
  "btree_ok n t \<longleftrightarrow> (\<exists>S. btree_inv n {} t S)"

text \<open>How many further insertions are sure to find cells.\<close>

definition spare :: "('k, 'v) btree \<Rightarrow> nat" where
  "spare t = (length (cache t) + 2) div 3 - card (leaves t)"

lemma insert_step:
  assumes ok: "btree_ok n t" and room: "0 < spare t" and new: "k \<notin> keys_of (contents t)"
  shows "\<exists>t'. btree_insert n t k v = Inr t' \<and> btree_ok n t' \<and>
    contents t' = insert (k, v) (contents t) \<and> spare t \<le> Suc (spare t') \<and>
    cache_size t' = cache_size t"
proof -
  from ok obtain S where inv: "btree_inv n {} t S" by (auto simp: btree_ok_def)
  note b = btree_invD [OF inv] and cells = cells_by_leaves [OF inv]
  from descent_from_root [OF inv, of k] obtain l where
    l: "l \<in> leaves t" "in_rng S l k"
    and f: "iner_find (length (cache t)) t k (m_root t) = Inr (Some (l, leaf_hit (cache t ! l) k))" by blast
  from leaf_insert [OF inv l new, of v] obtain nd' S' where
    i: "insertValue (cache t ! l) k v = Inr nd'" "btree_inv n {l} (upd_node l (\<lambda>_. nd') t) S'"
      "slvl S' = slvl S" "slf S' = slf S" "length (sk S' l) = Suc (vals_size (cache t ! l))"
      "contents (upd_node l (\<lambda>_. nd') t) = insert (k, v) (contents t)"
      "leaves (upd_node l (\<lambda>_. nd') t) = leaves t" .
  have lU: "l \<in> used t" and lf: "slf S l" using l(1) leaves_view [OF inv] by auto
  let ?t = "upd_node l (\<lambda>_. nd') t"
  have e: "btree_insert n t k v = (if \<not> isFull n (cache t ! l) then Inr ?t
      else split_node (length (cache t)) n ?t l)"
    using f i(1) b(7) [OF lU] by (simp add: btree_insert_def getNode_def)
  have lU': "l \<in> used ?t" using lU by (simp add: used_def)
  have sz: "vals_size (cache t ! l) \<le> 2 * n - 1"
    using sk_at(1) [OF b(6) [OF lU] b(5) [OF lU]] shape_invD(7) [OF b(2) lU] lf by (simp add: keys_ok_def)
  show ?thesis
  proof (cases "isFull n (cache t ! l)")
    case False
    then have "length (sk S' l) \<le> 2 * n - 1" using i(5) b(1) by (simp add: isFull_def)
    then have "keys_ok n {} S' l"
      using shape_invD(7) [OF btree_invD(2) [OF i(2)] lU'] lf i(4) by (simp add: keys_ok_def)
    moreover have "keys_ok n {} S' x" if "x \<in> used ?t" "x \<noteq> l" for x
      using shape_invD(7) [OF btree_invD(2) [OF i(2)] that(1)] that(2) by (auto intro: keys_ok_other)
    ultimately have "shape_inv n {} (used ?t) (m_root ?t) S'"
      using btree_invD(2) [OF i(2)] unfolding shape_inv_def by metis
    then have "btree_ok n ?t" using i(2) by (auto simp: btree_ok_def btree_inv_def)
    then show ?thesis using e False i(6,7) by (simp add: spare_def)
  next
    case True
    then have "overflows n ?t S' l" using i(2,4,5) lU' lf sz b(1) by (auto simp: overflows_def isFull_def)
    moreover have "slvl S' (m_root ?t) - slvl S' l < length (cache t)"
      "cache_pos ?t + (slvl S' (m_root ?t) - slvl S' l) + 2 \<le> length (cache ?t)"
      using i(3) cells room b(3) by (simp_all add: spare_def)
    ultimately obtain t' S'' where
      "split_node (length (cache t)) n ?t l = Inr t'" "btree_inv n {} t' S''" "same_store ?t t'"
      "card (leaves t') = card (leaves ?t) + (if slf S' l then 1 else 0)"
      using split_node_ok by blast
    then show ?thesis using e True i(6,7) by (auto simp: btree_ok_def same_store_def spare_def)
  qed
qed

lemma find_step:
  assumes ok: "btree_ok n t"
  obtains l where "l \<in> leaves t" "find_node t k = Inr l"
    "btree_find z t k = Inr (case leaf_hit (cache t ! l) k of Some v \<Rightarrow> v | None \<Rightarrow> z)"
    "sorted_wrt (<) (map fst (kvs (cache t ! l)))"
    "\<And>v. (k, v) \<in> contents t \<longleftrightarrow> (k, v) \<in> set (kvs (cache t ! l))"
proof -
  from ok obtain S where inv: "btree_inv n {} t S" by (auto simp: btree_ok_def)
  from descent_from_root [OF inv, of k] obtain l where
    l: "l \<in> leaves t" "in_rng S l k"
    and f: "iner_find (length (cache t)) t k (m_root t) = Inr (Some (l, leaf_hit (cache t ! l) k))" by blast
  have lU: "l \<in> used t" using l leaves_used by blast
  note b = btree_invD [OF inv]
  have "sorted_wrt (<) (map fst (kvs (cache t ! l)))"
    using keys_okD(1) [OF shape_invD(7) [OF b(2) lU]] b(6) [OF lU] by (simp add: view_ok_def)
  with f leaf_pairs [OF inv l] l(1) show ?thesis
    by (intro that) (auto simp: find_node_def btree_find_def)
qed

lemma leaf_hit_stored:
  assumes "sorted_wrt (<) (map fst (kvs nd))" and "(k, v) \<in> set (kvs nd)"
  shows "leaf_hit nd k = Some v"
proof -
  from assms(2) obtain d where d: "d < length (kvs nd)" "kvs nd ! d = (k, v)" by (auto simp: in_set_conv_nth)
  then have "key_lower_bound nd k = d" using key_lower_bound_mem [OF assms(1) d(1)] by simp
  with d show ?thesis by (simp add: leaf_hit_def)
qed

section \<open>The interface the index uses\<close>

text \<open>
  A keyed store: \<open>ins\<close> adds a pair under a new key as long as there is spare room, and
  \<open>look\<close> returns what is stored.
\<close>

locale keyed_store =
  fixes ok :: "'t \<Rightarrow> bool" and spare_room :: "'t \<Rightarrow> nat" and pairs :: "'t \<Rightarrow> ('k \<times> 'v) set"
    and ins :: "'t \<Rightarrow> 'k \<Rightarrow> 'v \<Rightarrow> 't result" and look :: "'t \<Rightarrow> 'k \<Rightarrow> 'v result"
  assumes ins_law: "ok t \<Longrightarrow> 0 < spare_room t \<Longrightarrow> k \<notin> keys_of (pairs t) \<Longrightarrow>
      \<exists>t'. ins t k v = Inr t' \<and> ok t' \<and> pairs t' = insert (k, v) (pairs t) \<and>
           spare_room t \<le> Suc (spare_room t')"
    and look_law: "ok t \<Longrightarrow> (k, v) \<in> pairs t \<Longrightarrow> look t k = Inr v"
begin

lemma bulk_insert:
  assumes "ok t" and "length xs \<le> spare_room t" and "distinct (map fst xs)"
    and "fst ` set xs \<inter> keys_of (pairs t) = {}"
  shows "\<exists>t'. fold_r (\<lambda>t (k, v). ins t k v) t xs = Inr t' \<and> ok t' \<and> pairs t' = set xs \<union> pairs t \<and>
    spare_room t \<le> spare_room t' + length xs"
  using assms
proof (induction xs arbitrary: t)
  case (Cons x xs)
  obtain k v where x: "x = (k, v)" by (cases x)
  from Cons.prems x obtain t1 where
    t1: "ins t k v = Inr t1" "ok t1" "pairs t1 = insert (k, v) (pairs t)" "spare_room t \<le> Suc (spare_room t1)"
    using ins_law [of t k v] by auto
  have "fst ` set xs \<inter> keys_of (pairs t1) = {}"
    using Cons.prems(3,4) x t1(3) by (auto simp: keys_of_def)
  with Cons.IH [OF t1(2)] Cons.prems x t1(3,4) obtain t2 where
    "fold_r (\<lambda>t (k, v). ins t k v) t1 xs = Inr t2" "ok t2" "pairs t2 = set xs \<union> pairs t1"
    "spare_room t1 \<le> spare_room t2 + length xs" by auto
  then show ?case using x t1(1,3,4) by auto
qed simp

lemma bulk_look:
  assumes "ok t" and "length xs \<le> spare_room t" and "distinct (map fst xs)"
    and "fst ` set xs \<inter> keys_of (pairs t) = {}"
  shows "\<exists>t'. fold_r (\<lambda>t (k, v). ins t k v) t xs = Inr t' \<and> (\<forall>(k, v) \<in> set xs. look t' k = Inr v)"
  using bulk_insert [OF assms] look_law by fastforce

end

lemma find_stored:
  assumes "btree_ok n t" and "(k, v) \<in> contents t"
  shows "btree_find z t k = Inr v"
  using find_step [OF assms(1), of k z] assms(2) leaf_hit_stored by (metis option.simps(5))

text \<open>The tree provides it; the size of its array is part of the invariant.\<close>

interpretation tree: keyed_store "\<lambda>t. btree_ok n t \<and> cache_size t = m" spare contents "btree_insert n" "btree_find z"
  for n m z
  by unfold_locales (metis insert_step, metis find_stored)

lemma insert_all_fold: "insert_all n t xs = fold_r (\<lambda>t (k, v). btree_insert n t k v) t xs"
  by (induction xs arbitrary: t) auto

section \<open>A fresh tree\<close>

text \<open>The array of a new index file, as \<^verbatim>\<open>Index::setFileName\<close> prepares it, seen as a tree.\<close>

definition fresh_tree :: "nat \<Rightarrow> 'k \<times> 'v \<Rightarrow> nat \<Rightarrow> ('k, 'v) btree" where
  "fresh_tree n kv0 m = make_btree (init_cache (replicate m (new_node n kv0))) m 1 2"

lemma fresh_tree_simps:
  assumes "2 \<le> m"
  shows "length (cache (fresh_tree n kv0 m)) = m" "m_root (fresh_tree n kv0 m) = 1"
    "cache_pos (fresh_tree n kv0 m) = 2" "cache_size (fresh_tree n kv0 m) = m"
    "used (fresh_tree n kv0 m) = {1}"
    "cache (fresh_tree n kv0 m) ! 1 = (new_node n kv0)\<lparr>is_leaf := True, node_id := 1\<rparr>"
    "\<And>i. i \<noteq> 1 \<Longrightarrow> i < m \<Longrightarrow> cache (fresh_tree n kv0 m) ! i = new_node n kv0"
  using assms by (auto simp: fresh_tree_def make_btree_def init_cache_def used_def)

lemma fresh_tree_ok:
  assumes "2 \<le> n" "2 \<le> m"
  shows "btree_ok n (fresh_tree n kv0 m)" "contents (fresh_tree n kv0 m) = {}"
    "spare (fresh_tree n kv0 m) = (m + 2) div 3 - 1"
proof -
  note f = fresh_tree_simps [OF assms(2), where n = n and ?kv0.0 = kv0]
  define S :: "'a shape" where "S = \<lparr>sk = (\<lambda>_. []), sc = (\<lambda>_. []), slf = (\<lambda>_. True), spar = (\<lambda>_. 0),
    snx = (\<lambda>_. 0), slo = (\<lambda>_. None), shi = (\<lambda>_. None), slvl = (\<lambda>_. 0)\<rparr>"
  have "shape_inv n {} {1} 1 S"
    by (simp add: shape_inv_def S_def keys_ok_def par_ok_def next_ok_def)
  then have "btree_inv n {} (fresh_tree n kv0 m) S"
    using assms f by (auto simp: btree_inv_def node_ok_def view_ok_def blank_def new_node_def S_def kvs_def chs_def)
  then show "btree_ok n (fresh_tree n kv0 m)" by (auto simp: btree_ok_def)
  show "contents (fresh_tree n kv0 m) = {}"
    using f by (simp add: contents_def pairs_of_def kvs_def new_node_def)
  have "leaves (fresh_tree n kv0 m) = {1}" using f by (auto simp: leaves_def)
  then show "spare (fresh_tree n kv0 m) = (m + 2) div 3 - 1" using f by (simp add: spare_def)
qed

section \<open>The chain of leaves\<close>

text \<open>Collecting the pairs of the leaves from \<open>i\<close> on along the \<^verbatim>\<open>next\<close> pointers.\<close>

fun leaf_walk :: "nat \<Rightarrow> ('k, 'v) btree \<Rightarrow> nat \<Rightarrow> ('k \<times> 'v) list result" where
  "leaf_walk 0 t i = Inl No_fuel"
| "leaf_walk (Suc fuel) t i = bind_r (getNode t i) (\<lambda>nd.
     if nxt nd = 0 then Inr (kvs nd)
     else bind_r (leaf_walk fuel t (nxt nd)) (\<lambda>rest. Inr (kvs nd @ rest)))"

lemma interval_strict:
  assumes inv: "shape_inv n ov A r S" and "i \<in> A" "slo S i = Some a" "shi S i = Some b"
  shows "a < b"
proof -
  have "i \<noteq> r" using shape_invD(5) [OF inv] assms(3) by auto
  from parent_index [OF inv assms(2) this] obtain j where
    j: "j < length (sc S (spar S i))" "sc S (spar S i) ! j = i" "spar S i \<in> A"
      "\<not> slf S (spar S i)" "link_ok A S (spar S i) j" by metis
  define p where "p = spar S i"
  note K = shape_invD(7) [OF inv j(3), folded p_def]
  have lo: "child_lo S p j = Some a" and hi: "child_hi S p j = Some b"
    using j(2,5) assms(3,4) by (simp_all add: link_ok_def Let_def p_def)
  have len: "j \<le> length (sk S p)" using keys_okD(6) [OF K] j(1,4) by (simp add: p_def)
  have bnd: "above (slo S p) x" "below (shi S p) x" "slo S p \<noteq> Some x" if "x \<in> set (sk S p)" for x
    using keys_okD(2,7) [OF K] that j(4) by (auto simp: in_rng_def p_def)
  have ne: "sk S p \<noteq> []" using keys_okD(5) [OF K] j(4) by (simp add: p_def)
  consider "j = 0" | "0 < j" "j = length (sk S p)" | "0 < j" "j < length (sk S p)" using len by linarith
  then show ?thesis
  proof cases
    case 1
    then have "b = sk S p ! 0" "slo S p = Some a" using lo hi ne by (auto simp: child_lo_def child_hi_def)
    then show ?thesis using bnd(1,3) [of b] ne by (auto simp: less_le)
  next
    case 2
    then have "a = sk S p ! (j - 1)" "shi S p = Some b" using lo hi by (auto simp: child_lo_def child_hi_def)
    then show ?thesis using bnd(2) [of a] 2 by auto
  next
    case 3
    then show ?thesis using lo hi sorted_wrt_nth_less [OF keys_okD(1) [OF K], of "j - 1" j]
      by (auto simp: child_lo_def child_hi_def)
  qed
qed

definition later :: "'k::linorder shape \<Rightarrow> ('k, 'v) btree \<Rightarrow> nat \<Rightarrow> nat set" where
  "later S t l = {i \<in> leaves t. \<exists>x. slo S i = Some x \<and> above (slo S l) x \<and> slo S l \<noteq> Some x}"

lemma next_leaf:
  assumes inv: "btree_inv n ov t S" and l: "l \<in> leaves t" and nx: "nxt (cache t ! l) \<noteq> 0"
  shows "nxt (cache t ! l) \<in> leaves t" "slo S (nxt (cache t ! l)) = shi S l" "shi S l \<noteq> None"
    "card (later S t (nxt (cache t ! l))) < card (later S t l)"
    "above (shi S l) k \<Longrightarrow> above (slo S l) k"
proof -
  note b = btree_invD [OF inv]
  have lU: "l \<in> used t" "slf S l" using l leaves_view [OF inv] by auto
  let ?m = "nxt (cache t ! l)"
  have "snx S l = ?m" using b(6) [OF lU(1)] by (simp add: view_ok_def)
  with shape_invD(10) [OF b(2) lU(1)] nx have m: "?m \<in> used t" "slvl S ?m = slvl S l" "shi S l \<noteq> None"
    and lo: "slo S ?m = shi S l" by (auto simp: next_ok_def)
  have "slf S ?m" using keys_okD(3) [OF shape_invD(7) [OF b(2) m(1)]] keys_okD(3) [OF shape_invD(7) [OF b(2) lU(1)]]
      lU(2) m(2) by simp
  then show mL: "?m \<in> leaves t" using m(1) leaves_view [OF inv] by simp
  show "slo S ?m = shi S l" "shi S l \<noteq> None" using lo m(3) .
  then obtain h where h: "shi S l = Some h" by blast
  have up: "above (slo S l) x" "slo S l \<noteq> Some x" if "h \<le> x" for x
    using interval_strict [OF b(2) lU(1)] h that by (cases "slo S l"; force)+
  then show "above (shi S l) k \<Longrightarrow> above (slo S l) k" using h by simp
  have "?m \<in> later S t l" "?m \<notin> later S t ?m" "later S t ?m \<subseteq> later S t l"
    using up lo h mL by (auto simp: later_def)
  then have "later S t ?m \<subset> later S t l" by blast
  then show "card (later S t ?m) < card (later S t l)"
    by (rule psubset_card_mono [rotated]) (simp add: later_def leaves_used)
qed

lemma leaf_walk_ok:
  assumes inv: "btree_inv n ov t S" and "l \<in> leaves t" and "card (later S t l) < fuel"
  shows "\<exists>xs. leaf_walk fuel t l = Inr xs \<and> sorted_wrt (<) (map fst xs) \<and>
    set xs = {(k, v) \<in> contents t. above (slo S l) k}"
  using assms(2-)
proof (induction fuel arbitrary: l)
  case (Suc fuel)
  note b = btree_invD [OF inv]
  have lU: "l \<in> used t" using Suc.prems(1) leaves_used by blast
  define nd where "nd = cache t ! l"
  have gn: "getNode t l = Inr nd" using b(7) [OF lU] by (simp add: getNode_def nd_def)
  have sk: "sk S l = map fst (kvs nd)" "snx S l = nxt nd" using b(6) [OF lU] by (simp_all add: view_ok_def nd_def)
  note K = shape_invD(7) [OF b(2) lU]
  have srt: "sorted_wrt (<) (map fst (kvs nd))" using keys_okD(1) [OF K] sk(1) by simp
  have own: "in_rng S l k" "(k, v) \<in> contents t" if "(k, v) \<in> set (kvs nd)" for k v
  proof -
    have "k \<in> set (sk S l)" using that sk(1) by force
    then show rng: "in_rng S l k" using keys_okD(2) [OF K] by blast
    show "(k, v) \<in> contents t" using leaf_pairs [OF inv Suc.prems(1) rng] that by (simp add: nd_def)
  qed
  have mem: "(k, v) \<in> set (kvs nd)" if "(k, v) \<in> contents t" "in_rng S l k" for k v
    using leaf_pairs [OF inv Suc.prems(1) that(2)] that(1) by (simp add: nd_def)
  show ?case
  proof (cases "nxt nd = 0")
    case True
    have hi: "shi S l = None" using shape_invD(10) [OF b(2) lU] True sk(2) by (simp add: next_ok_def)
    have "(k, v) \<in> set (kvs nd) \<longleftrightarrow> (k, v) \<in> contents t \<and> above (slo S l) k" for k v
      using own [of k v] mem [of k v] hi by (auto simp: in_rng_def)
    then have "set (kvs nd) = {(k, v) \<in> contents t. above (slo S l) k}" by auto
    then show ?thesis using True gn srt by simp
  next
    case False
    note nx = next_leaf [OF inv Suc.prems(1), folded nd_def, OF False]
    from Suc.IH [OF nx(1)] nx(4) Suc.prems(2) obtain xs where
      xs: "leaf_walk fuel t (nxt nd) = Inr xs" "sorted_wrt (<) (map fst xs)"
        "set xs = {(k, v) \<in> contents t. above (slo S (nxt nd)) k}" by auto
    obtain h where h: "shi S l = Some h" using nx(3) by blast
    have "a < c" if "(a, v) \<in> set (kvs nd)" "(c, w) \<in> set xs" for a v c w
      using own(1) [OF that(1)] that(2) xs(3) nx(2) h by (auto simp: in_rng_def)
    then have "sorted_wrt (<) (map fst (kvs nd @ xs))" using srt xs(2) by (auto simp: sorted_wrt_append)
    moreover have "set (kvs nd @ xs) = {(k, v) \<in> contents t. above (slo S l) k}"
    proof -
      have "(k, v) \<in> set (kvs nd @ xs) \<longleftrightarrow> (k, v) \<in> contents t \<and> above (slo S l) k" for k v
        using own [of k v] mem [of k v] xs(3) nx(2,5) h by (cases "k < h") (auto simp: in_rng_def)
      then show ?thesis by auto
    qed
    ultimately show ?thesis using gn False xs(1) by simp
  qed
qed simp

section \<open>Properties\<close>

text \<open>
  C10. \<^verbatim>\<open>BTree::insert\<close> of a key that is not yet in a well-formed tree with spare cells returns (no
  assertion fails, no cell outside of the array is touched), keeps the tree well-formed, and the tree then
  holds exactly the pairs it held and the new one.
\<close>

theorem btree_insert_correct:
  assumes "btree_ok n t" and "0 < spare t" and "k \<notin> keys_of (contents t)"
  shows "\<exists>t'. btree_insert n t k v = Inr t' \<and> btree_ok n t' \<and> contents t' = insert (k, v) (contents t)"
  using tree.ins_law [of n t "cache_size t" k v] assms by blast

theorem btree_insert_correct_witness:
  "\<exists>t'. btree_insert 2 (fresh_tree 2 (0, 0) 8) (5::nat) (7::nat) = Inr t' \<and> btree_ok 2 t' \<and> contents t' = {(5, 7)}"
  using btree_insert_correct [of 2 "fresh_tree 2 (0, 0) 8" "5::nat" "7::nat"]
    fresh_tree_ok [of 2 8 "(0::nat, 0::nat)"]
  by (simp add: keys_of_def)

text \<open>
  C18. Filling a fresh tree of \<open>m\<close> cells with at most \<open>(m - 1) div 3\<close> pairs with distinct
  keys, in any order, succeeds; the tree is well-formed, holds exactly these pairs, and \<^verbatim>\<open>BTree::find\<close>
  returns the value stored under each of the keys.
\<close>

theorem btree_fill_and_find:
  assumes "2 \<le> n" and "distinct (map fst xs)" and "3 * length xs + 1 \<le> m" and "2 \<le> m"
  shows "\<exists>t. insert_all n (fresh_tree n kv0 m) xs = Inr t \<and> btree_ok n t \<and> contents t = set xs \<and>
    (\<forall>(k, v) \<in> set xs. btree_find z t k = Inr v)"
proof -
  note f = fresh_tree_ok [OF assms(1,4), of kv0]
  have len: "length xs \<le> spare (fresh_tree n kv0 m)" using f(3) assms(3) by simp
  have new: "fst ` set xs \<inter> keys_of (contents (fresh_tree n kv0 m)) = {}"
    using f(2) by (simp add: keys_of_def)
  from tree.bulk_insert [OF conjI [OF f(1) refl] len assms(2) new]
    tree.bulk_look [OF conjI [OF f(1) refl] len assms(2) new, of z] f(2)
  show ?thesis by (auto simp: insert_all_fold)
qed

theorem btree_fill_and_find_witness:
  "\<exists>t. insert_all 2 (fresh_tree 2 (0, 0) 20) [(3, 30), (1, 10), (2, 20), (9, 90), (5, 50), (4, 40)] = Inr t \<and>
    btree_ok 2 t \<and>
    contents t = set [(3, 30), (1, 10), (2, 20), (9, 90), (5, 50), (4::nat, 40::nat)] \<and>
    (\<forall>(k, v) \<in> set [(3, 30), (1, 10), (2, 20), (9, 90), (5, 50), (4, 40)]. btree_find 0 t k = Inr v)"
  by (rule btree_fill_and_find [of 2 "[(3, 30), (1, 10), (2, 20), (9, 90), (5, 50), (4, 40)]" 20 "(0, 0)" 0])
    simp_all

text \<open>
  C19. \<^verbatim>\<open>BTree::find_node\<close> on a well-formed tree returns a leaf from which the chain of \<^verbatim>\<open>next\<close>
  pointers ends and lists stored pairs only, in ascending order of their keys, among them every stored pair
  whose key is not below the one sought.
\<close>

theorem find_node_chain:
  assumes "btree_ok n t"
  shows "\<exists>l xs. find_node t k = Inr l \<and> leaf_walk (length (cache t)) t l = Inr xs \<and>
    sorted_wrt (<) (map fst xs) \<and> set xs \<subseteq> contents t \<and> (\<forall>(k', v) \<in> contents t. k \<le> k' \<longrightarrow> (k', v) \<in> set xs)"
proof -
  from assms obtain S where inv: "btree_inv n {} t S" by (auto simp: btree_ok_def)
  from descent_from_root [OF inv, of k] obtain l where
    l: "l \<in> leaves t" "in_rng S l k"
    and f: "iner_find (length (cache t)) t k (m_root t) = Inr (Some (l, leaf_hit (cache t ! l) k))" by blast
  have "card (later S t l) \<le> card (used t)"
    by (rule card_mono) (auto simp: used_def later_def leaves_def)
  also have "\<dots> < length (cache t)" using used_card [of t] btree_invD(3,9) [OF inv] by simp
  finally obtain xs where xs: "leaf_walk (length (cache t)) t l = Inr xs" "sorted_wrt (<) (map fst xs)"
    "set xs = {(k, v) \<in> contents t. above (slo S l) k}"
    using leaf_walk_ok [OF inv l(1)] by blast
  have "above (slo S l) k'" if "k \<le> k'" for k' using l(2) that by (cases "slo S l") (auto simp: in_rng_def)
  with xs f show ?thesis by (fastforce simp: find_node_def)
qed

theorem find_node_chain_witness:
  "\<exists>l xs. find_node (fresh_tree 2 (0, 0) 8 :: (nat, nat) btree) 5 = Inr l \<and>
    leaf_walk (length (cache (fresh_tree 2 (0, 0) 8 :: (nat, nat) btree))) (fresh_tree 2 (0, 0) 8) l = Inr xs \<and>
    sorted_wrt (<) (map fst xs) \<and> set xs \<subseteq> contents (fresh_tree 2 (0, 0) 8 :: (nat, nat) btree) \<and>
    (\<forall>(k', v) \<in> contents (fresh_tree 2 (0, 0) 8 :: (nat, nat) btree). 5 \<le> k' \<longrightarrow> (k', v) \<in> set xs)"
  by (rule find_node_chain [OF fresh_tree_ok(1)]) simp_all


end
