(* ===== verification/Bloom.thy ===== *)
theory Bloom
  imports Nkv_Prelude
begin

text \<open>
  The one-word Bloom filters of \<^verbatim>\<open>include/bloom_filter.h\<close>. Page headers, index records and
  storage queries keep one such word per attribute (id, flag, source) and use it to skip
  pages and index records. The contract they rely on is the locale \<open>approx_filter\<close>: a value
  that was added is always reported.
\<close>

section \<open>The filter operations\<close>

definition bloom_empty :: u64 where
  "bloom_empty = 0"

definition bloom_add :: "u64 \<Rightarrow> u64 \<Rightarrow> u64" where
  "bloom_add fltr val = fltr OR val"

definition bloom_check :: "u64 \<Rightarrow> u64 \<Rightarrow> bool" where
  "bloom_check fltr val \<longleftrightarrow> (fltr AND val) = val"

section \<open>The contract of an approximate filter\<close>

locale approx_filter =
  fixes empty :: 'f
    and add :: "'f \<Rightarrow> 'a \<Rightarrow> 'f"
    and check :: "'f \<Rightarrow> 'a \<Rightarrow> bool"
  assumes check_add_same: "check (add f v) v"
    and check_add_mono: "check f v \<Longrightarrow> check (add f w) v"
begin

lemma check_foldl_mono: "check f v \<Longrightarrow> check (foldl add f ws) v"
  by (induction ws arbitrary: f) (auto intro: check_add_mono)

lemma no_false_negative: "v \<in> set vs \<Longrightarrow> check (foldl add f vs) v"
proof (induction vs arbitrary: f)
  case Nil
  then show ?case by simp
next
  case (Cons w ws)
  show ?case
  proof (cases "v = w")
    case True
    then show ?thesis by (simp add: check_foldl_mono check_add_same)
  next
    case False
    with Cons show ?thesis by simp
  qed
qed

lemma skip_sound: "\<not> check (foldl add f vs) v \<Longrightarrow> v \<notin> set vs"
  using no_false_negative by blast

end

lemma bloom_check_iff_bits: "bloom_check f v \<longleftrightarrow> (\<forall>i. bit v i \<longrightarrow> bit f i)"
  proof
  assume "bloom_check f v"
  then show "\<forall>i. bit v i \<longrightarrow> bit f i"
    unfolding bloom_check_def by (metis bit_and_iff)
next
  assume "\<forall>i. bit v i \<longrightarrow> bit f i"
  then show "bloom_check f v"
    unfolding bloom_check_def by (intro bit_word_eqI) (auto simp: bit_simps)
qed

interpretation bf: approx_filter bloom_empty bloom_add bloom_check
  by unfold_locales (auto simp: bloom_check_iff_bits bloom_add_def bit_simps)

section \<open>What the filter reports\<close>

lemma bit_foldl_bloom_add:
  "bit (foldl bloom_add f vs) i \<longleftrightarrow> bit f i \<or> (\<exists>v \<in> set vs. bit v i)"
  by (induction vs arbitrary: f) (auto simp: bloom_add_def bit_simps)

text \<open>
  Exactly which values the check lets through: those whose bits are all covered by the
  bits of the added values. False positives are the values covered jointly; the value 0 is
  always reported, which is why the callers test for 0 first.
\<close>

lemma bloom_check_exact:
  "bloom_check (foldl bloom_add bloom_empty vs) v \<longleftrightarrow>
   (\<forall>i. bit v i \<longrightarrow> (\<exists>w \<in> set vs. bit w i))"
  by (simp add: bloom_check_iff_bits bit_foldl_bloom_add bloom_empty_def)

lemma bloom_check_exact_witness:
  "bloom_check (foldl bloom_add bloom_empty [1, 2]) 3"
proof -
  have "bit (3 :: u64) i \<Longrightarrow> bit (1 :: u64) i \<or> bit (2 :: u64) i" for i
    by (cases i rule: nat.exhaust; cases "i - 1" rule: nat.exhaust)
      (auto simp: bit_numeral_rec)
  then show ?thesis unfolding bloom_check_exact by auto
qed

lemma bloom_add_comm: "bloom_add (bloom_add f v) w = bloom_add (bloom_add f w) v"
  by (simp add: bloom_add_def ac_simps)

lemma bloom_check_zero [simp]: "bloom_check f 0"
  by (simp add: bloom_check_def)

end
