(* ===== verification/Meas.thy ===== *)
theory Meas
  imports Nkv_Prelude
begin

text \<open>
  Measurements, append results and the abstract storage and reader classes:
  \<^verbatim>\<open>include/meas.h\<close>, \<^verbatim>\<open>libnkvdb/meas.cpp\<close>, \<^verbatim>\<open>include/common.h\<close> and the interval test of
  \<^verbatim>\<open>include/utils.h\<close>, the conversions of \<^verbatim>\<open>libnkvdb/time.cpp\<close> and \<^verbatim>\<open>include/time_utils.h\<close>. The pure virtual operations of \<^verbatim>\<open>Reader\<close> are a locale; the concrete
  readers interpret it in the theory \<open>Readers\<close>.
\<close>

section \<open>Intervals\<close>

definition inInterval :: "'a::linorder \<Rightarrow> 'a \<Rightarrow> 'a \<Rightarrow> bool" where
  "inInterval from to value \<longleftrightarrow> value \<ge> from \<and> value \<le> to"

section \<open>Append results\<close>

record append_result =
  writed :: nat
  ignored :: nat

definition empty_result :: append_result where
  "empty_result = \<lparr>writed = 0, ignored = 0\<rparr>"

definition add_result :: "append_result \<Rightarrow> append_result \<Rightarrow> append_result" where
  "add_result a b = \<lparr>writed = writed a + writed b, ignored = ignored a + ignored b\<rparr>"

lemma add_result_empty [simp]:
  "add_result empty_result r = r" "add_result r empty_result = r"
  by (simp_all add: add_result_def empty_result_def)

section \<open>Measurements\<close>

text \<open>
  The field \<open>m_value\<close> is the byte array \<^verbatim>\<open>uint8_t[16]\<close>; \<open>m_size\<close> says how many of its bytes
  are in use.
\<close>

record meas =
  m_id :: Id
  m_time :: Time
  m_source :: Flag
  m_flag :: Flag
  m_value :: "u8 list"
  m_size :: u64

definition value_capacity :: nat where
  "value_capacity = 16"

definition empty_meas :: meas where
  "empty_meas = \<lparr>m_id = 0, m_time = 0, m_source = 0, m_flag = 0,
     m_value = replicate value_capacity 0, m_size = 0\<rparr>"

text \<open>
  \<open>setValue bs m\<close> is \<^verbatim>\<open>setValue<T>(v)\<close> where \<open>bs\<close> is the object representation of \<open>v\<close>;
  a type larger than the array is an overrun.
\<close>

definition setValue :: "u8 list \<Rightarrow> meas \<Rightarrow> meas result" where
  "setValue bs m =
     (if length bs \<le> value_capacity
      then Inr (m\<lparr>m_size := of_nat (length bs), m_value := bs @ drop (length bs) (m_value m)\<rparr>)
      else Inl Undefined)"

text \<open>\<open>readValue n m\<close> is \<^verbatim>\<open>readValue<T>()\<close> with \<^verbatim>\<open>sizeof(T) = n\<close>, from a zeroed result.\<close>

definition readValue :: "nat \<Rightarrow> meas \<Rightarrow> u8 list result" where
  "readValue n m =
     (if unat (m_size m) \<le> n \<and> unat (m_size m) \<le> value_capacity
      then Inr (take (unat (m_size m)) (m_value m) @ replicate (n - unat (m_size m)) 0)
      else Inl Undefined)"

definition readFrom :: "meas \<Rightarrow> meas \<Rightarrow> meas" where
  "readFrom m dst = m"

definition meas_wf :: "meas \<Rightarrow> bool" where
  "meas_wf m \<longleftrightarrow> length (m_value m) = value_capacity \<and> unat (m_size m) \<le> value_capacity"

lemma meas_wf_empty [simp]: "meas_wf empty_meas"
  by (simp add: meas_wf_def empty_meas_def)

lemma setValue_wf [nkv_wf]: "meas_wf m \<Longrightarrow> setValue bs m = Inr m' \<Longrightarrow> meas_wf m'"
  by (auto simp: meas_wf_def setValue_def value_capacity_def unat_of_nat split: if_splits)

text \<open>
  A value stored with \<open>setValue\<close> is read back byte for byte, padded with zero bytes when
  it is read at a wider type; neither call overruns a buffer.
\<close>

lemma setValue_readValue:
  assumes "length bs \<le> value_capacity" and "length bs \<le> n"
  shows "bind_r (setValue bs m) (readValue n) = Inr (bs @ replicate (n - length bs) 0)"
  using assms by (simp add: setValue_def readValue_def value_capacity_def unat_of_nat)

section \<open>The clock\<close>

text \<open>
  \<^verbatim>\<open>std::chrono::duration_cast\<close> to nanoseconds: a duration is a signed count of periods, a fraction of a second in lowest terms; the product
  with the reduced factor is undefined when it does not fit into 64 bits, and the quotient is truncated towards zero. \<open>since_epoch\<close> is what
  \<^verbatim>\<open>system_clock::now().time_since_epoch()\<close> yields.
\<close>

definition duration_cast_ns :: "int \<times> int \<Rightarrow> int \<Rightarrow> int result" where
  "duration_cast_ns period d =
     (let (num, den) = period; g = gcd (num * 10 ^ 9) den; p = d * (num * 10 ^ 9 div g); q = den div g in
      if - (2 ^ 63) \<le> p \<and> p < 2 ^ 63 then Inr (if p < 0 then - (- p div q) else p div q) else Inl Undefined)"

definition fromDuration :: "int \<times> int \<Rightarrow> int \<Rightarrow> Time result" where
  "fromDuration period d = bind_r (duration_cast_ns period d) (\<lambda>ns. Inr (of_int ns))"

definition CurrentUtcTime :: "int \<times> int \<Rightarrow> int \<Rightarrow> Time result" where
  "CurrentUtcTime period since_epoch = bind_r (duration_cast_ns period since_epoch) (\<lambda>result. Inr (of_int result))"

text \<open>A clock that has gone on never shows an earlier time, whatever its period is.\<close>

lemma duration_cast_ns_mono:
  assumes "duration_cast_ns (num, den) d = Inr a" and "duration_cast_ns (num, den) e = Inr b" and "0 \<le> d" "d \<le> e" and "0 < num" "0 < den"
  shows "0 \<le> a" "a \<le> b" "b < 2 ^ 63"
proof -
  define g where "g = gcd (num * 10 ^ 9) den"
  have g: "0 < g" "g dvd num * 10 ^ 9" "g dvd den" using assms(6) by (simp_all add: g_def)
  then have q: "0 < den div g" and f: "0 < num * 10 ^ 9 div g" using assms(5,6) by (simp_all add: pos_imp_zdiv_pos_iff zdvd_imp_le)
  have p: "0 \<le> d * (num * 10 ^ 9 div g)" "d * (num * 10 ^ 9 div g) \<le> e * (num * 10 ^ 9 div g)"
    using assms(3,4) f by (auto intro: mult_right_mono)
  then have r: "a = d * (num * 10 ^ 9 div g) div (den div g)" "b = e * (num * 10 ^ 9 div g) div (den div g)" "e * (num * 10 ^ 9 div g) < 2 ^ 63"
    using assms(1,2) by (auto simp: duration_cast_ns_def Let_def g_def split: if_splits)
  show "0 \<le> a" using p(1) q by (simp add: r(1) pos_imp_zdiv_nonneg_iff)
  show "a \<le> b" unfolding r(1,2) by (rule zdiv_mono1 [OF p(2) q])
  have "x div y \<le> x" if "0 \<le> x" for x y :: int using that int_div_le_self [of x y] by (cases "x = 0") auto
  then have "b \<le> e * (num * 10 ^ 9 div g)" using p unfolding r(2) by (meson order_trans)
  then show "b < 2 ^ 63" using r(3) by linarith
qed

lemma CurrentUtcTime_mono:
  assumes "CurrentUtcTime (num, den) d = Inr s" and "CurrentUtcTime (num, den) e = Inr t" and "0 \<le> d" "d \<le> e" and "0 < num" "0 < den"
  shows "s \<le> t"
proof -
  obtain a b where ab: "duration_cast_ns (num, den) d = Inr a" "duration_cast_ns (num, den) e = Inr b" "s = of_int a" "t = of_int b"
    using assms(1,2) by (auto simp: CurrentUtcTime_def bind_r_eq_Inr)
  note m = duration_cast_ns_mono [OF ab(1,2) assms(3-6)]
  have w: "uint (of_int x :: u64) = x" if "0 \<le> x" "x < 2 ^ 63" for x
    using that by (simp add: uint_word_of_int_eq take_bit_int_eq_self)
  show ?thesis unfolding ab(3,4) word_le_def using m w [of a] w [of b] by simp
qed

lemma fromDuration_units:
  "0 \<le> d \<Longrightarrow> d < 9223372036 \<Longrightarrow> fromDuration (1, 1) d = Inr (of_int (d * 10 ^ 9))"
  "0 \<le> d \<Longrightarrow> d < 2 ^ 63 \<Longrightarrow> fromDuration (1, 10 ^ 9) d = Inr (of_int d)"
  by (simp_all add: fromDuration_def duration_cast_ns_def Let_def)

section \<open>The past-time check\<close>

text \<open>\<open>now\<close> is the value of \<^verbatim>\<open>TimeWork::CurrentUtcTime()\<close>; the difference wraps around.\<close>

definition checkPastTime :: "Time \<Rightarrow> Time \<Rightarrow> Time \<Rightarrow> bool" where
  "checkPastTime now t past_time \<longleftrightarrow>
     (if past_time = 0 then True else now - t \<le> past_time)"

text \<open>
  The past-time check on every branch: a zero bound accepts everything; a time stamp in
  the past is accepted exactly up to the bound, inclusively; a time stamp in the future is
  accepted only if the wrapped difference \<open>2 ^ 64 - (t - now)\<close> is within the bound.
\<close>

lemma checkPastTime_iff:
  "checkPastTime now t past \<longleftrightarrow>
     past = 0 \<or>
     (t \<le> now \<and> unat now - unat t \<le> unat past) \<or>
     (now < t \<and> 2 ^ 64 - (unat t - unat now) \<le> unat past)"
proof (cases "t \<le> now")
  case True
  then show ?thesis
    by (auto simp: checkPastTime_def word_le_nat_alt word_less_nat_alt unat_sub)
next
  case False
  then have "now < t" by simp
  then have "unat (now - t) = 2 ^ 64 - (unat t - unat now)"
    using unsigned_less [of t]
    by (simp add: unat_sub_if' word_less_nat_alt)
  with False show ?thesis
    by (auto simp: checkPastTime_def word_le_nat_alt word_less_nat_alt)
qed

section \<open>Readers\<close>

text \<open>
  \<^verbatim>\<open>Reader::readAll\<close> drains a reader: it calls \<^verbatim>\<open>readNext\<close> until \<^verbatim>\<open>isEnd\<close>. The loop is the
  source's; \<open>fuel\<close> bounds the number of calls.
\<close>

fun readAll :: "('s \<Rightarrow> bool) \<Rightarrow> ('s \<Rightarrow> ('s \<times> meas list) result) \<Rightarrow> nat \<Rightarrow> 's \<Rightarrow> meas list \<Rightarrow>
    ('s \<times> meas list) result" where
  "readAll isEnd readNext fuel s acc =
     (if isEnd s then Inr (s, acc)
      else case fuel of
        0 \<Rightarrow> Inl No_fuel
      | Suc fuel' \<Rightarrow>
          bind_r (readNext s) (\<lambda>(s', out). readAll isEnd readNext fuel' s' (acc @ out)))"

declare readAll.simps [simp del]

lemma readAll_end [simp]: "isEnd s \<Longrightarrow> readAll isEnd readNext fuel s acc = Inr (s, acc)"
  by (simp add: readAll.simps)

lemma readAll_step:
  "\<not> isEnd s \<Longrightarrow> readNext s = Inr (s', out) \<Longrightarrow>
   readAll isEnd readNext (Suc fuel) s acc = readAll isEnd readNext fuel s' (acc @ out)"
  by (simp add: readAll.simps [of _ _ "Suc fuel"])

text \<open>
  The contract of a reader: on a good state that is not at its end, \<open>readNext\<close> succeeds,
  keeps the state good, makes progress (\<open>left\<close> decreases) and delivers a prefix of what the
  reader is still to deliver.
\<close>

locale reader =
  fixes isEnd :: "'s \<Rightarrow> bool"
    and readNext :: "'s \<Rightarrow> ('s \<times> meas list) result"
    and good :: "'s \<Rightarrow> bool"
    and left :: "'s \<Rightarrow> nat"
    and pending :: "'s \<Rightarrow> meas list"
  assumes next_ok: "good s \<Longrightarrow> \<not> isEnd s \<Longrightarrow>
      \<exists>s' out. readNext s = Inr (s', out) \<and> good s' \<and> left s' < left s \<and>
        pending s = out @ pending s'"
    and end_pending: "good s \<Longrightarrow> isEnd s \<Longrightarrow> pending s = []"
begin

lemma readAll_delivers:
  "good s \<Longrightarrow> left s \<le> fuel \<Longrightarrow>
   \<exists>s'. readAll isEnd readNext fuel s acc = Inr (s', acc @ pending s) \<and> isEnd s'"
proof (induction fuel arbitrary: s acc)
  case 0
  show ?case
  proof (cases "isEnd s")
    case True
    with 0 show ?thesis by (simp add: end_pending)
  next
    case False
    with 0 next_ok [of s] show ?thesis by auto
  qed
next
  case (Suc fuel)
  show ?case
  proof (cases "isEnd s")
    case True
    with Suc.prems show ?thesis by (simp add: end_pending)
  next
    case False
    then obtain s' out where step: "readNext s = Inr (s', out)" "good s'" "left s' < left s"
      "pending s = out @ pending s'"
      using next_ok Suc.prems by blast
    then have "left s' \<le> fuel" using Suc.prems by simp
    with Suc.IH [of s' "acc @ out"] step False show ?thesis
      by (simp add: readAll_step)
  qed
qed

end

section \<open>Derived append operations of MetaStorage\<close>

text \<open>
  The two non-virtual appends over the virtual ones: an array goes to the batch append in one
  call, a list element by element, summing the results. \<open>'s\<close> is the storage's state.
\<close>

definition append_array ::
  "('s \<Rightarrow> meas list \<Rightarrow> ('s \<times> append_result) result) \<Rightarrow> 's \<Rightarrow> meas list \<Rightarrow>
   ('s \<times> append_result) result" where
  "append_array append_many s ma =
     (if length ma > 0 then append_many s ma else Inr (s, empty_result))"

fun append_list_from ::
  "('s \<Rightarrow> meas \<Rightarrow> ('s \<times> append_result) result) \<Rightarrow> 's \<Rightarrow> append_result \<Rightarrow> meas list \<Rightarrow>
   ('s \<times> append_result) result" where
  "append_list_from append_one s result [] = Inr (s, result)"
| "append_list_from append_one s result (m # ml) =
     bind_r (append_one s m) (\<lambda>(s', res).
       append_list_from append_one s' (add_result result res) ml)"

definition append_list ::
  "('s \<Rightarrow> meas \<Rightarrow> ('s \<times> append_result) result) \<Rightarrow> 's \<Rightarrow> meas list \<Rightarrow>
   ('s \<times> append_result) result" where
  "append_list append_one s ml =
     (if length ml > 0 then append_list_from append_one s empty_result ml
      else Inr (s, empty_result))"

section \<open>Derived queries of MetaStorage\<close>

text \<open>The queries without ids, source and flag call the virtual ones with an empty array and zeros, which match everything.\<close>

definition readInterval_any :: "('s \<Rightarrow> Id list \<Rightarrow> Flag \<Rightarrow> Flag \<Rightarrow> Time \<Rightarrow> Time \<Rightarrow> 'r) \<Rightarrow> 's \<Rightarrow> Time \<Rightarrow> Time \<Rightarrow> 'r" where
  "readInterval_any readInterval s from to = readInterval s [] 0 0 from to"

definition readInTimePoint_any :: "('s \<Rightarrow> Id list \<Rightarrow> Flag \<Rightarrow> Flag \<Rightarrow> Time \<Rightarrow> 'r) \<Rightarrow> 's \<Rightarrow> Time \<Rightarrow> 'r" where
  "readInTimePoint_any readInTimePoint s time_point = readInTimePoint s [] 0 0 time_point"

end
