(* ===== verification/Index.thy ===== *)
theory Index
  imports BTree_Map Bloom Meas
begin

text \<open>
  The index of a page: \<^verbatim>\<open>include/index.h\<close> and \<^verbatim>\<open>libnkvdb/index.cpp\<close>. An index record says that the
  measurements at positions \<open>pos .. pos + count - 1\<close> of the page have times within
  \<open>minTime .. maxTime\<close>. Records are collected in a cache, moved to the B+ tree of the mapped
  index file by \<open>flush\<close>, and queried by \<open>findInIndex\<close>.
\<close>

section \<open>Records and state\<close>

record IndexRecord =
  r_pos :: u64
  r_count :: u64
  r_minTime :: Time
  r_maxTime :: Time
  r_minId :: Id
  r_maxId :: Id
  r_flg_fltr :: Flag
  r_src_fltr :: Flag

definition zero_record :: IndexRecord where
  "zero_record = \<lparr>r_pos = 0, r_count = 0, r_minTime = 0, r_maxTime = 0, r_minId = 0, r_maxId = 0,
     r_flg_fltr = 0, r_src_fltr = 0\<rparr>"

definition tree_N :: nat where
  "tree_N = 10"

definition index_file_format :: nat where
  "index_file_format = 3"

type_synonym index_node = "(Time, IndexRecord) node"
type_synonym index_tree = "(Time, IndexRecord) btree"

record IndexHeader =
  ih_format :: nat
  ih_cache_pos :: nat
  ih_root_pos :: nat
  ih_cache_size :: nat

text \<open>The content of an index file: its header and its array of nodes.\<close>

type_synonym index_file = "IndexHeader \<times> index_node list"

record index =
  ix_cache :: "IndexRecord list"
  ix_cache_pos :: nat
  ix_header :: IndexHeader
  ix_data :: "index_node list"

section \<open>Opening an index\<close>

text \<open>
  \<^verbatim>\<open>setFileName\<close> for a file that does not exist: the file gets \<open>fsize / 100\<close> zeroed nodes, and
  \<^verbatim>\<open>init_cache\<close> writes node 1, which a smaller file does not have.
\<close>

definition index_new_file :: "nat \<Rightarrow> index_file result" where
  "index_new_file fsize =
     (let cells = fsize div (tree_N * tree_N);
          hdr = \<lparr>ih_format = index_file_format, ih_cache_pos = 2, ih_root_pos = 1, ih_cache_size = cells\<rparr>
      in if 1 < cells
         then Inr (hdr, init_cache (replicate cells (new_node tree_N (0, zero_record))))
         else Inl Undefined)"

definition index_setFileName :: "index_file option \<Rightarrow> nat \<Rightarrow> index_file result" where
  "index_setFileName file fsize = (case file of
     None \<Rightarrow> index_new_file fsize
   | Some (hdr, data) \<Rightarrow>
       if ih_format hdr \<noteq> index_file_format then Inl (Exception ''wrong index file format'')
       else Inr (hdr, data))"

text \<open>The constructor and \<^verbatim>\<open>setFileName\<close>, as \<^verbatim>\<open>Page::Page\<close> calls them.\<close>

definition index_open :: "nat \<Rightarrow> index_file option \<Rightarrow> nat \<Rightarrow> index result" where
  "index_open cache_sz file fsize = bind_r (index_setFileName file fsize) (\<lambda>(hdr, data).
     Inr \<lparr>ix_cache = replicate cache_sz zero_record, ix_cache_pos = 0, ix_header = hdr, ix_data = data\<rparr>)"

section \<open>Writing\<close>

definition index_tree_of :: "index \<Rightarrow> index_tree" where
  "index_tree_of ix = make_btree (ix_data ix) (ih_cache_size (ix_header ix)) (ih_root_pos (ix_header ix))
     (ih_cache_pos (ix_header ix))"

definition index_flush :: "index \<Rightarrow> index result" where
  "index_flush ix =
     (if ix_cache_pos ix = 0 then Inr ix
      else bind_r (insert_all tree_N (index_tree_of ix)
             (map (\<lambda>rec. (r_minTime rec, rec)) (take (ix_cache_pos ix) (ix_cache ix)))) (\<lambda>t.
           bind_r (getNode t (m_root t)) (\<lambda>root.
             Inr (ix\<lparr>ix_cache_pos := 0, ix_data := cache t,
                ix_header := (ix_header ix)\<lparr>ih_root_pos := node_id root, ih_cache_pos := cache_pos t\<rparr>\<rparr>))))"

definition writeIndexRec :: "index \<Rightarrow> IndexRecord \<Rightarrow> index result" where
  "writeIndexRec ix rec =
     bind_r (if ix_cache_pos ix = length (ix_cache ix) then index_flush ix else Inr ix) (\<lambda>ix1.
     bind_r (arr_set (ix_cache ix1) (ix_cache_pos ix1) rec) (\<lambda>c.
       Inr (ix1\<lparr>ix_cache := c, ix_cache_pos := ix_cache_pos ix1 + 1\<rparr>)))"

definition index_close :: "index \<Rightarrow> index_file result" where
  "index_close ix = bind_r (index_flush ix) (\<lambda>ix'. Inr (ix_header ix', ix_data ix'))"

section \<open>Searching\<close>

definition checkInterval :: "IndexRecord \<Rightarrow> Time \<Rightarrow> Time \<Rightarrow> bool" where
  "checkInterval rec from to \<longleftrightarrow>
     inInterval from to (r_minTime rec) \<or> inInterval from to (r_maxTime rec) \<or>
     inInterval (r_minTime rec) (r_maxTime rec) from \<or> inInterval (r_minTime rec) (r_maxTime rec) from"

definition id_check :: "Id list \<Rightarrow> IndexRecord \<Rightarrow> bool" where
  "id_check ids rec \<longleftrightarrow> ids = [] \<or>
     inInterval (Min (set ids)) (Max (set ids)) (r_minId rec) \<or>
     inInterval (Min (set ids)) (Max (set ids)) (r_maxId rec)"

definition rec_selected :: "Id list \<Rightarrow> Time \<Rightarrow> Time \<Rightarrow> Flag \<Rightarrow> Flag \<Rightarrow> IndexRecord \<Rightarrow> bool" where
  "rec_selected ids from to flag source rec \<longleftrightarrow>
     \<not> (flag \<noteq> 0 \<and> r_flg_fltr rec \<noteq> 0 \<and> \<not> bloom_check (r_flg_fltr rec) flag) \<and>
     \<not> (source \<noteq> 0 \<and> r_src_fltr rec \<noteq> 0 \<and> \<not> bloom_check (r_src_fltr rec) source) \<and>
     checkInterval rec from to \<and> id_check ids rec"

text \<open>
  The result under construction: the list and \<^verbatim>\<open>prev_value\<close>, which is \<open>None\<close> while \<^verbatim>\<open>first\<close> holds.
  A record that continues the previous one is merged into it.
\<close>

type_synonym scan = "IndexRecord list \<times> IndexRecord option"

definition scan_rec :: "(IndexRecord \<Rightarrow> bool) \<Rightarrow> scan \<Rightarrow> IndexRecord \<Rightarrow> scan" where
  "scan_rec sel st rec =
     (if sel rec
      then case st of
        (result, Some prev) \<Rightarrow>
          if r_pos prev + r_count prev = r_pos rec
          then (result, Some (prev\<lparr>r_count := r_count prev + r_count rec\<rparr>))
          else (result @ [prev], Some rec)
      | (result, None) \<Rightarrow> (result, Some rec)
      else st)"

fun find_scan :: "nat \<Rightarrow> (IndexRecord \<Rightarrow> bool) \<Rightarrow> index_tree \<Rightarrow> nat \<Rightarrow> nat \<Rightarrow> scan \<Rightarrow> scan result" where
  "find_scan 0 sel t stop start st = Inl No_fuel"
| "find_scan (Suc fuel) sel t stop start st =
     bind_r (getNode t start) (\<lambda>nd.
     bind_r (getNode t stop) (\<lambda>stop_nd.
       if node_id nd \<noteq> node_id stop_nd \<or> snd st = None
       then let st' = foldl (scan_rec sel) st (map snd (kvs nd))
            in if nxt nd = 0 then Inr st' else find_scan fuel sel t stop (nxt nd) st'
       else Inr st))"

definition scan_result :: "scan \<Rightarrow> IndexRecord list" where
  "scan_result st = (case st of (result, None) \<Rightarrow> result | (result, Some prev) \<Rightarrow> result @ [prev])"

definition findInIndex :: "index \<Rightarrow> Id list \<Rightarrow> Time \<Rightarrow> Time \<Rightarrow> Flag \<Rightarrow> Flag \<Rightarrow>
    (index \<times> IndexRecord list) result" where
  "findInIndex ix0 ids from to flag source =
     bind_r (index_flush ix0) (\<lambda>ix.
       let t = index_tree_of ix in
       bind_r (find_node t from) (\<lambda>start.
       bind_r (find_node t to) (\<lambda>stop.
       bind_r (find_scan (length (ix_data ix)) (rec_selected ids from to flag source) t stop start ([], None))
         (\<lambda>st. Inr (ix, scan_result st)))))"

section \<open>Positions covered by records\<close>

definition cover :: "IndexRecord \<Rightarrow> nat set" where
  "cover rec = {unat (r_pos rec)..<unat (r_pos rec) + unat (r_count rec)}"

definition covers :: "IndexRecord set \<Rightarrow> nat set" where
  "covers R = \<Union> (cover ` R)"

text \<open>A record whose end is a position: the sum of position and count does not wrap around.\<close>

definition rec_ok :: "IndexRecord \<Rightarrow> bool" where
  "rec_ok rec \<longleftrightarrow> unat (r_pos rec) + unat (r_count rec) < 2 ^ 64"

lemma covers_simps [simp]: "covers {} = {}" "covers (insert r R) = cover r \<union> covers R"
  "covers (R \<union> R') = covers R \<union> covers R'"
  by (auto simp: covers_def)

lemma covers_mono: "R \<subseteq> R' \<Longrightarrow> covers R \<subseteq> covers R'"
  by (auto simp: covers_def)

definition scan_ok :: "scan \<Rightarrow> bool" where
  "scan_ok st \<longleftrightarrow> (\<forall>r \<in> set (scan_result st). rec_ok r)"

lemma unat_plus_ok: "rec_ok r \<Longrightarrow> unat (r_pos r + r_count r) = unat (r_pos r) + unat (r_count r)"
  by (simp add: rec_ok_def unat_word_ariths)

text \<open>Merging neighbours neither loses nor invents a position.\<close>

lemma scan_rec_covers:
  assumes "scan_ok st" and "rec_ok rec"
  shows "scan_ok (scan_rec sel st rec)"
    "covers (set (scan_result (scan_rec sel st rec))) =
      covers (set (scan_result st)) \<union> (if sel rec then cover rec else {})"
    "sel rec \<Longrightarrow> snd (scan_rec sel st rec) \<noteq> None" "snd st \<noteq> None \<Longrightarrow> snd (scan_rec sel st rec) \<noteq> None"
proof -
  obtain result prev where st: "st = (result, prev)" by (cases st)
  have merge: "rec_ok (p\<lparr>r_count := r_count p + r_count rec\<rparr>) \<and>
      cover (p\<lparr>r_count := r_count p + r_count rec\<rparr>) = cover p \<union> cover rec"
    if "rec_ok p" and "r_pos p + r_count p = r_pos rec" for p
  proof -
    have "unat (r_pos p) + unat (r_count p) = unat (r_pos rec)" using unat_plus_ok that by metis
    moreover from this have "unat (r_count p + r_count rec) = unat (r_count p) + unat (r_count rec)"
      using assms(2) by (auto simp: rec_ok_def unat_word_ariths)
    ultimately show ?thesis using assms(2) by (auto simp: rec_ok_def cover_def)
  qed
  show "scan_ok (scan_rec sel st rec)"
    using assms merge st
    by (auto simp: scan_rec_def scan_ok_def scan_result_def split: option.splits if_splits)
  show "covers (set (scan_result (scan_rec sel st rec))) =
      covers (set (scan_result st)) \<union> (if sel rec then cover rec else {})"
  proof (cases prev)
    case (Some p)
    have "rec_ok p" using assms(1) st Some by (simp add: scan_ok_def scan_result_def)
    with merge [of p] st Some show ?thesis
      by (auto simp: scan_rec_def scan_result_def covers_def)
  qed (auto simp: st scan_rec_def scan_result_def covers_def)
  show "sel rec \<Longrightarrow> snd (scan_rec sel st rec) \<noteq> None" "snd st \<noteq> None \<Longrightarrow> snd (scan_rec sel st rec) \<noteq> None"
    using st by (auto simp: scan_rec_def split: option.splits if_splits)
qed

lemma scan_leaf_covers:
  assumes "scan_ok st" and "\<forall>r \<in> set rs. rec_ok r"
  shows "scan_ok (foldl (scan_rec sel) st rs)"
    "covers (set (scan_result (foldl (scan_rec sel) st rs))) =
      covers (set (scan_result st)) \<union> covers {r \<in> set rs. sel r}"
proof -
  have "scan_ok (foldl (scan_rec sel) st rs) \<and>
    covers (set (scan_result (foldl (scan_rec sel) st rs))) =
      covers (set (scan_result st)) \<union> covers {r \<in> set rs. sel r}"
    using assms
  proof (induction rs arbitrary: st)
    case (Cons r rs)
    have "{x \<in> set (r # rs). sel x} = (if sel r then insert r {x \<in> set rs. sel x} else {x \<in> set rs. sel x})"
      by auto
    with Cons.IH [of "scan_rec sel st r"] Cons.prems scan_rec_covers [of st r sel] show ?case
      by auto
  qed simp
  then show "scan_ok (foldl (scan_rec sel) st rs)"
    "covers (set (scan_result (foldl (scan_rec sel) st rs))) =
      covers (set (scan_result st)) \<union> covers {r \<in> set rs. sel r}" by blast+
qed

section \<open>The scan over the leaves\<close>

text \<open>
  What scanning from leaf \<open>l\<close> on makes of a scan: it only adds positions, only those of selected records, and all those up to \<open>to\<close>
  that are not in the last leaf.
\<close>

definition scanned :: "Time shape \<Rightarrow> index_tree \<Rightarrow> (IndexRecord \<Rightarrow> bool) \<Rightarrow> nat \<Rightarrow> Time \<Rightarrow> nat \<Rightarrow> scan \<Rightarrow> scan \<Rightarrow> bool" where
  "scanned S t sel stop to l st st' \<longleftrightarrow> scan_ok st' \<and>
     covers (set (scan_result st)) \<subseteq> covers (set (scan_result st')) \<and>
     covers (set (scan_result st')) \<subseteq> covers (set (scan_result st)) \<union> covers {r \<in> snd ` contents t. sel r} \<and>
     (\<forall>(k, r) \<in> contents t. sel r \<longrightarrow> above (slo S l) k \<longrightarrow> k \<le> to \<longrightarrow>
        \<not> in_rng S stop k \<or> (l = stop \<and> snd st = None) \<longrightarrow> cover r \<subseteq> covers (set (scan_result st')))"

lemma scanned_end:
  assumes "in_rng S stop to" and "l = stop" and "snd st \<noteq> None" and "scan_ok st"
  shows "scanned S t sel stop to l st st"
proof -
  have "in_rng S stop k" if "above (slo S stop) k" "k \<le> to" for k
    using that assms(1) by (cases "shi S stop") (auto simp: in_rng_def)
  then show ?thesis using assms(2-4) by (auto simp: scanned_def)
qed

lemma scan_one_leaf:
  assumes inv: "btree_inv n ov t S" and rok: "\<forall>(k, r) \<in> contents t. rec_ok r" and l: "l \<in> leaves t" and st: "scan_ok st"
    and st1: "st1 = foldl (scan_rec sel) st (map snd (kvs (cache t ! l)))"
  shows "scan_ok st1" "covers (set (scan_result st)) \<subseteq> covers (set (scan_result st1))"
    "covers (set (scan_result st1)) \<subseteq> covers (set (scan_result st)) \<union> covers {r \<in> snd ` contents t. sel r}"
    "\<And>k r. (k, r) \<in> contents t \<Longrightarrow> sel r \<Longrightarrow> in_rng S l k \<Longrightarrow> cover r \<subseteq> covers (set (scan_result st1))"
proof -
  let ?rs = "map snd (kvs (cache t ! l))"
  have own: "(k, r) \<in> contents t" if "(k, r) \<in> set (kvs (cache t ! l))" for k r
    using that l by (auto simp: contents_def pairs_of_def leaves_def)
  then have "\<forall>r \<in> set ?rs. rec_ok r" using rok by force
  note s1 = scan_leaf_covers [OF st this, of sel, folded st1]
  show "scan_ok st1" by (rule s1(1))
  show "covers (set (scan_result st)) \<subseteq> covers (set (scan_result st1))" using s1(2) by blast
  have "{r \<in> set ?rs. sel r} \<subseteq> {r \<in> snd ` contents t. sel r}" using own by force
  then show "covers (set (scan_result st1)) \<subseteq> covers (set (scan_result st)) \<union> covers {r \<in> snd ` contents t. sel r}"
    using s1(2) covers_mono by blast
  show "cover r \<subseteq> covers (set (scan_result st1))" if "(k, r) \<in> contents t" "sel r" "in_rng S l k" for k r
  proof -
    have "(k, r) \<in> set (kvs (cache t ! l))" using leaf_pairs [OF inv l that(3)] that(1) by simp
    then have "r \<in> {r \<in> set ?rs. sel r}" using that(2) by force
    then show ?thesis using s1(2) by (auto simp: covers_def)
  qed
qed

lemma scanned_next:
  assumes inv: "btree_inv n ov t S" and rok: "\<forall>(k, r) \<in> contents t. rec_ok r" and stop: "in_rng S stop to" and l: "l \<in> leaves t"
    and st: "scan_ok st" and st1: "st1 = foldl (scan_rec sel) st (map snd (kvs (cache t ! l)))"
    and h: "shi S l = Some h" "slo S l' = Some h" and st': "scanned S t sel stop to l' st1 st'"
  shows "scanned S t sel stop to l st st'"
proof -
  note s1 = scan_one_leaf [OF inv rok l st st1]
  note s2 = st' [unfolded scanned_def]
  have "cover r \<subseteq> covers (set (scan_result st'))"
    if kr: "(k, r) \<in> contents t" "sel r" "above (slo S l) k" "k \<le> to" "\<not> in_rng S stop k \<or> (l = stop \<and> snd st = None)" for k r
  proof (cases "k < h")
    case True
    then show ?thesis using s1(4) [OF kr(1,2)] kr(3) h(1) s2 by (auto simp: in_rng_def)
  next
    case False
    then have "l \<noteq> stop" using kr(4) stop h(1) by (auto simp: in_rng_def)
    then have "\<not> in_rng S stop k" using kr(5) by blast
    moreover have "above (slo S l') k" using False h(2) by simp
    ultimately show ?thesis using s2 kr(1,2,4) by blast
  qed
  then show ?thesis using s1(2,3) s2 unfolding scanned_def by blast
qed

lemma find_scan_ok:
  assumes inv: "btree_inv n ov t S" and rok: "\<forall>(k, r) \<in> contents t. rec_ok r"
    and stop: "stop \<in> leaves t" "in_rng S stop to"
    and "l \<in> leaves t" "card (later S t l) < fuel" "scan_ok st"
  shows "\<exists>st'. find_scan fuel sel t stop l st = Inr st' \<and> scanned S t sel stop to l st st'"
  using assms(5-)
proof (induction fuel arbitrary: l st)
  case (Suc fuel)
  note b = btree_invD [OF inv]
  have lU: "l \<in> used t" "stop \<in> used t" using Suc.prems(1) stop(1) leaves_used by blast+
  have gn: "getNode t l = Inr (cache t ! l)" "getNode t stop = Inr (cache t ! stop)"
    and ids: "node_id (cache t ! l) = l" "node_id (cache t ! stop) = stop"
    using b(5,7) lU by (auto simp: getNode_def node_ok_def)
  show ?case
  proof (cases "l \<noteq> stop \<or> snd st = None")
    case False
    then show ?thesis using scanned_end [OF stop(2) _ _ Suc.prems(3), of l t sel] gn ids by (intro exI [of _ st]) auto
  next
    case go: True
    define st1 where "st1 = foldl (scan_rec sel) st (map snd (kvs (cache t ! l)))"
    note s1 = scan_one_leaf [OF inv rok Suc.prems(1,3) st1_def]
    show ?thesis
    proof (cases "nxt (cache t ! l) = 0")
      case True
      have "snx S l = 0" using b(6) [OF lU(1)] True by (simp add: view_ok_def)
      then have "shi S l = None" using shape_invD(10) [OF b(2) lU(1)] by (simp add: next_ok_def)
      then have "cover r \<subseteq> covers (set (scan_result st1))" if "(k, r) \<in> contents t" "sel r" "above (slo S l) k" for k r
        using s1(4) [OF that(1,2)] that(3) by (simp add: in_rng_def)
      then have "scanned S t sel stop to l st st1" using s1(1-3) unfolding scanned_def by blast
      then show ?thesis using gn ids go True by (auto simp: st1_def)
    next
      case False
      note nx = next_leaf [OF inv Suc.prems(1) False]
      then obtain h where h: "shi S l = Some h" "slo S (nxt (cache t ! l)) = Some h" by auto
      have "card (later S t (nxt (cache t ! l))) < fuel" using nx(4) Suc.prems(2) by simp
      from Suc.IH [OF nx(1) this s1(1)] obtain st' where
        st': "find_scan fuel sel t stop (nxt (cache t ! l)) st1 = Inr st'" "scanned S t sel stop to (nxt (cache t ! l)) st1 st'" by blast
      have "find_scan (Suc fuel) sel t stop l st = Inr st'" using gn ids go False st'(1) by (auto simp: st1_def)
      then show ?thesis using scanned_next [OF inv rok stop(2) Suc.prems(1,3) st1_def h st'(2)] by blast
    qed
  qed
qed simp

section \<open>The invariant of an index\<close>

text \<open>The records waiting in the cache, and all records of the index.\<close>

definition waiting :: "index \<Rightarrow> IndexRecord list" where
  "waiting ix = take (ix_cache_pos ix) (ix_cache ix)"

definition records :: "index \<Rightarrow> IndexRecord set" where
  "records ix = snd ` contents (index_tree_of ix) \<union> set (waiting ix)"

definition index_inv :: "index \<Rightarrow> bool" where
  "index_inv ix \<longleftrightarrow> btree_ok tree_N (index_tree_of ix) \<and>
     (\<forall>(k, r) \<in> contents (index_tree_of ix). k = r_minTime r) \<and>
     ix_cache_pos ix \<le> length (ix_cache ix) \<and> 0 < length (ix_cache ix) \<and>
     distinct (map r_minTime (waiting ix)) \<and>
     r_minTime ` set (waiting ix) \<inter> keys_of (contents (index_tree_of ix)) = {} \<and>
     ix_cache_pos ix \<le> spare (index_tree_of ix)"

text \<open>The number of records that can still be written.\<close>

definition index_room :: "index \<Rightarrow> nat" where
  "index_room ix = spare (index_tree_of ix) - ix_cache_pos ix"

lemma index_invD:
  assumes "index_inv ix"
  shows "btree_ok tree_N (index_tree_of ix)" "\<And>k r. (k, r) \<in> contents (index_tree_of ix) \<Longrightarrow> k = r_minTime r"
    "ix_cache_pos ix \<le> length (ix_cache ix)" "0 < length (ix_cache ix)"
    "distinct (map r_minTime (waiting ix))"
    "r_minTime ` set (waiting ix) \<inter> keys_of (contents (index_tree_of ix)) = {}"
    "ix_cache_pos ix \<le> spare (index_tree_of ix)" "length (waiting ix) = ix_cache_pos ix"
  using assms by (auto simp: index_inv_def waiting_def)

lemma root_id: "btree_ok n t \<Longrightarrow> getNode t (m_root t) = Inr (cache t ! m_root t) \<and> node_id (cache t ! m_root t) = m_root t"
  using btree_invD(2,5,7) shape_invD(3) by (fastforce simp: btree_ok_def getNode_def node_ok_def)

lemma tree_of_parts:
  "make_btree (cache t) (cache_size t) (m_root t) (cache_pos t) = t"
  by (simp add: make_btree_def)

lemma index_tree_of_simps [simp]:
  "index_tree_of (ix\<lparr>ix_cache := c, ix_cache_pos := p\<rparr>) = index_tree_of ix"
  by (simp add: index_tree_of_def)

lemma flush_ok:
  assumes inv: "index_inv ix"
  shows "\<exists>ix'. index_flush ix = Inr ix' \<and> index_inv ix' \<and> records ix' = records ix \<and>
    index_room ix \<le> index_room ix' \<and> ix_cache_pos ix' = 0 \<and> ix_cache ix' = ix_cache ix"
proof (cases "ix_cache_pos ix = 0")
  case False
  note d = index_invD [OF inv]
  let ?t = "index_tree_of ix" and ?xs = "map (\<lambda>rec. (r_minTime rec, rec)) (waiting ix)"
  have "distinct (map fst ?xs)" "fst ` set ?xs \<inter> keys_of (contents ?t) = {}" "length ?xs \<le> spare ?t"
    using d(5-8) by (auto simp: comp_def image_image)
  from tree.bulk_insert [OF conjI [OF d(1) refl] this(3,1,2)] obtain t where
    t: "insert_all tree_N ?t ?xs = Inr t" "btree_ok tree_N t" "cache_size t = cache_size ?t"
      "contents t = set ?xs \<union> contents ?t" "spare ?t \<le> spare t + length ?xs"
    by (auto simp: insert_all_fold)
  define ix' where "ix' = ix\<lparr>ix_cache_pos := 0, ix_data := cache t,
    ix_header := (ix_header ix)\<lparr>ih_root_pos := m_root t, ih_cache_pos := cache_pos t\<rparr>\<rparr>"
  have fl: "index_flush ix = Inr ix'"
    using False t(1) root_id [OF t(2)] by (simp add: index_flush_def ix'_def waiting_def)
  have tr: "index_tree_of ix' = t"
    using tree_of_parts [of t] t(3) by (simp add: index_tree_of_def ix'_def make_btree_def)
  have w: "waiting ix' = []" "ix_cache_pos ix' = 0" "ix_cache ix' = ix_cache ix" by (simp_all add: waiting_def ix'_def)
  have "records ix' = records ix" using t(4) w(1) tr by (auto simp: records_def image_Un image_image)
  moreover have "index_inv ix'" using d t(2,4) w tr by (auto simp: index_inv_def)
  moreover have "index_room ix \<le> index_room ix'" using t(5) tr w d(8) by (simp add: index_room_def)
  ultimately show ?thesis using fl w by blast
qed (use assms in \<open>simp add: index_flush_def\<close>)

lemma write_ok:
  assumes inv: "index_inv ix" and new: "r_minTime rec \<notin> r_minTime ` records ix" and room: "0 < index_room ix"
  shows "\<exists>ix'. writeIndexRec ix rec = Inr ix' \<and> index_inv ix' \<and> records ix' = insert rec (records ix) \<and>
    index_room ix \<le> Suc (index_room ix')"
proof -
  obtain ix1 where
    w1: "(if ix_cache_pos ix = length (ix_cache ix) then index_flush ix else Inr ix) = Inr ix1"
    and i1: "index_inv ix1" "records ix1 = records ix" "index_room ix \<le> index_room ix1"
      "ix_cache_pos ix1 < length (ix_cache ix1)"
  proof (cases "ix_cache_pos ix = length (ix_cache ix)")
    case True
    with flush_ok [OF inv] index_invD(4) [OF inv] that show thesis by auto
  next
    case False
    with index_invD(3) [OF inv] inv that [of ix] show thesis by simp
  qed
  note d = index_invD [OF i1(1)]
  define ix' where "ix' = ix1\<lparr>ix_cache := (ix_cache ix1)[ix_cache_pos ix1 := rec], ix_cache_pos := ix_cache_pos ix1 + 1\<rparr>"
  have w: "waiting ix' = waiting ix1 @ [rec]"
    using i1(4) by (simp add: waiting_def ix'_def take_Suc_conv_app_nth)
  have tr: "index_tree_of ix' = index_tree_of ix1" by (simp add: ix'_def)
  have new1: "r_minTime rec \<notin> r_minTime ` records ix1" using new i1(2) by simp
  have nw: "r_minTime rec \<notin> r_minTime ` set (waiting ix1)"
    using new1 by (simp add: records_def image_Un)
  have nk: "r_minTime rec \<notin> keys_of (contents (index_tree_of ix1))"
  proof
    assume "r_minTime rec \<in> keys_of (contents (index_tree_of ix1))"
    then obtain r where r: "(r_minTime rec, r) \<in> contents (index_tree_of ix1)" by (auto simp: keys_of_def)
    then have "r \<in> snd ` contents (index_tree_of ix1)" by (rule image_eqI [rotated]) simp
    then have "r \<in> records ix1" by (simp add: records_def)
    then have "r_minTime r \<in> r_minTime ` records ix1" by (rule imageI)
    then show False using d(2) [OF r] new1 by simp
  qed
  have p: "ix_cache_pos ix' = Suc (ix_cache_pos ix1)" "length (ix_cache ix') = length (ix_cache ix1)"
    by (simp_all add: ix'_def)
  have "ix_cache_pos ix1 < spare (index_tree_of ix1)" using room i1(3) by (simp add: index_room_def)
  then have "index_inv ix'"
    using d(1-6) nw nk i1(4) unfolding index_inv_def tr w p by auto
  moreover have "records ix' = insert rec (records ix)" using w tr i1(2) by (auto simp: records_def)
  moreover have "index_room ix \<le> Suc (index_room ix')" using i1(3) tr by (simp add: index_room_def ix'_def)
  moreover have "writeIndexRec ix rec = Inr ix'" using w1 i1(4) by (simp add: writeIndexRec_def ix'_def)
  ultimately show ?thesis by blast
qed

text \<open>The leaf in which a search for a time ends.\<close>

definition leaf_of :: "index \<Rightarrow> Time \<Rightarrow> nat result" where
  "leaf_of ix k = find_node (index_tree_of ix) k"

lemma find_ok:
  assumes inv: "index_inv ix" and rok: "\<forall>r \<in> records ix. rec_ok r"
  shows "\<exists>ix' rs. findInIndex ix ids from to flag source = Inr (ix', rs) \<and> index_inv ix' \<and>
    records ix' = records ix \<and> index_room ix \<le> index_room ix' \<and> (\<forall>r \<in> set rs. rec_ok r) \<and>
    covers (set rs) \<subseteq> covers {r \<in> records ix. rec_selected ids from to flag source r} \<and>
    (\<forall>r \<in> records ix. rec_selected ids from to flag source r \<longrightarrow> from \<le> r_minTime r \<longrightarrow> r_minTime r \<le> to \<longrightarrow>
       leaf_of ix' (r_minTime r) \<noteq> leaf_of ix' to \<or> leaf_of ix' from = leaf_of ix' to \<longrightarrow>
       cover r \<subseteq> covers (set rs))"
proof -
  let ?sel = "rec_selected ids from to flag source"
  from flush_ok [OF inv] obtain ix' where
    f: "index_flush ix = Inr ix'" "index_inv ix'" "records ix' = records ix" "index_room ix \<le> index_room ix'"
      "ix_cache_pos ix' = 0" by blast
  define t where "t = index_tree_of ix'"
  from index_invD(1) [OF f(2)] obtain S where S: "btree_inv tree_N {} t S" by (auto simp: btree_ok_def t_def)
  have rec: "records ix = snd ` contents t" using f(3,5) by (simp add: records_def waiting_def t_def)
  have rk: "\<forall>(k, r) \<in> contents t. rec_ok r" using rok rec by force
  have find: "\<exists>l. find_node t k = Inr l \<and> l \<in> leaves t \<and> in_rng S l k" for k
    using descent_from_root [OF S, of k] by (metis bind_r.simps(2) case_prod_conv find_node_def option.simps(5))
  from find [of "from"] obtain a where a: "find_node t from = Inr a" "a \<in> leaves t" "in_rng S a from" by blast
  from find [of to] obtain z where z: "find_node t to = Inr z" "z \<in> leaves t" "in_rng S z to" by blast
  have "card (later S t a) \<le> card (used t)" by (rule card_mono) (auto simp: used_def later_def leaves_def)
  also have "\<dots> < length (cache t)" using used_card [of t] btree_invD(3,9) [OF S] by simp
  also have "length (cache t) = length (ix_data ix')" by (simp add: t_def index_tree_of_def make_btree_def)
  finally have fuel: "card (later S t a) < length (ix_data ix')" .
  have empty: "scan_ok ([], None)" "covers (set (scan_result ([], None))) = {}"
    by (simp_all add: scan_ok_def scan_result_def)
  from find_scan_ok [OF S rk z(2,3) a(2) fuel empty(1), of ?sel, unfolded scanned_def empty(2)] obtain st where
    st: "find_scan (length (ix_data ix')) ?sel t z a ([], None) = Inr st" and sok: "scan_ok st" and st2:
      "covers (set (scan_result st)) \<subseteq> {} \<union> covers {r \<in> snd ` contents t. ?sel r}"
      "\<forall>(k, r) \<in> contents t. ?sel r \<longrightarrow> above (slo S a) k \<longrightarrow> k \<le> to \<longrightarrow>
         \<not> in_rng S z k \<or> (a = z \<and> snd (([], None) :: scan) = None) \<longrightarrow> cover r \<subseteq> covers (set (scan_result st))"
    by blast
  have res: "findInIndex ix ids from to flag source = Inr (ix', scan_result st)"
    using f(1) a(1) z(1) st(1) by (simp add: findInIndex_def Let_def t_def)
  have "cover r \<subseteq> covers (set (scan_result st))"
    if r: "r \<in> records ix" "?sel r" "from \<le> r_minTime r" "r_minTime r \<le> to"
      "leaf_of ix' (r_minTime r) \<noteq> leaf_of ix' to \<or> leaf_of ix' from = leaf_of ix' to" for r
  proof -
    have kr: "(r_minTime r, r) \<in> contents t"
      using r(1) rec index_invD(2) [OF f(2)] by (auto simp: t_def)
    have ab: "above (slo S a) (r_minTime r)" using a(3) r(3) by (cases "slo S a") (auto simp: in_rng_def)
    have "\<not> in_rng S z (r_minTime r) \<or> a = z"
    proof -
      from find [of "r_minTime r"] obtain l where
        l: "find_node t (r_minTime r) = Inr l" "l \<in> leaves t" "in_rng S l (r_minTime r)" by blast
      have "slvl S l = slvl S z"
        using l(2) z(2) leaves_view [OF S] keys_okD(3) shape_invD(7) [OF btree_invD(2) [OF S]]
        by (metis (no_types, lifting) mem_Collect_eq)
      then have "l = z" if "in_rng S z (r_minTime r)"
        using level_unique [OF btree_invD(2) [OF S], of l z] l z(2) leaves_used that by blast
      then show ?thesis using r(5) l(1) a(1) z(1) by (auto simp: leaf_of_def t_def)
    qed
    with bspec [OF st2(2) kr] r(2,4) ab show ?thesis by simp
  qed
  moreover have "covers (set (scan_result st)) \<subseteq> covers {r \<in> records ix. ?sel r}" using st2(1) rec by simp
  moreover have "\<forall>r \<in> set (scan_result st). rec_ok r" using sok by (simp add: scan_ok_def)
  ultimately show ?thesis using res f by blast
qed

section \<open>A new index\<close>

lemma index_open_new:
  assumes "0 < cache_sz" and "200 \<le> fsize"
  shows "\<exists>ix. index_open cache_sz None fsize = Inr ix \<and> index_inv ix \<and> records ix = {} \<and>
    index_room ix = (fsize div 100 + 2) div 3 - 1"
proof -
  have N: "tree_N * tree_N = 100" by (simp add: tree_N_def)
  have c: "2 \<le> fsize div 100" using assms(2) by linarith
  define ix where "ix = \<lparr>ix_cache = replicate cache_sz zero_record, ix_cache_pos = 0,
    ix_header = \<lparr>ih_format = index_file_format, ih_cache_pos = 2, ih_root_pos = 1, ih_cache_size = fsize div 100\<rparr>,
    ix_data = init_cache (replicate (fsize div 100) (new_node tree_N (0, zero_record)))\<rparr>"
  have op: "index_open cache_sz None fsize = Inr ix"
    using c by (simp add: index_open_def index_setFileName_def index_new_file_def N ix_def Let_def)
  have tr: "index_tree_of ix = fresh_tree tree_N (0, zero_record) (fsize div 100)"
    by (simp add: index_tree_of_def fresh_tree_def ix_def)
  have w: "waiting ix = []" "ix_cache_pos ix = 0" "length (ix_cache ix) = cache_sz"
    by (simp_all add: waiting_def ix_def)
  have two: "2 \<le> tree_N" by (simp add: tree_N_def)
  note f = fresh_tree_ok [OF two c, of "(0::Time, zero_record)", folded tr]
  have "index_inv ix" using f(1,2) w assms(1) by (simp add: index_inv_def)
  moreover have "records ix = {}" using f(2) w by (simp add: records_def)
  moreover have "index_room ix = (fsize div 100 + 2) div 3 - 1" using f(3) w by (simp add: index_room_def)
  ultimately show ?thesis using op by blast
qed

text \<open>Records with ascending times, one position each.\<close>

definition sample_rec :: "nat \<Rightarrow> IndexRecord" where
  "sample_rec i = zero_record\<lparr>r_pos := of_nat i, r_count := 1, r_minTime := of_nat i, r_maxTime := of_nat i\<rparr>"

section \<open>Properties\<close>

text \<open>
  \<^verbatim>\<open>Index::checkInterval\<close> decides whether the time span of a record and the query interval have a
  common point, although one of its four tests is a repetition of another.
\<close>

lemma checkInterval_overlap:
  assumes "from \<le> to" and "r_minTime rec \<le> r_maxTime rec"
  shows "checkInterval rec from to \<longleftrightarrow> (\<exists>t. inInterval from to t \<and> inInterval (r_minTime rec) (r_maxTime rec) t)"
  using assms by (auto simp: checkInterval_def inInterval_def intro: order_trans dest: order_trans)

lemma checkInterval_overlap_witness:
  "checkInterval (zero_record\<lparr>r_minTime := 3, r_maxTime := 9\<rparr>) 5 6 \<longleftrightarrow>
    (\<exists>t::Time. inInterval 5 6 t \<and> inInterval 3 9 t)"
  using checkInterval_overlap [of 5 6 "zero_record\<lparr>r_minTime := 3, r_maxTime := 9\<rparr>"] by simp

text \<open>
  C28. Writing a record with a new start time to an index with room for it returns, whether or not the cache
  has to be flushed into the tree first; the index keeps its invariant and then has exactly the records it
  had and the new one.
\<close>

theorem writeIndexRec_adds:
  assumes "index_inv ix" and "r_minTime rec \<notin> r_minTime ` records ix" and "0 < index_room ix"
  shows "\<exists>ix'. writeIndexRec ix rec = Inr ix' \<and> index_inv ix' \<and> records ix' = insert rec (records ix)"
  using write_ok [OF assms] by blast

theorem writeIndexRec_adds_witness:
  "\<exists>ix ix'. index_open 1 None 1000 = Inr ix \<and> writeIndexRec ix (zero_record\<lparr>r_count := 1\<rparr>) = Inr ix' \<and>
    index_inv ix' \<and> records ix' = {zero_record\<lparr>r_count := 1\<rparr>}"
proof -
  obtain ix where ix: "index_open 1 None 1000 = Inr ix" "index_inv ix" "records ix = {}" "0 < index_room ix"
    using index_open_new [of 1 1000] by auto
  from writeIndexRec_adds [OF ix(2) _ ix(4), of "zero_record\<lparr>r_count := 1\<rparr>"] ix show ?thesis by simp
qed




end
