(* ===== verification/Write_Window.thy ===== *)
theory Write_Window
  imports Meas
begin

text \<open>
  The write window of a page: \<^verbatim>\<open>include/writewindow.h\<close>, \<^verbatim>\<open>libnkvdb/writewindow.cpp\<close> and the
  window handling of \<^verbatim>\<open>libnkvdb/page.cpp\<close> (\<^verbatim>\<open>updateWriteWindow\<close>, the window file written by
  \<^verbatim>\<open>flushWriteWindow\<close> and read by \<^verbatim>\<open>loadWriteWindow\<close>). A window is a vector indexed by the
  measurement id; a slot never written holds the zero measurement.
\<close>

section \<open>The vector with growing access\<close>

type_synonym write_window = "meas list"

definition ww_make :: "nat \<Rightarrow> write_window" where
  "ww_make n = replicate n empty_meas"

definition ww_copy :: "write_window \<Rightarrow> write_window" where
  "ww_copy other = other"

text \<open>The constant access: the zero measurement beyond the end.\<close>

definition ww_get :: "write_window \<Rightarrow> u64 \<Rightarrow> meas" where
  "ww_get w pos = (if length w \<le> unat pos then empty_meas else w ! unat pos)"

text \<open>
  The mutable access grows the vector; \<open>pos + 1\<close> wraps at the largest id, and \<^verbatim>\<open>at\<close> then
  throws. The result is the vector that the reference points into.
\<close>

definition ww_ref :: "write_window \<Rightarrow> u64 \<Rightarrow> write_window result" where
  "ww_ref w pos =
     (let w' = (if length w \<le> unat pos then resize empty_meas (unat (pos + 1)) w else w)
      in if unat pos < length w' then Inr w' else Inl Out_of_range)"

definition ww_set :: "write_window \<Rightarrow> u64 \<Rightarrow> meas \<Rightarrow> write_window result" where
  "ww_set w pos m = bind_r (ww_ref w pos) (\<lambda>w'. Inr (w'[unat pos := m]))"

text \<open>Assignment copies element by element into a freshly resized vector.\<close>

definition ww_assign :: "write_window \<Rightarrow> write_window \<Rightarrow> write_window" where
  "ww_assign this other =
     (if length other = 0 then (if length this \<noteq> 0 then [] else this)
      else foldl (\<lambda>w i. w[i := ww_get other (of_nat i)])
             (resize empty_meas (length other) []) [0..<length other])"

section \<open>Updating and persisting the window\<close>

definition updateWriteWindow :: "write_window \<Rightarrow> meas \<Rightarrow> write_window result" where
  "updateWriteWindow w m =
     (if length w \<le> unat (m_id m)
      then ww_set (resize empty_meas (unat (m_id m + 1)) w) (m_id m) m
      else bind_r (ww_ref w (m_id m)) (\<lambda>w'.
             if m_time (w' ! unat (m_id m)) < m_time m then ww_set w' (m_id m) m else Inr w'))"

abbreviation updateAll :: "write_window \<Rightarrow> meas list \<Rightarrow> write_window result" where
  "updateAll \<equiv> fold_r updateWriteWindow"

text \<open>
  The window file is the sequence of measurements it contains, \<open>None\<close> when it does not exist.
  The file is only rewritten when the window is not empty. The loading loop also feeds the
  zero measurement of the failing last read to \<open>updateWriteWindow\<close>.
\<close>

definition flush_window_file :: "write_window \<Rightarrow> meas list option \<Rightarrow> meas list option" where
  "flush_window_file w file = (if length w \<noteq> 0 then Some w else file)"

definition load_window_file :: "write_window \<Rightarrow> meas list option \<Rightarrow> write_window result" where
  "load_window_file w file =
     (case file of None \<Rightarrow> Inr w | Some ms \<Rightarrow> updateAll w (ms @ [empty_meas]))"

section \<open>Access lemmas\<close>

lemma unat_inc: "(p::u64) \<noteq> - 1 \<Longrightarrow> unat (p + 1) = Suc (unat p)"
proof -
  assume "p \<noteq> - 1"
  then have "p + 1 \<noteq> 0" by (metis add.right_inverse add_right_cancel add.commute)
  then show ?thesis by (simp add: unatSuc add.commute)
qed

lemma ww_get_beyond [simp]: "length w \<le> unat i \<Longrightarrow> ww_get w i = empty_meas"
  by (simp add: ww_get_def)

lemma ww_ref_ok:
  "pos \<noteq> - 1 \<Longrightarrow> ww_ref w pos = Inr (if length w \<le> unat pos
     then resize empty_meas (Suc (unat pos)) w else w)"
  by (auto simp: ww_ref_def unat_inc)

lemma ww_set_in_range:
  "unat pos < length w \<Longrightarrow> ww_set w pos m = Inr (w[unat pos := m])"
  by (simp add: ww_set_def ww_ref_def)

lemma updateWriteWindow_grow:
  "length w \<le> unat (m_id m) \<Longrightarrow> m_id m \<noteq> - 1 \<Longrightarrow>
   updateWriteWindow w m =
     Inr (w @ replicate (unat (m_id m) - length w) empty_meas @ [m])"
proof -
  assume a: "length w \<le> unat (m_id m)" "m_id m \<noteq> - 1"
  let ?k = "unat (m_id m)"
  have "resize empty_meas (Suc ?k) w = (w @ replicate (?k - length w) empty_meas) @ [empty_meas]"
    using a(1) by (simp add: resize_grow Suc_diff_le replicate_app_Cons_same)
  moreover have "length (w @ replicate (?k - length w) empty_meas) = ?k" using a(1) by simp
  ultimately show ?thesis
    using a by (simp add: updateWriteWindow_def unat_inc ww_set_in_range list_update_append)
qed

lemma updateWriteWindow_in_range:
  "unat (m_id m) < length w \<Longrightarrow>
   updateWriteWindow w m =
     Inr (if m_time (w ! unat (m_id m)) < m_time m then w[unat (m_id m) := m] else w)"
  by (simp add: updateWriteWindow_def ww_set_in_range ww_ref_def)

lemma updateWriteWindow_max_id:
  "m_id m = - 1 \<Longrightarrow> length w \<le> unat (- 1 :: u64) \<Longrightarrow>
   updateWriteWindow w m = Inl Out_of_range"
  by (simp add: updateWriteWindow_def ww_set_def ww_ref_def)

lemma ww_get_update:
  assumes "m_id m \<noteq> - 1" and "0 < m_time m"
  shows "\<exists>w'. updateWriteWindow w m = Inr w' \<and>
    (\<forall>i. ww_get w' i = (if i = m_id m \<and> m_time (ww_get w i) < m_time m then m else ww_get w i))"
proof (cases "length w \<le> unat (m_id m)")
  case True
  have "ww_get (w @ replicate (unat (m_id m) - length w) empty_meas @ [m]) i =
      (if i = m_id m then m else ww_get w i)" for i
    using True word_unat_eq_iff [of i "m_id m"]
    by (cases "unat i < unat (m_id m)") (auto simp: ww_get_def nth_append nth_Cons')
  with True assms show ?thesis
    by (auto simp: updateWriteWindow_grow empty_meas_def)
next
  case False
  then show ?thesis
    by (auto simp: updateWriteWindow_in_range ww_get_def nth_list_update word_unat_eq_iff)
qed

section \<open>A window holds the newest value of every id\<close>

text \<open>
  The contract shared by containers that keep the newest measurement per id: an accepted
  update replaces a slot exactly when the new time is larger.
\<close>

locale newest_store =
  fixes init :: 's
    and get :: "'s \<Rightarrow> Id \<Rightarrow> meas"
    and upd :: "'s \<Rightarrow> meas \<Rightarrow> 's result"
    and accepts :: "meas \<Rightarrow> bool"
  assumes get_init: "get init i = empty_meas"
    and accepts_pos: "accepts m \<Longrightarrow> 0 < m_time m"
    and get_upd: "accepts m \<Longrightarrow> \<exists>s'. upd s m = Inr s' \<and>
      (\<forall>i. get s' i = (if i = m_id m \<and> m_time (get s i) < m_time m then m else get s i))"
begin

lemma upd_all_mono:
  "list_all accepts ms \<Longrightarrow> \<exists>s'. fold_r upd s ms = Inr s' \<and>
    (\<forall>i. m_time (get s i) \<le> m_time (get s' i)) \<and>
    (\<forall>m \<in> set ms. m_time m \<le> m_time (get s' (m_id m))) \<and>
    (\<forall>i. get s' i = get s i \<or> get s' i \<in> set ms \<and> m_id (get s' i) = i)"
proof (induction ms arbitrary: s)
  case Nil
  then show ?case by simp
next
  case (Cons m ms)
  then obtain s1 where s1: "upd s m = Inr s1"
    "\<And>i. get s1 i = (if i = m_id m \<and> m_time (get s i) < m_time m then m else get s i)"
    using get_upd [of m s] by auto
  from Cons obtain s' where s': "fold_r upd s1 ms = Inr s'"
    "\<And>i. m_time (get s1 i) \<le> m_time (get s' i)"
    "\<And>x. x \<in> set ms \<Longrightarrow> m_time x \<le> m_time (get s' (m_id x))"
    "\<And>i. get s' i = get s1 i \<or> get s' i \<in> set ms \<and> m_id (get s' i) = i"
    by auto metis
  have "m_time (get s i) \<le> m_time (get s' i)" for i
    using s1(2) [of i] s'(2) [of i] by (auto split: if_splits)
  moreover have "m_time m \<le> m_time (get s' (m_id m))"
    using s1(2) [of "m_id m"] s'(2) [of "m_id m"] by (auto split: if_splits)
  moreover have "get s' i = get s i \<or> get s' i \<in> set (m # ms) \<and> m_id (get s' i) = i" for i
    using s1(2) [of i] s'(4) [of i] by (auto split: if_splits)
  ultimately show ?case using s1(1) s'(1,3) by auto
qed

lemma upd_all_newest:
  assumes "list_all accepts ms"
  shows "\<exists>s'. fold_r upd init ms = Inr s' \<and>
    (\<forall>m \<in> set ms. m_time m \<le> m_time (get s' (m_id m)) \<and>
       get s' (m_id m) \<in> set ms \<and> m_id (get s' (m_id m)) = m_id m) \<and>
    (\<forall>i. i \<notin> m_id ` set ms \<longrightarrow> get s' i = empty_meas)"
proof -
  obtain s' where s': "fold_r upd init ms = Inr s'"
    "\<And>m. m \<in> set ms \<Longrightarrow> m_time m \<le> m_time (get s' (m_id m))"
    "\<And>i. get s' i = empty_meas \<or> get s' i \<in> set ms \<and> m_id (get s' i) = i"
    using upd_all_mono [OF assms, of init] by (auto simp: get_init)
  have "get s' (m_id m) \<noteq> empty_meas" if "m \<in> set ms" for m
  proof -
    have "0 < m_time m" using that assms accepts_pos by (auto simp: list_all_iff)
    from this s'(2) [OF that] have "0 < m_time (get s' (m_id m))" by (rule less_le_trans)
    then show ?thesis by (auto simp: empty_meas_def)
  qed
  with s' show ?thesis by (metis imageI)
qed

end

definition window_accepts :: "meas \<Rightarrow> bool" where
  "window_accepts m \<longleftrightarrow> m_id m \<noteq> - 1 \<and> 0 < m_time m"

interpretation ww: newest_store "[]" ww_get updateWriteWindow window_accepts
proof unfold_locales
  show "\<exists>w'. updateWriteWindow w m = Inr w' \<and>
      (\<forall>i. ww_get w' i = (if i = m_id m \<and> m_time (ww_get w i) < m_time m then m else ww_get w i))"
    if "window_accepts m" for w m
    using that by (intro ww_get_update) (simp_all add: window_accepts_def)
qed (simp_all add: window_accepts_def)

text \<open>
  C37. A window built from the empty one shows, for every id that was written, a measurement
  of that id with the largest time written, and the zero measurement for every other id.
  Measurements with time 0 or with the largest id are excluded: the former never replace a
  slot, the latter make the vector access throw.
\<close>

theorem window_holds_newest:
  assumes "list_all window_accepts ms"
  shows "\<exists>w. updateAll [] ms = Inr w \<and>
    (\<forall>m \<in> set ms. m_time m \<le> m_time (ww_get w (m_id m)) \<and>
       ww_get w (m_id m) \<in> set ms \<and> m_id (ww_get w (m_id m)) = m_id m) \<and>
    (\<forall>i. i \<notin> m_id ` set ms \<longrightarrow> ww_get w i = empty_meas)"
  by (rule ww.upd_all_newest [OF assms])

theorem window_holds_newest_witness:
  "\<exists>w. updateAll [] [empty_meas\<lparr>m_id := 2, m_time := 7\<rparr>, empty_meas\<lparr>m_id := 2, m_time := 5\<rparr>] = Inr w \<and>
     7 \<le> m_time (ww_get w 2)"
  using window_holds_newest
    [of "[empty_meas\<lparr>m_id := 2, m_time := 7\<rparr>, empty_meas\<lparr>m_id := 2, m_time := 5\<rparr>]"]
  by (auto simp: window_accepts_def)

section \<open>Well-formed windows and the window file\<close>

text \<open>
  Every slot is either the zero measurement or a measurement whose id is the slot, and the
  last slot belongs to the id that made the vector grow.
\<close>

definition ww_wf :: "write_window \<Rightarrow> bool" where
  "ww_wf w \<longleftrightarrow> (\<forall>i < length w. w ! i = empty_meas \<or> unat (m_id (w ! i)) = i) \<and>
     (w \<noteq> [] \<longrightarrow> unat (m_id (last w)) = length w - 1) \<and> length w < 2 ^ 64"

lemma ww_wf_Nil [simp]: "ww_wf []"
  by (simp add: ww_wf_def)

lemma ww_wf_update [nkv_wf]:
  assumes "ww_wf w" and "updateWriteWindow w m = Inr w'"
  shows "ww_wf w'"
proof (cases "length w \<le> unat (m_id m)")
  case True
  have "m_id m \<noteq> - 1"
    using assms updateWriteWindow_max_id [of m w] True by auto
  moreover then have "unat (m_id m) < 2 ^ 64 - 1"
    using unat_inc [of "m_id m"] unsigned_less [of "m_id m + 1", where 'a = nat] by simp
  ultimately show ?thesis
    using assms True
    by (auto simp: updateWriteWindow_grow ww_wf_def nth_append nth_Cons' all_conj_distrib
          simp del: One_nat_def) metis+
next
  case False
  then show ?thesis
    using assms by (cases "w = []")
      (auto simp: updateWriteWindow_in_range ww_wf_def nth_list_update last_list_update
        split: if_splits)
qed

lemma ww_wf_updateAll [nkv_wf]: "ww_wf w \<Longrightarrow> updateAll w ms = Inr w' \<Longrightarrow> ww_wf w'"
  by (rule fold_r_invariant [where P = ww_wf]) (auto intro: ww_wf_update)

lemma update_empty_noop: "w \<noteq> [] \<Longrightarrow> updateWriteWindow w empty_meas = Inr w"
  by (simp add: updateWriteWindow_in_range empty_meas_def)

text \<open>
  Loading the slots of a window one by one: zero slots change nothing, a written slot grows
  the vector to its id, so what is loaded is the window up to its last written slot.
\<close>

lemma load_slots:
  assumes "\<forall>i < length w. w ! i = empty_meas \<or> unat (m_id (w ! i)) = i"
    and "length w < 2 ^ 64"
  shows "\<exists>w'. updateAll [] w = Inr w' \<and> length w' \<le> length w \<and>
    w' @ replicate (length w - length w') empty_meas = w \<and> (w \<noteq> [] \<longrightarrow> w' \<noteq> []) \<and>
    (w \<noteq> [] \<and> unat (m_id (last w)) = length w - 1 \<longrightarrow> w' = w)"
  using assms
proof (induction w rule: rev_induct)
  case Nil
  then show ?case by simp
next
  case (snoc m w)
  have slots: "\<forall>i < length w. w ! i = empty_meas \<or> unat (m_id (w ! i)) = i"
    using snoc.prems(1) by (auto simp: nth_append split: if_splits)
  from snoc.IH [OF slots] snoc.prems(2) obtain w' where w': "updateAll [] w = Inr w'"
    "length w' \<le> length w" "w' @ replicate (length w - length w') empty_meas = w"
    "w \<noteq> [] \<longrightarrow> w' \<noteq> []"
    by auto
  have m: "m = empty_meas \<or> unat (m_id m) = length w"
    using snoc.prems(1) by (auto simp: nth_append)
  have max: "unat (- 1 :: u64) = 2 ^ 64 - 1" by (simp add: unsigned_minus_1_eq_mask mask_eq_exp_minus_1)
  show ?case
  proof (cases "unat (m_id m) = length w")
    case True
    have "m_id m \<noteq> - 1" using True snoc.prems(2) max by auto
    with True w' have "updateAll [] (w @ [m]) = Inr (w @ [m])"
      by (simp add: fold_r_append updateWriteWindow_grow append_assoc [symmetric]
            del: append_assoc)
    then show ?thesis by simp
  next
    case False
    with m have "m = empty_meas" "w \<noteq> []" by (auto simp: empty_meas_def)
    moreover have "w' @ replicate (Suc (length w) - length w') empty_meas = w @ [empty_meas]"
      using w'(2,3) by (simp add: Suc_diff_le flip: replicate_append_same)
    ultimately show ?thesis
      using False w' by (auto simp: fold_r_append update_empty_noop)
  qed
qed

lemma window_reload:
  assumes "ww_wf w" and "w \<noteq> []"
  shows "load_window_file [] (flush_window_file w file) = Inr w"
proof -
  from load_slots [of w] assms have "updateAll [] w = Inr w" by (auto simp: ww_wf_def)
  with assms(2) show ?thesis
    by (simp add: load_window_file_def flush_window_file_def fold_r_append update_empty_noop)
qed

lemma foldl_copy:
  "k \<le> length other \<Longrightarrow> length other < 2 ^ 64 \<Longrightarrow> length w = length other \<Longrightarrow>
   foldl (\<lambda>w i. w[i := ww_get other (of_nat i)]) w [0..<k] = take k other @ drop k w"
proof (induction k)
  case 0
  then show ?case by simp
next
  case (Suc k)
  have "ww_get other (of_nat k) = other ! k"
    using Suc.prems by (simp add: ww_get_def unat_of_nat)
  with Suc show ?case
    by (simp add: list_update_append take_Suc_conv_app_nth Cons_nth_drop_Suc [symmetric])
qed

text \<open>The element-wise assignment of the class is a plain copy.\<close>

lemma ww_assign_copy [simp]: "length other < 2 ^ 64 \<Longrightarrow> ww_assign this other = other"
  by (auto simp: ww_assign_def foldl_copy)

end
