(* ===== verification/Page.thy ===== *)
theory Page
  imports Index Write_Window
begin

text \<open>
  A page of the storage: \<^verbatim>\<open>include/page.h\<close> and \<^verbatim>\<open>libnkvdb/page.cpp\<close>. A page is a mapped file: a header of
  224 bytes, the array of 48-byte measurement records that grows upwards from it, and the values of
  the measurements, which grow downwards from the end of the file. The header is a record here, the
  rest is byte memory. A page owns its index and its write window.
\<close>

section \<open>Layout\<close>

definition sizeof_Header :: nat where
  "sizeof_Header = 224"

definition sizeof_Meas :: nat where
  "sizeof_Meas = 56"

definition sizeof_InternalMeas :: nat where
  "sizeof_InternalMeas = 48"

lemmas sizeof_defs = sizeof_Header_def sizeof_Meas_def sizeof_InternalMeas_def

definition calc_size :: "nat \<Rightarrow> nat" where
  "calc_size n = sizeof_Header + sizeof_Meas * n + 8 * n"

definition page_size_to_count :: "nat \<Rightarrow> nat" where
  "page_size_to_count fsize = sub64 fsize sizeof_Header div sizeof_InternalMeas"

definition indexCacheSize :: nat where
  "indexCacheSize = 1000000"

definition page_version :: nat where
  "page_version = 3"

record page_header =
  h_version :: nat
  h_isOpen :: bool
  h_readers :: nat
  h_minMaxInit :: bool
  h_minTime :: Time
  h_maxTime :: Time
  h_write_pos :: nat
  h_write_value_pos :: nat
  h_size :: nat
  h_ww_size :: nat
  h_id_fltr :: Id
  h_flag_fltr :: Flag
  h_src_fltr :: Flag

definition zero_header :: page_header where
  "zero_header = \<lparr>h_version = 0, h_isOpen = False, h_readers = 0, h_minMaxInit = False, h_minTime = 0,
     h_maxTime = 0, h_write_pos = 0, h_write_value_pos = 0, h_size = 0, h_ww_size = 0, h_id_fltr = 0,
     h_flag_fltr = 0, h_src_fltr = 0\<rparr>"

text \<open>\<open>pg_mapped\<close> is \<^verbatim>\<open>m_file != nullptr\<close>; \<open>pg_window_file\<close> is the write window file on disk.\<close>

record page =
  pg_header :: page_header
  pg_raw :: mem
  pg_index :: index
  pg_window :: write_window
  pg_window_file :: "meas list option"
  pg_mapped :: bool

text \<open>What a page leaves on disk: page file, index file, window file.\<close>

record page_files =
  pf_header :: page_header
  pf_raw :: mem
  pf_index :: "index_file option"
  pf_window :: "meas list option"

section \<open>Measurement records\<close>

record InternalMeas =
  im_id :: Id
  im_time :: Time
  im_source :: Flag
  im_flag :: Flag
  im_size :: u64
  im_value_pos :: u64

definition InternalMeas_of :: "meas \<Rightarrow> u64 \<Rightarrow> InternalMeas" where
  "InternalMeas_of value vp = \<lparr>im_id = m_id value, im_time = m_time value, im_source = m_source value,
     im_flag = m_flag value, im_size = m_size value, im_value_pos = vp\<rparr>"

definition writeToMeas :: "InternalMeas \<Rightarrow> meas \<Rightarrow> meas" where
  "writeToMeas im other = other\<lparr>m_id := im_id im, m_flag := im_flag im, m_size := im_size im,
     m_source := im_source im, m_time := im_time im\<rparr>"

text \<open>The object representation, field by field in declaration order.\<close>

definition im_bytes :: "InternalMeas \<Rightarrow> u8 list" where
  "im_bytes im = le_bytes 8 (im_id im) @ le_bytes 8 (im_time im) @ le_bytes 8 (im_source im) @
     le_bytes 8 (im_flag im) @ le_bytes 8 (im_size im) @ le_bytes 8 (im_value_pos im)"

definition im_load :: "mem \<Rightarrow> nat \<Rightarrow> InternalMeas" where
  "im_load raw off = (let f = (\<lambda>i. le_word (mem_read raw (off + 8 * i) 8)) in
     \<lparr>im_id = f 0, im_time = f 1, im_source = f 2, im_flag = f 3, im_size = f 4, im_value_pos = f 5\<rparr>)"

definition im_off :: "nat \<Rightarrow> nat" where
  "im_off i = sizeof_Header + sizeof_InternalMeas * i"

section \<open>Creating, opening and closing\<close>

definition page_disk :: "page \<Rightarrow> page_files" where
  "page_disk pg = \<lparr>pf_header = pg_header pg, pf_raw = pg_raw pg,
     pf_index = Some (ix_header (pg_index pg), ix_data (pg_index pg)), pf_window = pg_window_file pg\<rparr>"

definition initHeader :: "nat \<Rightarrow> page_header" where
  "initHeader fsize = zero_header\<lparr>h_version := page_version, h_size := fsize, h_write_value_pos := fsize,
     h_minMaxInit := False\<rparr>"

text \<open>
  \<^verbatim>\<open>Page::Create\<close>; index and window file of an older page with the same name are still there. The
  header must fit the file.
\<close>

definition page_Create :: "index_file option \<Rightarrow> meas list option \<Rightarrow> nat \<Rightarrow> page result" where
  "page_Create old_index old_window fsize =
     bind_r (index_open indexCacheSize old_index (page_size_to_count fsize div 10)) (\<lambda>ix.
       if fsize < sizeof_Header then Inl Undefined
       else Inr \<lparr>pg_header = (initHeader fsize)\<lparr>h_isOpen := True\<rparr>, pg_raw = (\<lambda>_. 0), pg_index = ix,
              pg_window = [], pg_window_file = old_window, pg_mapped = True\<rparr>)"

definition page_minTime :: "page \<Rightarrow> Time" where
  "page_minTime pg = h_minTime (pg_header pg)"

definition page_maxTime :: "page \<Rightarrow> Time" where
  "page_maxTime pg = h_maxTime (pg_header pg)"

definition page_ReadHeader :: "page_files option \<Rightarrow> page_header result" where
  "page_ReadHeader files = (case files of
     None \<Rightarrow> Inl (Exception ''can't open file'')
   | Some f \<Rightarrow> Inr (pf_header f))"

definition page_Open :: "page_files option \<Rightarrow> bool \<Rightarrow> page result" where
  "page_Open files readOnly =
     bind_r (if \<not> readOnly
             then bind_r (page_ReadHeader files) (\<lambda>hdr.
                    if h_isOpen hdr then Inl (Exception ''page is already openned'') else Inr ())
             else Inr ()) (\<lambda>_.
     case files of
       None \<Rightarrow> Inl (Exception ''can't map file'')
     | Some f \<Rightarrow>
         if h_version (pf_header f) \<noteq> page_version then Inl (Exception ''page format error.'')
         else bind_r (index_open indexCacheSize (pf_index f) (page_size_to_count (h_size (pf_header f)) div 20))
           (\<lambda>ix.
              let hdr = (pf_header f)\<lparr>h_isOpen := True\<rparr>;
                  hdr' = (if readOnly then hdr\<lparr>h_readers := h_readers hdr + 1\<rparr> else hdr)
              in bind_r (load_window_file [] (pf_window f)) (\<lambda>w.
                   Inr \<lparr>pg_header = hdr', pg_raw = pf_raw f, pg_index = ix, pg_window = w,
                        pg_window_file = pf_window f, pg_mapped = True\<rparr>)))"

definition page_flushWriteWindow :: "page \<Rightarrow> page" where
  "page_flushWriteWindow pg =
     pg\<lparr>pg_header := (pg_header pg)\<lparr>h_ww_size := length (pg_window pg)\<rparr>,
        pg_window_file := flush_window_file (pg_window pg) (pg_window_file pg)\<rparr>"

definition page_flushIndex :: "page \<Rightarrow> page result" where
  "page_flushIndex pg = bind_r (index_flush (pg_index pg)) (\<lambda>ix. Inr (pg\<lparr>pg_index := ix\<rparr>))"

definition page_close :: "page \<Rightarrow> page result" where
  "page_close pg =
     (if pg_mapped pg
      then bind_r (page_flushIndex (page_flushWriteWindow pg)) (\<lambda>pg1.
           bind_r (page_flushIndex pg1) (\<lambda>pg2.
             Inr (pg2\<lparr>pg_header := (pg_header pg2)\<lparr>h_isOpen := False, h_readers := 0\<rparr>, pg_mapped := False\<rparr>)))
      else Inr pg)"

definition readComplete :: "page \<Rightarrow> page result" where
  "readComplete pg =
     (if h_readers (pg_header pg) \<noteq> 0
      then let pg1 = pg\<lparr>pg_header := (pg_header pg)\<lparr>h_readers := h_readers (pg_header pg) - 1\<rparr>\<rparr>
           in if h_readers (pg_header pg1) = 0 then page_close pg1 else Inr pg1
      else Inr pg)"

definition getWriteWindow :: "page \<Rightarrow> write_window" where
  "getWriteWindow pg = ww_copy (pg_window pg)"

definition setWriteWindow :: "page \<Rightarrow> write_window \<Rightarrow> page" where
  "setWriteWindow pg other = pg\<lparr>pg_window := ww_assign (pg_window pg) (ww_copy other)\<rparr>"

definition page_size :: "page \<Rightarrow> nat" where
  "page_size pg = h_size (pg_header pg)"

section \<open>Appending\<close>

text \<open>The gap between the two areas, computed with the size of a full measurement per record.\<close>

definition page_isFull :: "page \<Rightarrow> bool" where
  "page_isFull pg \<longleftrightarrow>
     sub64 (h_write_value_pos (pg_header pg)) (sizeof_Header + sizeof_Meas * h_write_pos (pg_header pg)) < sizeof_Meas"

definition page_capacity :: "page \<Rightarrow> nat" where
  "page_capacity pg =
     sub64 (h_size (pg_header pg)) (sizeof_Header + sizeof_Meas * h_write_pos (pg_header pg)) div sizeof_Meas"

definition updateMinMax :: "page_header \<Rightarrow> meas \<Rightarrow> page_header" where
  "updateMinMax hdr value =
     (if h_minMaxInit hdr
      then hdr\<lparr>h_minTime := min (m_time value) (h_minTime hdr), h_maxTime := max (m_time value) (h_maxTime hdr)\<rparr>
      else hdr\<lparr>h_minMaxInit := True, h_minTime := m_time value, h_maxTime := m_time value\<rparr>)"

definition page_window_step :: "page \<Rightarrow> meas \<Rightarrow> page result" where
  "page_window_step pg value = bind_r (updateWriteWindow (pg_window pg) value) (\<lambda>w.
     Inr (pg\<lparr>pg_window := w, pg_header := (pg_header pg)\<lparr>h_ww_size := length w\<rparr>\<rparr>))"

definition page_filters :: "page_header \<Rightarrow> meas \<Rightarrow> page_header" where
  "page_filters hdr value = hdr\<lparr>h_id_fltr := bloom_add (h_id_fltr hdr) (m_id value),
     h_flag_fltr := bloom_add (h_flag_fltr hdr) (m_flag value),
     h_src_fltr := bloom_add (h_src_fltr hdr) (m_source value)\<rparr>"

text \<open>
  Storing value and record. A value that is larger than \<^verbatim>\<open>Meas::value\<close>, a target outside of the mapped
  file, and a target that runs into the header are undefined.
\<close>

definition store_meas :: "page \<Rightarrow> meas \<Rightarrow> page result" where
  "store_meas pg value =
     (let hdr = pg_header pg;
          sz = unat (m_size value);
          new_pos = sub64 (h_write_value_pos hdr) sz;
          im = InternalMeas_of value (of_nat new_pos);
          off = im_off (h_write_pos hdr)
      in if sz \<le> value_capacity \<and> sizeof_Header \<le> new_pos \<and> new_pos + sz \<le> h_size hdr \<and>
            off + sizeof_InternalMeas \<le> h_size hdr
         then Inr (pg\<lparr>pg_raw := mem_write (mem_write (pg_raw pg) new_pos (take sz (m_value value))) off (im_bytes im),
                      pg_header := hdr\<lparr>h_write_value_pos := new_pos\<rparr>\<rparr>)
         else Inl Undefined)"

text \<open>
  The append of one measurement. The filter fields of the index record are not initialised in
  the source: \<open>junk\<close> is what they happen to hold.
\<close>

definition page_append :: "Flag \<times> Flag \<Rightarrow> page \<Rightarrow> meas \<Rightarrow> (page \<times> append_result) result" where
  "page_append junk pg value =
     (if h_readers (pg_header pg) \<noteq> 0 then Inl Assert_failed
      else if page_isFull pg then Inr (pg, empty_result)
      else
        bind_r (page_window_step (pg\<lparr>pg_header := updateMinMax (pg_header pg) value\<rparr>) value) (\<lambda>pg1.
        bind_r (store_meas (pg1\<lparr>pg_header := page_filters (pg_header pg1) value\<rparr>) value) (\<lambda>pg2.
          let rec = \<lparr>r_pos = of_nat (h_write_pos (pg_header pg2)), r_count = 1, r_minTime = m_time value,
                     r_maxTime = m_time value, r_minId = m_id value, r_maxId = m_id value,
                     r_flg_fltr = fst junk, r_src_fltr = snd junk\<rparr>
          in bind_r (writeIndexRec (pg_index pg2) rec) (\<lambda>ix.
               Inr (pg2\<lparr>pg_index := ix, pg_header := (pg_header pg2)\<lparr>h_write_pos := h_write_pos (pg_header pg2) + 1\<rparr>\<rparr>,
                    add_result empty_result \<lparr>writed = 1, ignored = 0\<rparr>)))))"

text \<open>
  The append of an array. The loop state: the page, \<^verbatim>\<open>res.writed\<close>, \<^verbatim>\<open>start\<close>, \<^verbatim>\<open>write_pos_begin\<close> and the two
  filter accumulators, which the source feeds with ids and from each other.
\<close>

record batch =
  b_page :: page
  b_writed :: nat
  b_start :: nat
  b_pos_begin :: nat
  b_flg :: Flag
  b_src :: Flag

definition batch_record :: "batch \<Rightarrow> Time \<Rightarrow> Time \<Rightarrow> Id \<Rightarrow> Id \<Rightarrow> nat \<Rightarrow> IndexRecord" where
  "batch_record b t1 t2 i1 i2 n = \<lparr>r_pos = of_nat (b_pos_begin b), r_count = of_nat n, r_minTime = t1,
     r_maxTime = t2, r_minId = i1, r_maxId = i2, r_flg_fltr = b_flg b, r_src_fltr = b_src b\<rparr>"

definition batch_store :: "batch \<Rightarrow> meas \<Rightarrow> batch result" where
  "batch_store b value =
     (let flg = bloom_add (b_src b) (m_id value);
          src = bloom_add flg (m_id value)
      in bind_r (page_window_step (b_page b) value) (\<lambda>pg1.
         bind_r (store_meas pg1 value) (\<lambda>pg2.
           let hdr = page_filters (pg_header pg2) value
           in Inr (b\<lparr>b_page := pg2\<lparr>pg_header := hdr\<lparr>h_write_pos := h_write_pos hdr + 1\<rparr>\<rparr>,
                     b_writed := b_writed b + 1, b_flg := flg, b_src := src\<rparr>))))"

definition batch_hundred :: "meas list \<Rightarrow> nat \<Rightarrow> batch \<Rightarrow> batch result" where
  "batch_hundred begin i b =
     (if i \<noteq> 0 \<and> i mod 100 = 0
      then let first = begin ! b_start b; last = begin ! (i - 1);
               rec = batch_record b (m_time first) (m_time last) (m_time first) (m_time last) 100
           in bind_r (writeIndexRec (pg_index (b_page b)) rec) (\<lambda>ix.
                Inr (b\<lparr>b_page := (b_page b)\<lparr>pg_index := ix\<rparr>, b_pos_begin := b_pos_begin b + 100, b_start := i,
                       b_flg := 0, b_src := 0\<rparr>))
      else Inr b)"

fun batch_loop :: "meas list \<Rightarrow> nat \<Rightarrow> meas list \<Rightarrow> batch \<Rightarrow> (nat \<times> batch) result" where
  "batch_loop begin i [] b = Inr (i, b)"
| "batch_loop begin i (value # rest) b =
     (if page_isFull (b_page b) then Inr (i, b)
      else bind_r (batch_store b value) (\<lambda>b1.
           bind_r (batch_hundred begin i b1) (\<lambda>b2. batch_loop begin (i + 1) rest b2)))"

definition batch_rest :: "meas list \<Rightarrow> nat \<Rightarrow> batch \<Rightarrow> page result" where
  "batch_rest begin i b =
     (if b_start b \<noteq> i
      then let first = begin ! b_start b; last = begin ! (i - 1);
               rec = batch_record b (m_time first) (m_time last) (m_id first) (m_id last) (i - b_start b)
           in bind_r (writeIndexRec (pg_index (b_page b)) rec) (\<lambda>ix. Inr ((b_page b)\<lparr>pg_index := ix\<rparr>))
      else Inr (b_page b))"

definition page_append_many :: "page \<Rightarrow> meas list \<Rightarrow> (page \<times> append_result) result" where
  "page_append_many pg begin =
     bind_r (batch_loop begin 0 begin \<lparr>b_page = pg, b_writed = 0, b_start = 0,
               b_pos_begin = h_write_pos (pg_header pg), b_flg = 0, b_src = 0\<rparr>) (\<lambda>(i, b).
     bind_r (batch_rest begin i b) (\<lambda>pg1.
       let n = b_writed b;
           hdr = pg_header pg1;
           hdr' = (if n \<noteq> 0 then updateMinMax (updateMinMax hdr (begin ! 0)) (begin ! (n - 1)) else hdr)
       in Inr (pg1\<lparr>pg_header := hdr'\<rparr>, \<lparr>writed = n, ignored = 0\<rparr>)))"

section \<open>Reading\<close>

text \<open>
  \<open>page_read pg res position\<close> reads into \<open>res\<close>; \<open>None\<close> is the result false. The value goes through an
  \<^verbatim>\<open>int64_t\<close>, so that a stored value of more than 8 bytes overruns it.
\<close>

definition page_read :: "page \<Rightarrow> meas \<Rightarrow> nat \<Rightarrow> meas option result" where
  "page_read pg res position =
     (let hdr = pg_header pg in
      if h_write_pos hdr = 0 then Inr None
      else if h_write_pos hdr \<le> position then Inr None
      else let im = im_load (pg_raw pg) (im_off position);
               sz = unat (im_size im); vp = unat (im_value_pos im)
           in if sz \<le> 8 \<and> vp + sz \<le> h_size hdr
              then let bytes = mem_read (pg_raw pg) vp sz @ replicate (8 - sz) 0
                   in bind_r (setValue bytes (writeToMeas im res)) (\<lambda>m. Inr (Some (m\<lparr>m_size := im_size im\<rparr>)))
              else Inl Undefined)"

definition HeaderIntervalCheck :: "Time \<Rightarrow> Time \<Rightarrow> page_header \<Rightarrow> bool" where
  "HeaderIntervalCheck from to hdr \<longleftrightarrow> inInterval from to (h_minTime hdr) \<or> inInterval from to (h_maxTime hdr)"

section \<open>Bytes\<close>

lemma length_im_bytes [simp]: "length (im_bytes im) = 48"
  by (simp add: im_bytes_def)

lemma mem_read_append:
  "mem_read (mem_write m off (xs @ ys @ zs)) (off + length xs) (length ys) = ys"
  by (auto simp: mem_read_def mem_write_def nth_append intro!: nth_equalityI)

lemma im_load_same: "im_load (mem_write m off (im_bytes im)) off = im"
proof -
  let ?a = "le_bytes 8 (im_id im)" and ?b = "le_bytes 8 (im_time im)" and ?c = "le_bytes 8 (im_source im)"
    and ?d = "le_bytes 8 (im_flag im)" and ?e = "le_bytes 8 (im_size im)" and ?f = "le_bytes 8 (im_value_pos im)"
  let ?m = "mem_write m off (?a @ ?b @ ?c @ ?d @ ?e @ ?f)"
  note r = mem_read_append [of m off]
  have "mem_read ?m off 8 = ?a" using r [of "[]" ?a "?b @ ?c @ ?d @ ?e @ ?f"] by simp
  moreover have "mem_read ?m (off + 8) 8 = ?b" using r [of ?a ?b "?c @ ?d @ ?e @ ?f"] by simp
  moreover have "mem_read ?m (off + 16) 8 = ?c" using r [of "?a @ ?b" ?c "?d @ ?e @ ?f"] by simp
  moreover have "mem_read ?m (off + 24) 8 = ?d" using r [of "?a @ ?b @ ?c" ?d "?e @ ?f"] by simp
  moreover have "mem_read ?m (off + 32) 8 = ?e" using r [of "?a @ ?b @ ?c @ ?d" ?e ?f] by simp
  moreover have "mem_read ?m (off + 40) 8 = ?f" using r [of "?a @ ?b @ ?c @ ?d @ ?e" ?f "[]"] by simp
  ultimately show ?thesis by (simp add: im_load_def im_bytes_def Let_def)
qed

lemma im_load_other:
  assumes "off + 48 \<le> off' \<or> off' + length bs \<le> off"
  shows "im_load (mem_write m off' bs) off = im_load m off"
proof -
  have "mem_read (mem_write m off' bs) (off + 8 * i) 8 = mem_read m (off + 8 * i) 8" if "i < 6" for i
    by (rule mem_read_write_other) (use assms that in linarith)
  from this [of 0] this [of 1] this [of 2] this [of 3] this [of 4] this [of 5]
  show ?thesis by (simp add: im_load_def Let_def)
qed

section \<open>What a page holds\<close>

text \<open>The measurement stored at a position, and what reading makes of one: bytes beyond its size are zero.\<close>

definition stored_at :: "mem \<Rightarrow> nat \<Rightarrow> meas" where
  "stored_at raw i = (let im = im_load raw (im_off i); sz = unat (im_size im) in
     \<lparr>m_id = im_id im, m_time = im_time im, m_source = im_source im, m_flag = im_flag im,
      m_value = mem_read raw (unat (im_value_pos im)) sz @ replicate (value_capacity - sz) 0, m_size = im_size im\<rparr>)"

definition meas_stored :: "meas \<Rightarrow> meas" where
  "meas_stored m = m\<lparr>m_value := take (unat (m_size m)) (m_value m) @ replicate (value_capacity - unat (m_size m)) 0\<rparr>"

definition page_log :: "page \<Rightarrow> meas list" where
  "page_log pg = map (stored_at (pg_raw pg)) [0..<h_write_pos (pg_header pg)]"

definition page_gap :: "page \<Rightarrow> nat" where
  "page_gap pg = h_write_value_pos (pg_header pg) - (sizeof_Header + sizeof_Meas * h_write_pos (pg_header pg))"

definition entry_ok :: "nat \<Rightarrow> nat \<Rightarrow> mem \<Rightarrow> nat \<Rightarrow> bool" where
  "entry_ok lo hi raw i \<longleftrightarrow> (let im = im_load raw (im_off i) in
     unat (im_size im) \<le> 8 \<and> lo \<le> unat (im_value_pos im) \<and> unat (im_value_pos im) + unat (im_size im) \<le> hi)"

text \<open>Records and values do not overlap, and every value lies in the value area.\<close>

definition page_inv :: "page \<Rightarrow> bool" where
  "page_inv pg \<longleftrightarrow> (let hdr = pg_header pg in
     sizeof_Header + sizeof_Meas * h_write_pos hdr \<le> h_write_value_pos hdr \<and>
     h_write_value_pos hdr \<le> h_size hdr \<and> h_size hdr < 2 ^ 64 \<and>
     (\<forall>i < h_write_pos hdr. entry_ok (h_write_value_pos hdr) (h_size hdr) (pg_raw pg) i))"

lemma page_invD:
  assumes "page_inv pg"
  shows "sizeof_Header + sizeof_Meas * h_write_pos (pg_header pg) \<le> h_write_value_pos (pg_header pg)"
    "h_write_value_pos (pg_header pg) \<le> h_size (pg_header pg)" "h_size (pg_header pg) < 2 ^ 64"
    "\<And>i. i < h_write_pos (pg_header pg) \<Longrightarrow>
       entry_ok (h_write_value_pos (pg_header pg)) (h_size (pg_header pg)) (pg_raw pg) i"
  using assms by (auto simp: page_inv_def Let_def)

lemma page_isFull_gap: "page_inv pg \<Longrightarrow> page_isFull pg \<longleftrightarrow> page_gap pg < sizeof_Meas"
  using page_invD(1-3) [of pg] by (simp add: page_isFull_def page_gap_def)

lemma page_read_ok:
  assumes inv: "page_inv pg" and i: "i < h_write_pos (pg_header pg)"
  shows "page_read pg empty_meas i = Inr (Some (stored_at (pg_raw pg) i))"
proof -
  from page_invD(4) [OF inv i] have
    e: "unat (im_size (im_load (pg_raw pg) (im_off i))) \<le> 8"
      "unat (im_value_pos (im_load (pg_raw pg) (im_off i))) + unat (im_size (im_load (pg_raw pg) (im_off i)))
        \<le> h_size (pg_header pg)"
    by (auto simp: entry_ok_def Let_def)
  have "replicate (8 - k) (0::u8) @ replicate 8 0 = replicate (16 - k) 0" if "k \<le> 8" for k
    using that by (simp flip: replicate_add)
  with e(1) have "(replicate (8 - unat (im_size (im_load (pg_raw pg) (im_off i)))) (0::u8)) @ replicate 8 0 =
    replicate (16 - unat (im_size (im_load (pg_raw pg) (im_off i)))) 0" by blast
  then show ?thesis using e i
    by (simp add: page_read_def Let_def setValue_def stored_at_def writeToMeas_def empty_meas_def value_capacity_def)
qed

section \<open>Storing one measurement\<close>

lemma stored_at_keep:
  assumes e: "entry_ok lo hi raw i" and "im_off i + 48 \<le> off' \<or> off' + length bs \<le> im_off i"
    and "off' + length bs \<le> lo \<or> hi \<le> off'"
  shows "stored_at (mem_write raw off' bs) i = stored_at raw i" "entry_ok lo hi (mem_write raw off' bs) i"
proof -
  let ?im = "im_load raw (im_off i)"
  have l: "im_load (mem_write raw off' bs) (im_off i) = ?im" by (rule im_load_other) (rule assms(2))
  have "mem_read (mem_write raw off' bs) (unat (im_value_pos ?im)) (unat (im_size ?im)) =
      mem_read raw (unat (im_value_pos ?im)) (unat (im_size ?im))"
    by (rule mem_read_write_other) (use e assms(3) in \<open>auto simp: entry_ok_def Let_def\<close>)
  with l show "stored_at (mem_write raw off' bs) i = stored_at raw i" by (simp add: stored_at_def Let_def)
  show "entry_ok lo hi (mem_write raw off' bs) i" using e by (simp add: entry_ok_def l)
qed

lemma entry_ok_widen: "entry_ok lo hi raw i \<Longrightarrow> lo' \<le> lo \<Longrightarrow> entry_ok lo' hi raw i"
  by (auto simp: entry_ok_def Let_def)

text \<open>
  A store into a page that is not full: the measurement is at the end of the log, nothing else moves.
\<close>

definition small_meas :: "meas \<Rightarrow> bool" where
  "small_meas m \<longleftrightarrow> meas_wf m \<and> unat (m_size m) \<le> 8"

lemma store_meas_ok:
  assumes inv: "page_inv pg" and gap: "sizeof_Meas \<le> page_gap pg" and m: "small_meas m"
    and wp: "wp = h_write_pos (pg_header pg)" and np: "np = h_write_value_pos (pg_header pg) - unat (m_size m)"
  obtains raw' where
    "store_meas pg m = Inr (pg\<lparr>pg_raw := raw', pg_header := (pg_header pg)\<lparr>h_write_value_pos := np\<rparr>\<rparr>)"
    "\<And>i. i < wp \<Longrightarrow> stored_at raw' i = stored_at (pg_raw pg) i" "stored_at raw' wp = meas_stored m"
    "\<And>i. i \<le> wp \<Longrightarrow> entry_ok np (h_size (pg_header pg)) raw' i"
proof -
  note d = page_invD [OF inv]
  let ?wvp = "h_write_value_pos (pg_header pg)" and ?hi = "h_size (pg_header pg)" and ?sz = "unat (m_size m)"
  let ?raw = "pg_raw pg" and ?v = "take ?sz (m_value m)"
  have sz: "?sz \<le> 8" "length (m_value m) = 16" using m by (auto simp: small_meas_def meas_wf_def value_capacity_def)
  have g: "224 + 56 * wp + 56 \<le> ?wvp" using gap d(1) wp by (simp add: page_gap_def sizeof_defs)
  have np1: "im_off wp + 48 \<le> np" "np + ?sz = ?wvp" "224 \<le> np" "np < 2 ^ 64"
    using g sz np d(2,3) by (auto simp: im_off_def sizeof_defs)
  have off: "im_off i + 48 \<le> im_off wp" if "i < wp" for i
    using that by (simp add: im_off_def sizeof_defs)
  define im where "im = InternalMeas_of m (of_nat np)"
  define raw1 where "raw1 = mem_write ?raw np ?v"
  define raw' where "raw' = mem_write raw1 (im_off wp) (im_bytes im)"
  have lv: "length ?v = ?sz" using sz by simp
  have st: "store_meas pg m = Inr (pg\<lparr>pg_raw := raw', pg_header := (pg_header pg)\<lparr>h_write_value_pos := np\<rparr>\<rparr>)"
    using np1 d(2,3) sz np wp
    by (simp add: store_meas_def Let_def raw'_def raw1_def im_def value_capacity_def sizeof_defs)
  have old: "stored_at raw' i = stored_at ?raw i \<and> entry_ok ?wvp ?hi raw' i" if i: "i < wp" for i
  proof -
    have e: "entry_ok ?wvp ?hi ?raw i" using d(4) i wp by simp
    have s1: "stored_at raw1 i = stored_at ?raw i" "entry_ok ?wvp ?hi raw1 i"
      unfolding raw1_def using stored_at_keep [OF e, of np ?v] np1 off [OF i] lv by auto
    show ?thesis
      unfolding raw'_def using stored_at_keep [OF s1(2), of "im_off wp" "im_bytes im"] off [OF i] np1 s1(1) by auto
  qed
  have ld: "im_load raw' (im_off wp) = im" by (simp add: raw'_def im_load_same)
  have vp: "unat (im_value_pos im) = np" "im_size im = m_size m"
    using np1(4) by (simp_all add: im_def InternalMeas_of_def unat_of_nat)
  have "mem_read raw' np ?sz = mem_read raw1 np ?sz"
    unfolding raw'_def by (rule mem_read_write_other) (use np1 in simp)
  also have "\<dots> = ?v" unfolding raw1_def by (rule mem_read_write_same) (use lv in simp)
  finally have rd: "mem_read raw' np ?sz = ?v" .
  have new: "stored_at raw' wp = meas_stored m"
    using ld vp rd by (simp add: stored_at_def Let_def meas_stored_def im_def InternalMeas_of_def)
  have "entry_ok np ?hi raw' wp" using ld vp np1 d(2) sz by (simp add: entry_ok_def Let_def)
  then have all: "entry_ok np ?hi raw' i" if "i \<le> wp" for i
    using that old [of i] np1 entry_ok_widen [of ?wvp ?hi raw' i np] by (cases "i = wp") auto
  show ?thesis by (rule that [OF st _ new all]) (use old in auto)
qed

lemma write_cached:
  assumes "ix_cache_pos ix < length (ix_cache ix)"
  obtains ix' where "writeIndexRec ix rec = Inr ix'" "records ix' = insert rec (records ix)"
    "ix_cache_pos ix' = Suc (ix_cache_pos ix)" "length (ix_cache ix') = length (ix_cache ix)"
proof -
  define ix' where "ix' = ix\<lparr>ix_cache := (ix_cache ix)[ix_cache_pos ix := rec], ix_cache_pos := ix_cache_pos ix + 1\<rparr>"
  have "writeIndexRec ix rec = Inr ix'" using assms by (simp add: writeIndexRec_def ix'_def)
  moreover have "waiting ix' = waiting ix @ [rec]" "index_tree_of ix' = index_tree_of ix"
    using assms by (simp_all add: waiting_def ix'_def take_Suc_conv_app_nth)
  then have "records ix' = insert rec (records ix)" by (auto simp: records_def)
  ultimately show ?thesis using that by (simp add: ix'_def)
qed

lemma store_adds:
  assumes inv: "page_inv pg" and gap: "sizeof_Meas + unat (m_size m) \<le> page_gap pg" and m: "small_meas m"
  obtains raw' np where
    "store_meas pg m = Inr (pg\<lparr>pg_raw := raw', pg_header := (pg_header pg)\<lparr>h_write_value_pos := np\<rparr>\<rparr>)"
    "\<forall>pg'. pg_raw pg' = raw' \<longrightarrow> h_write_pos (pg_header pg') = Suc (h_write_pos (pg_header pg)) \<longrightarrow>
       h_write_value_pos (pg_header pg') = np \<longrightarrow> h_size (pg_header pg') = h_size (pg_header pg) \<longrightarrow>
       page_inv pg' \<and> page_log pg' = page_log pg @ [meas_stored m] \<and>
       page_gap pg' = page_gap pg - (sizeof_Meas + unat (m_size m))"
proof -
  let ?wp = "h_write_pos (pg_header pg)"
  define np where "np = h_write_value_pos (pg_header pg) - unat (m_size m)"
  have g: "sizeof_Meas \<le> page_gap pg" using gap by simp
  from store_meas_ok [OF inv g m refl np_def] obtain raw' where
    r: "store_meas pg m = Inr (pg\<lparr>pg_raw := raw', pg_header := (pg_header pg)\<lparr>h_write_value_pos := np\<rparr>\<rparr>)"
      "\<And>i. i < ?wp \<Longrightarrow> stored_at raw' i = stored_at (pg_raw pg) i" "stored_at raw' ?wp = meas_stored m"
      "\<And>i. i \<le> ?wp \<Longrightarrow> entry_ok np (h_size (pg_header pg)) raw' i" by blast
  have b: "sizeof_Header + sizeof_Meas * Suc ?wp \<le> np" "np \<le> h_size (pg_header pg)"
    using gap page_invD(1,2) [OF inv] by (auto simp: page_gap_def np_def sizeof_defs)
  show ?thesis
  proof (rule that [OF r(1)], intro allI impI)
    fix pg' :: page
    assume e: "pg_raw pg' = raw'" "h_write_pos (pg_header pg') = Suc ?wp"
      "h_write_value_pos (pg_header pg') = np" "h_size (pg_header pg') = h_size (pg_header pg)"
    have "page_inv pg'" using b r(4) page_invD(3) [OF inv] by (simp add: page_inv_def Let_def e less_Suc_eq_le)
    moreover have "page_log pg' = page_log pg @ [meas_stored m]" using r(2,3) by (simp add: page_log_def e)
    moreover have "page_gap pg' = page_gap pg - (sizeof_Meas + unat (m_size m))"
      by (simp add: page_gap_def e np_def)
    ultimately show "page_inv pg' \<and> page_log pg' = page_log pg @ [meas_stored m] \<and>
       page_gap pg' = page_gap pg - (sizeof_Meas + unat (m_size m))" by blast
  qed
qed

lemma window_step_ok:
  assumes "m_id m \<noteq> - 1"
  obtains w where "updateWriteWindow (pg_window pg) m = Inr w"
    "page_window_step pg m = Inr (pg\<lparr>pg_window := w, pg_header := (pg_header pg)\<lparr>h_ww_size := length w\<rparr>\<rparr>)"
proof -
  obtain w where "updateWriteWindow (pg_window pg) m = Inr w"
    using updateWriteWindow_grow [of "pg_window pg" m] updateWriteWindow_in_range [of m "pg_window pg"] assms
    by (metis not_le)
  then show ?thesis using that by (simp add: page_window_step_def)
qed

section \<open>The invariant of appending\<close>

text \<open>
  Beside the layout: the header's filters answer yes for everything stored, and the
  index records cover exactly the positions written.
\<close>

definition filters_ok :: "page \<Rightarrow> bool" where
  "filters_ok pg \<longleftrightarrow> (\<forall>m \<in> set (page_log pg). bloom_check (h_id_fltr (pg_header pg)) (m_id m) \<and>
     bloom_check (h_flag_fltr (pg_header pg)) (m_flag m) \<and> bloom_check (h_src_fltr (pg_header pg)) (m_source m))"

definition indexed :: "page \<Rightarrow> bool" where
  "indexed pg \<longleftrightarrow> covers (records (pg_index pg)) = {..<h_write_pos (pg_header pg)} \<and>
     (\<forall>r \<in> records (pg_index pg). rec_ok r)"

definition in_times :: "page \<Rightarrow> bool" where
  "in_times pg \<longleftrightarrow> (\<forall>m \<in> set (page_log pg). h_minMaxInit (pg_header pg) \<and>
     h_minTime (pg_header pg) \<le> m_time m \<and> m_time m \<le> h_maxTime (pg_header pg))"

text \<open>The time span of the header is the span of what is stored, not a wider one.\<close>

definition span_tight :: "page \<Rightarrow> bool" where
  "span_tight pg \<longleftrightarrow> (let hdr = pg_header pg; ts = m_time ` set (page_log pg) in
     if page_log pg = [] then \<not> h_minMaxInit hdr else h_minTime hdr \<in> ts \<and> h_maxTime hdr \<in> ts)"

definition page_ok :: "page \<Rightarrow> bool" where
  "page_ok pg \<longleftrightarrow> page_inv pg \<and> filters_ok pg \<and> indexed pg"

lemma meas_stored_fields [simp]:
  "m_id (meas_stored m) = m_id m" "m_flag (meas_stored m) = m_flag m" "m_source (meas_stored m) = m_source m"
  "m_time (meas_stored m) = m_time m"
  by (simp_all add: meas_stored_def)

lemma filters_add:
  assumes "filters_ok pg" and "page_log pg' = page_log pg @ [meas_stored m]"
    and "h_id_fltr (pg_header pg') = bloom_add (h_id_fltr (pg_header pg)) (m_id m)"
    and "h_flag_fltr (pg_header pg') = bloom_add (h_flag_fltr (pg_header pg)) (m_flag m)"
    and "h_src_fltr (pg_header pg') = bloom_add (h_src_fltr (pg_header pg)) (m_source m)"
  shows "filters_ok pg'"
  using assms bf.check_add_mono bf.check_add_same by (auto simp: filters_ok_def)

lemma page_pos_small:
  assumes "page_inv pg"
  shows "h_write_pos (pg_header pg) < 2 ^ 62"
  using page_invD(1-3) [OF assms] by (simp add: sizeof_defs)

lemma indexed_add:
  assumes "indexed pg" and "records (pg_index pg') = insert r (records (pg_index pg))"
    and "cover r = {h_write_pos (pg_header pg)..<h_write_pos (pg_header pg')}"
    and "h_write_pos (pg_header pg) \<le> h_write_pos (pg_header pg')" and "rec_ok r"
  shows "indexed pg'"
  using assms by (auto simp: indexed_def)

text \<open>The room the appended value needs: either the page is full, or record and value fit.\<close>

definition gap_fits :: "page \<Rightarrow> meas \<Rightarrow> bool" where
  "gap_fits pg m \<longleftrightarrow> page_gap pg < sizeof_Meas \<or> sizeof_Meas + unat (m_size m) \<le> page_gap pg"

text \<open>Storing into a page of which only the parts of the header have changed that do not say where things are.\<close>

lemma store_after:
  assumes inv: "page_inv pg" and m: "small_meas m" and gap: "sizeof_Meas + unat (m_size m) \<le> page_gap pg"
    and h: "pg_raw pg1 = pg_raw pg" "h_write_pos (pg_header pg1) = h_write_pos (pg_header pg)" "h_size (pg_header pg1) = h_size (pg_header pg)"
      "h_write_value_pos (pg_header pg1) = h_write_value_pos (pg_header pg)"
  obtains raw' np where "store_meas pg1 m = Inr (pg1\<lparr>pg_raw := raw', pg_header := (pg_header pg1)\<lparr>h_write_value_pos := np\<rparr>\<rparr>)"
    "\<forall>pg'. pg_raw pg' = raw' \<longrightarrow> h_write_pos (pg_header pg') = Suc (h_write_pos (pg_header pg)) \<longrightarrow>
       h_write_value_pos (pg_header pg') = np \<longrightarrow> h_size (pg_header pg') = h_size (pg_header pg) \<longrightarrow>
       page_inv pg' \<and> page_log pg' = page_log pg @ [meas_stored m] \<and> page_gap pg' = page_gap pg - (sizeof_Meas + unat (m_size m))"
proof -
  have i1: "page_inv pg1" "page_gap pg1 = page_gap pg" "page_log pg1 = page_log pg"
    using inv h by (simp_all add: page_inv_def Let_def page_gap_def page_log_def)
  then have "sizeof_Meas + unat (m_size m) \<le> page_gap pg1" using gap by simp
  from store_adds [OF i1(1) this m] obtain raw' np where
    s: "store_meas pg1 m = Inr (pg1\<lparr>pg_raw := raw', pg_header := (pg_header pg1)\<lparr>h_write_value_pos := np\<rparr>\<rparr>)"
      "\<forall>pg'. pg_raw pg' = raw' \<longrightarrow> h_write_pos (pg_header pg') = Suc (h_write_pos (pg_header pg1)) \<longrightarrow>
       h_write_value_pos (pg_header pg') = np \<longrightarrow> h_size (pg_header pg') = h_size (pg_header pg1) \<longrightarrow>
       page_inv pg' \<and> page_log pg' = page_log pg1 @ [meas_stored m] \<and> page_gap pg' = page_gap pg1 - (sizeof_Meas + unat (m_size m))"
    by blast
  then show ?thesis using that [OF s(1)] unfolding i1(2,3) h(2,3) by simp
qed

lemma page_append_ok:
  assumes ok: "page_ok pg" and rd: "h_readers (pg_header pg) = 0" and m: "small_meas m" "m_id m \<noteq> - 1"
    and fits: "gap_fits pg m" and cache: "ix_cache_pos (pg_index pg) < length (ix_cache (pg_index pg))"
    and nf: "\<not> page_isFull pg"
  obtains pg' where "page_append junk pg m = Inr (pg', \<lparr>writed = 1, ignored = 0\<rparr>)" "page_ok pg'"
    "page_log pg' = page_log pg @ [meas_stored m]" "updateWriteWindow (pg_window pg) m = Inr (pg_window pg')"
    "in_times pg \<Longrightarrow> in_times pg'" "page_gap pg' = page_gap pg - (sizeof_Meas + unat (m_size m))"
    "h_readers (pg_header pg') = 0"
proof -
  have inv: "page_inv pg" and fl: "filters_ok pg" and ixd: "indexed pg" using ok by (auto simp: page_ok_def)
  have gap: "sizeof_Meas + unat (m_size m) \<le> page_gap pg"
    using fits nf page_isFull_gap [OF inv] by (auto simp: gap_fits_def)
  define pg0 where "pg0 = pg\<lparr>pg_header := updateMinMax (pg_header pg) m\<rparr>"
  from window_step_ok [OF m(2), of pg0] obtain w where
    w: "updateWriteWindow (pg_window pg0) m = Inr w"
      "page_window_step pg0 m = Inr (pg0\<lparr>pg_window := w, pg_header := (pg_header pg0)\<lparr>h_ww_size := length w\<rparr>\<rparr>)" by blast
  define pg1 where "pg1 = pg0\<lparr>pg_window := w,
    pg_header := page_filters ((pg_header pg0)\<lparr>h_ww_size := length w\<rparr>) m\<rparr>"
  have h1: "h_write_pos (pg_header pg1) = h_write_pos (pg_header pg)" "h_size (pg_header pg1) = h_size (pg_header pg)"
    "h_write_value_pos (pg_header pg1) = h_write_value_pos (pg_header pg)" "pg_raw pg1 = pg_raw pg"
    "pg_index pg1 = pg_index pg" "h_readers (pg_header pg1) = 0"
    using rd by (simp_all add: pg1_def pg0_def page_filters_def updateMinMax_def)
  obtain raw' np where
    s: "store_meas pg1 m = Inr (pg1\<lparr>pg_raw := raw', pg_header := (pg_header pg1)\<lparr>h_write_value_pos := np\<rparr>\<rparr>)"
    and a: "\<forall>pg'. pg_raw pg' = raw' \<longrightarrow> h_write_pos (pg_header pg') = Suc (h_write_pos (pg_header pg)) \<longrightarrow>
       h_write_value_pos (pg_header pg') = np \<longrightarrow> h_size (pg_header pg') = h_size (pg_header pg) \<longrightarrow>
       page_inv pg' \<and> page_log pg' = page_log pg @ [meas_stored m] \<and> page_gap pg' = page_gap pg - (sizeof_Meas + unat (m_size m))"
    by (rule store_after [OF inv m(1) gap h1(4,1,2,3)])
  define rec where "rec = \<lparr>r_pos = of_nat (h_write_pos (pg_header pg)), r_count = 1, r_minTime = m_time m,
    r_maxTime = m_time m, r_minId = m_id m, r_maxId = m_id m, r_flg_fltr = fst junk, r_src_fltr = snd junk\<rparr>"
  from write_cached [OF cache, of rec] obtain ix where
    ix: "writeIndexRec (pg_index pg) rec = Inr ix" "records ix = insert rec (records (pg_index pg))" by blast
  define pg' where "pg' = pg1\<lparr>pg_raw := raw', pg_index := ix,
    pg_header := (pg_header pg1)\<lparr>h_write_value_pos := np, h_write_pos := h_write_pos (pg_header pg1) + 1\<rparr>\<rparr>"
  have app: "page_append junk pg m = Inr (pg', \<lparr>writed = 1, ignored = 0\<rparr>)"
    using rd nf w(2) s ix(1) h1
    by (simp add: page_append_def pg0_def [symmetric] pg1_def [symmetric] rec_def pg'_def Let_def)
  from spec [OF a, of pg'] h1 have p: "page_inv pg'" "page_log pg' = page_log pg @ [meas_stored m]"
    "page_gap pg' = page_gap pg - (sizeof_Meas + unat (m_size m))"
    by (simp_all add: pg'_def)
  have "filters_ok pg'"
    by (rule filters_add [OF fl p(2)]) (simp_all add: pg'_def pg1_def pg0_def page_filters_def updateMinMax_def)
  moreover have "indexed pg'"
  proof (rule indexed_add [OF ixd])
    have "unat (of_nat (h_write_pos (pg_header pg)) :: u64) = h_write_pos (pg_header pg)"
      using page_pos_small [OF inv] by (simp add: unat_of_nat)
    then show "cover rec = {h_write_pos (pg_header pg)..<h_write_pos (pg_header pg')}" "rec_ok rec"
      using page_pos_small [OF inv] by (simp_all add: cover_def rec_ok_def rec_def pg'_def h1)
  qed (simp_all add: pg'_def ix h1)
  ultimately have ok': "page_ok pg'" using p(1) by (simp add: page_ok_def)
  have hh: "h_minMaxInit (pg_header pg') \<and> h_minTime (pg_header pg') = (if h_minMaxInit (pg_header pg) then min (m_time m) (h_minTime (pg_header pg)) else m_time m) \<and>
     h_maxTime (pg_header pg') = (if h_minMaxInit (pg_header pg) then max (m_time m) (h_maxTime (pg_header pg)) else m_time m)"
    by (simp add: pg'_def pg1_def pg0_def page_filters_def updateMinMax_def)
  have tm: "in_times pg'" if "in_times pg"
    using that hh by (auto simp: in_times_def p(2) min_le_iff_disj le_max_iff_disj)
  have win: "updateWriteWindow (pg_window pg) m = Inr (pg_window pg')"
    using w(1) by (simp add: pg'_def pg1_def pg0_def)
  have "h_readers (pg_header pg') = 0" using h1(6) by (simp add: pg'_def)
  with tm show ?thesis by (intro that [OF app ok' p(2) win _ p(3)])
qed

section \<open>The append of an array\<close>

text \<open>Measurements with 8-byte values, for which \<^verbatim>\<open>calc_size\<close> computes page sizes.\<close>

definition meas8 :: "meas \<Rightarrow> bool" where
  "meas8 m \<longleftrightarrow> meas_wf m \<and> m_size m = 8 \<and> m_id m \<noteq> - 1"

lemma meas8D: "meas8 m \<Longrightarrow> small_meas m" "meas8 m \<Longrightarrow> m_id m \<noteq> - 1" "meas8 m \<Longrightarrow> unat (m_size m) = 8"
  by (simp_all add: meas8_def small_meas_def)

definition batch_inv :: "page \<Rightarrow> meas list \<Rightarrow> nat \<Rightarrow> batch \<Rightarrow> bool" where
  "batch_inv pg begin i b \<longleftrightarrow> (let p = b_page b; wp = h_write_pos (pg_header pg) in
     page_inv p \<and> filters_ok p \<and> 64 dvd page_gap p \<and> page_gap p + 64 * i = page_gap pg \<and>
     page_log p = page_log pg @ map meas_stored (take i begin) \<and> h_write_pos (pg_header p) = wp + i \<and>
     b_writed b = i \<and> b_start b = 100 * ((i - 1) div 100) \<and> b_pos_begin b = wp + b_start b \<and>
     covers (records (pg_index p)) = {..<wp + b_start b} \<and> (\<forall>r \<in> records (pg_index p). rec_ok r) \<and>
     ix_cache_pos (pg_index p) \<le> ix_cache_pos (pg_index pg) + b_start b \<and>
     length (ix_cache (pg_index p)) = length (ix_cache (pg_index pg)) \<and>
     updateAll (pg_window pg) (take i begin) = Inr (pg_window p) \<and>
     h_minMaxInit (pg_header p) = h_minMaxInit (pg_header pg) \<and> h_minTime (pg_header p) = h_minTime (pg_header pg) \<and>
     h_maxTime (pg_header p) = h_maxTime (pg_header pg) \<and> h_readers (pg_header p) = h_readers (pg_header pg))"

lemma batch_inv_next:
  assumes inv: "batch_inv pg begin i b" and i: "i < length begin" and gap: "64 \<le> page_gap (b_page b)"
    and q: "page_inv (b_page b2)" "filters_ok (b_page b2)" "page_log (b_page b2) = page_log (b_page b) @ [meas_stored (begin ! i)]"
      "page_gap (b_page b2) = page_gap (b_page b) - 64" "h_write_pos (pg_header (b_page b2)) = Suc (h_write_pos (pg_header (b_page b)))"
      "updateWriteWindow (pg_window (b_page b)) (begin ! i) = Inr (pg_window (b_page b2))"
      "h_minMaxInit (pg_header (b_page b2)) = h_minMaxInit (pg_header (b_page b))"
      "h_minTime (pg_header (b_page b2)) = h_minTime (pg_header (b_page b))"
      "h_maxTime (pg_header (b_page b2)) = h_maxTime (pg_header (b_page b))" "h_readers (pg_header (b_page b2)) = h_readers (pg_header (b_page b))"
    and b2: "b_writed b2 = Suc i" "b_start b2 = 100 * (i div 100)" "b_pos_begin b2 = h_write_pos (pg_header pg) + b_start b2"
      "covers (records (pg_index (b_page b2))) = {..<h_write_pos (pg_header pg) + b_start b2}"
      "\<forall>r \<in> records (pg_index (b_page b2)). rec_ok r"
      "ix_cache_pos (pg_index (b_page b2)) \<le> ix_cache_pos (pg_index pg) + b_start b2"
      "length (ix_cache (pg_index (b_page b2))) = length (ix_cache (pg_index pg))"
  shows "batch_inv pg begin (Suc i) b2"
proof -
  have d: "64 dvd page_gap (b_page b)" "updateAll (pg_window pg) (take i begin) = Inr (pg_window (b_page b))"
    using inv by (auto simp: batch_inv_def Let_def)
  have "64 dvd page_gap (b_page b) - 64" using gap d(1) by (simp add: dvd_diff_nat)
  moreover have "updateAll (pg_window pg) (take (Suc i) begin) = Inr (pg_window (b_page b2))"
    using d(2) q(6) i by (simp add: take_Suc_conv_app_nth fold_r_append)
  ultimately show ?thesis using inv gap q b2 i by (simp add: batch_inv_def Let_def take_Suc_conv_app_nth)
qed

lemma batch_store_ok:
  assumes inv: "batch_inv pg begin i b" and i: "i < length begin" and m: "meas8 (begin ! i)"
    and nf: "\<not> page_isFull (b_page b)"
  obtains b1 where "batch_store b (begin ! i) = Inr b1"
    "b_start b1 = b_start b" "b_pos_begin b1 = b_pos_begin b" "pg_index (b_page b1) = pg_index (b_page b)"
    "\<And>b2. b_page b2 = (b_page b1)\<lparr>pg_index := pg_index (b_page b2)\<rparr> \<Longrightarrow> b_writed b2 = b_writed b1 \<Longrightarrow>
       b_start b2 = 100 * (i div 100) \<Longrightarrow> b_pos_begin b2 = h_write_pos (pg_header pg) + b_start b2 \<Longrightarrow>
       covers (records (pg_index (b_page b2))) = {..<h_write_pos (pg_header pg) + b_start b2} \<Longrightarrow>
       (\<forall>r \<in> records (pg_index (b_page b2)). rec_ok r) \<Longrightarrow>
       ix_cache_pos (pg_index (b_page b2)) \<le> ix_cache_pos (pg_index pg) + b_start b2 \<Longrightarrow>
       length (ix_cache (pg_index (b_page b2))) = length (ix_cache (pg_index pg)) \<Longrightarrow> batch_inv pg begin (Suc i) b2"
proof -
  let ?p = "b_page b" and ?m = "begin ! i"
  have d: "page_inv ?p" "filters_ok ?p" "64 dvd page_gap ?p" "b_writed b = i"
    using inv by (auto simp: batch_inv_def Let_def)
  have gap: "sizeof_Meas + unat (m_size ?m) \<le> page_gap ?p" "64 \<le> page_gap ?p"
    using d(3) nf page_isFull_gap [OF d(1)] meas8D(3) [OF m] by (auto simp: sizeof_defs elim!: dvdE)
  from window_step_ok [OF meas8D(2) [OF m], of ?p] obtain w where
    w: "updateWriteWindow (pg_window ?p) ?m = Inr w"
      "page_window_step ?p ?m = Inr (?p\<lparr>pg_window := w, pg_header := (pg_header ?p)\<lparr>h_ww_size := length w\<rparr>\<rparr>)" by blast
  define p1 where "p1 = ?p\<lparr>pg_window := w, pg_header := (pg_header ?p)\<lparr>h_ww_size := length w\<rparr>\<rparr>"
  obtain raw' np where
    s: "store_meas p1 ?m = Inr (p1\<lparr>pg_raw := raw', pg_header := (pg_header p1)\<lparr>h_write_value_pos := np\<rparr>\<rparr>)"
    and a: "\<forall>pg'. pg_raw pg' = raw' \<longrightarrow> h_write_pos (pg_header pg') = Suc (h_write_pos (pg_header ?p)) \<longrightarrow>
       h_write_value_pos (pg_header pg') = np \<longrightarrow> h_size (pg_header pg') = h_size (pg_header ?p) \<longrightarrow>
       page_inv pg' \<and> page_log pg' = page_log ?p @ [meas_stored ?m] \<and> page_gap pg' = page_gap ?p - (sizeof_Meas + unat (m_size ?m))"
    by (rule store_after [OF d(1) meas8D(1) [OF m] gap(1), of p1]) (simp_all add: p1_def)
  define h where "h = page_filters ((pg_header p1)\<lparr>h_write_value_pos := np\<rparr>) ?m"
  define p2 where "p2 = p1\<lparr>pg_raw := raw', pg_header := h\<lparr>h_write_pos := h_write_pos h + 1\<rparr>\<rparr>"
  define b1 where "b1 = b\<lparr>b_page := p2, b_writed := b_writed b + 1, b_flg := bloom_add (b_src b) (m_id ?m),
    b_src := bloom_add (bloom_add (b_src b) (m_id ?m)) (m_id ?m)\<rparr>"
  have st: "batch_store b ?m = Inr b1"
    using w(2) s by (simp add: batch_store_def Let_def p1_def [symmetric] b1_def p2_def h_def)
  have new: "batch_inv pg begin (Suc i) b2"
    if b2: "b_page b2 = (b_page b1)\<lparr>pg_index := pg_index (b_page b2)\<rparr>" "b_writed b2 = b_writed b1" "b_start b2 = 100 * (i div 100)"
      "b_pos_begin b2 = h_write_pos (pg_header pg) + b_start b2"
      "covers (records (pg_index (b_page b2))) = {..<h_write_pos (pg_header pg) + b_start b2}"
      "\<forall>r \<in> records (pg_index (b_page b2)). rec_ok r"
      "ix_cache_pos (pg_index (b_page b2)) \<le> ix_cache_pos (pg_index pg) + b_start b2"
      "length (ix_cache (pg_index (b_page b2))) = length (ix_cache (pg_index pg))" for b2
  proof (rule batch_inv_next [OF inv i gap(2)])
    have q: "b_page b2 = p2\<lparr>pg_index := pg_index (b_page b2)\<rparr>" using b2(1) by (simp add: b1_def)
    show p: "page_inv (b_page b2)" "page_log (b_page b2) = page_log ?p @ [meas_stored ?m]" "page_gap (b_page b2) = page_gap ?p - 64"
      using spec [OF a, of "p2\<lparr>pg_index := pg_index (b_page b2)\<rparr>"] meas8D(3) [OF m]
      by (subst q; simp add: sizeof_defs p2_def h_def page_filters_def p1_def)+
    show "filters_ok (b_page b2)"
      by (rule filters_add [OF d(2) p(2)]) (subst q; simp add: p2_def h_def p1_def page_filters_def)+
    show "updateWriteWindow (pg_window ?p) ?m = Inr (pg_window (b_page b2))"
      using w(1) by (subst q) (simp add: p2_def p1_def)
  qed (use b2(2-) d(4) in \<open>(subst b2(1))?; simp add: b1_def p2_def h_def p1_def page_filters_def\<close>)+
  show ?thesis by (rule that [OF st _ _ _ new]) (simp_all add: b1_def p2_def p1_def)
qed

lemma batch_record_ok:
  assumes "b_pos_begin b < 2 ^ 62" "n < 2 ^ 62"
  shows "cover (batch_record b t1 t2 i1 i2 n) = {b_pos_begin b..<b_pos_begin b + n}"
    "rec_ok (batch_record b t1 t2 i1 i2 n)"
  using assms by (simp_all add: cover_def rec_ok_def batch_record_def unat_of_nat)

lemma batch_step:
  assumes inv: "batch_inv pg begin i b" and i: "i < length begin" and m: "meas8 (begin ! i)"
    and nf: "\<not> page_isFull (b_page b)"
    and cache: "ix_cache_pos (pg_index pg) + length begin < length (ix_cache (pg_index pg))"
  shows "\<exists>b2. bind_r (batch_store b (begin ! i)) (batch_hundred begin i) = Inr b2 \<and> batch_inv pg begin (Suc i) b2"
proof -
  let ?wp = "h_write_pos (pg_header pg)"
  have d: "page_inv (b_page b)" "b_start b = 100 * ((i - 1) div 100)" "b_pos_begin b = ?wp + b_start b"
    "covers (records (pg_index (b_page b))) = {..<?wp + b_start b}" "\<forall>r \<in> records (pg_index (b_page b)). rec_ok r"
    "ix_cache_pos (pg_index (b_page b)) \<le> ix_cache_pos (pg_index pg) + b_start b"
    "length (ix_cache (pg_index (b_page b))) = length (ix_cache (pg_index pg))"
    "h_write_pos (pg_header (b_page b)) = ?wp + i"
    using inv by (auto simp: batch_inv_def Let_def)
  have small: "b_start b \<le> i" "?wp + i < 2 ^ 62" using d(2) page_pos_small [OF d(1)] d(8) by auto
  obtain b1 where b1: "batch_store b (begin ! i) = Inr b1" "b_start b1 = b_start b" "b_pos_begin b1 = b_pos_begin b"
      "pg_index (b_page b1) = pg_index (b_page b)"
    and new: "\<And>b2. b_page b2 = (b_page b1)\<lparr>pg_index := pg_index (b_page b2)\<rparr> \<Longrightarrow> b_writed b2 = b_writed b1 \<Longrightarrow>
       b_start b2 = 100 * (i div 100) \<Longrightarrow> b_pos_begin b2 = ?wp + b_start b2 \<Longrightarrow>
       covers (records (pg_index (b_page b2))) = {..<?wp + b_start b2} \<Longrightarrow>
       (\<forall>r \<in> records (pg_index (b_page b2)). rec_ok r) \<Longrightarrow>
       ix_cache_pos (pg_index (b_page b2)) \<le> ix_cache_pos (pg_index pg) + b_start b2 \<Longrightarrow>
       length (ix_cache (pg_index (b_page b2))) = length (ix_cache (pg_index pg)) \<Longrightarrow> batch_inv pg begin (Suc i) b2"
    using batch_store_ok [OF inv i m nf] by blast
  show ?thesis
  proof (cases "i \<noteq> 0 \<and> i mod 100 = 0")
    case False
    then have "(i - 1) div 100 = i div 100" by (cases i) (auto simp: div_Suc)
    then have "batch_inv pg begin (Suc i) b1" using new [of b1] b1(2-4) d(2-7) by simp
    then show ?thesis using b1(1) False by (auto simp: batch_hundred_def)
  next
    case True
    then have "100 * (i div 100) = i" by auto
    moreover have "Suc ((i - 1) div 100) = i div 100" using True by (cases i) (auto simp: div_Suc)
    ultimately have st: "100 * (i div 100) = i" "b_start b + 100 = i" using d(2) by auto
    define rec where "rec = batch_record b1 (m_time (begin ! b_start b1)) (m_time (begin ! (i - 1)))
      (m_time (begin ! b_start b1)) (m_time (begin ! (i - 1))) 100"
    have c: "ix_cache_pos (pg_index (b_page b1)) < length (ix_cache (pg_index (b_page b1)))"
      using d(6,7) cache i small b1(4) by simp
    from write_cached [OF c, of rec] obtain ix where
      ix: "writeIndexRec (pg_index (b_page b1)) rec = Inr ix" "records ix = insert rec (records (pg_index (b_page b1)))"
        "ix_cache_pos ix = Suc (ix_cache_pos (pg_index (b_page b1)))"
        "length (ix_cache ix) = length (ix_cache (pg_index (b_page b1)))" by blast
    have r: "cover rec = {?wp + b_start b..<?wp + i}" "rec_ok rec"
      using batch_record_ok [of b1 100] small st(2) [symmetric] d(3) b1(3)
      by (simp_all add: rec_def add.assoc)
    define b2 where "b2 = b1\<lparr>b_page := (b_page b1)\<lparr>pg_index := ix\<rparr>, b_pos_begin := b_pos_begin b1 + 100, b_start := i,
      b_flg := 0, b_src := 0\<rparr>"
    have "batch_hundred begin i b1 = Inr b2" using True ix(1) by (simp add: batch_hundred_def Let_def rec_def b2_def)
    moreover have "batch_inv pg begin (Suc i) b2"
    proof (rule new)
      show "covers (records (pg_index (b_page b2))) = {..<?wp + b_start b2}"
        using ix(2) r(1) d(4) b1(4) small by (auto simp: b2_def)
    qed (use st ix r(2) d(3,5-7) b1(2-4) in \<open>simp_all add: b2_def\<close>)
    ultimately show ?thesis using b1(1) by simp
  qed
qed

lemma batch_loop_ok:
  assumes inv: "batch_inv pg begin i b" and rest: "rest = drop i begin" and "\<forall>m \<in> set begin. meas8 m"
    and cache: "ix_cache_pos (pg_index pg) + length begin < length (ix_cache (pg_index pg))"
    and "i \<le> length begin"
  shows "\<exists>j b'. batch_loop begin i rest b = Inr (j, b') \<and> batch_inv pg begin j b' \<and> j \<le> length begin \<and>
    (j = length begin \<or> page_isFull (b_page b'))"
  using assms
proof (induction rest arbitrary: i b)
  case Nil
  then show ?case by auto
next
  case (Cons m rest)
  have i: "i < length begin" "begin ! i = m" "rest = drop (Suc i) begin"
    using Cons.prems(2,5) by (metis drop_eq_Nil2 list.distinct(1) not_le, metis nth_via_drop, metis drop_Suc tl_drop list.sel(3))
  show ?case
  proof (cases "page_isFull (b_page b)")
    case True
    then show ?thesis using Cons.prems(1) i(1) by auto
  next
    case False
    have "meas8 (begin ! i)" using Cons.prems(3) i(1) by simp
    from batch_step [OF Cons.prems(1) i(1) this False cache] i(2) obtain b1 b2 where
      "batch_store b m = Inr b1" "batch_hundred begin i b1 = Inr b2" "batch_inv pg begin (Suc i) b2"
      by (auto simp: bind_r_eq_Inr)
    with Cons.IH [OF this(3) i(3) Cons.prems(3) cache] i(1) False show ?thesis by simp
  qed
qed

lemma batch_rest_ok:
  assumes inv: "batch_inv pg begin i b" and i: "i \<le> length begin"
    and cache: "ix_cache_pos (pg_index pg) + length begin < length (ix_cache (pg_index pg))"
  obtains ix where "batch_rest begin i b = Inr ((b_page b)\<lparr>pg_index := ix\<rparr>)" "indexed ((b_page b)\<lparr>pg_index := ix\<rparr>)"
proof -
  let ?wp = "h_write_pos (pg_header pg)" and ?p = "b_page b"
  have d: "page_inv ?p" "b_start b = 100 * ((i - 1) div 100)" "b_pos_begin b = ?wp + b_start b"
    "covers (records (pg_index ?p)) = {..<?wp + b_start b}" "\<forall>r \<in> records (pg_index ?p). rec_ok r"
    "ix_cache_pos (pg_index ?p) \<le> ix_cache_pos (pg_index pg) + b_start b"
    "length (ix_cache (pg_index ?p)) = length (ix_cache (pg_index pg))"
    "h_write_pos (pg_header ?p) = ?wp + i"
    using inv by (auto simp: batch_inv_def Let_def)
  have small: "b_start b \<le> i" "?wp + i < 2 ^ 62" using d(2) page_pos_small [OF d(1)] d(8) by auto
  show ?thesis
  proof (cases "b_start b = i")
    case True
    then show ?thesis using that [of "pg_index ?p"] d by (simp add: batch_rest_def indexed_def)
  next
    case False
    define rec where "rec = batch_record b (m_time (begin ! b_start b)) (m_time (begin ! (i - 1)))
      (m_id (begin ! b_start b)) (m_id (begin ! (i - 1))) (i - b_start b)"
    have c: "ix_cache_pos (pg_index ?p) < length (ix_cache (pg_index ?p))" using d(6,7) cache i small by simp
    from write_cached [OF c, of rec] obtain ix where
      ix: "writeIndexRec (pg_index ?p) rec = Inr ix" "records ix = insert rec (records (pg_index ?p))" by blast
    have r: "cover rec = {?wp + b_start b..<?wp + i}" "rec_ok rec"
      using batch_record_ok [of b "i - b_start b"] small d(3) by (simp_all add: rec_def)
    have "batch_rest begin i b = Inr (?p\<lparr>pg_index := ix\<rparr>)"
      using False ix(1) by (simp add: batch_rest_def Let_def rec_def)
    moreover have "indexed (?p\<lparr>pg_index := ix\<rparr>)"
      using ix(2) r d(4,5,8) small by (auto simp: indexed_def)
    ultimately show ?thesis using that by blast
  qed
qed

lemma updateMinMax_twice:
  assumes "hdr' = updateMinMax (updateMinMax hdr a) b"
  shows "h_minMaxInit hdr'" "h_minTime hdr' \<in> {m_time a, m_time b} \<union> (if h_minMaxInit hdr then {h_minTime hdr} else {})"
    "h_maxTime hdr' \<in> {m_time a, m_time b} \<union> (if h_minMaxInit hdr then {h_maxTime hdr} else {})"
  by (auto simp: assms updateMinMax_def min_def max_def)

lemma span_tight_batch:
  assumes "span_tight pg"
    and "pg_header pg' = (if n \<noteq> 0 then updateMinMax (updateMinMax hdr (ms ! 0)) (ms ! (n - 1)) else hdr)"
    and "h_minMaxInit hdr = h_minMaxInit (pg_header pg)" and "h_minTime hdr = h_minTime (pg_header pg)"
    and "h_maxTime hdr = h_maxTime (pg_header pg)" and "page_log pg' = page_log pg @ map meas_stored (take n ms)" and "n \<le> length ms"
  shows "span_tight pg'"
proof (cases "n = 0")
  case True
  then show ?thesis using assms by (simp add: span_tight_def Let_def)
next
  case False
  have mem: "ms ! 0 \<in> set (take n ms)" "ms ! (n - 1) \<in> set (take n ms)"
    using False assms(7) nth_mem [of 0 "take n ms"] nth_mem [of "n - 1" "take n ms"] by simp_all
  have ts: "m_time ` set (page_log pg') = m_time ` set (page_log pg) \<union> m_time ` set (take n ms)"
    by (simp add: assms(6) image_Un image_image)
  have old: "h_minTime (pg_header pg) \<in> m_time ` set (page_log pg) \<and> h_maxTime (pg_header pg) \<in> m_time ` set (page_log pg)"
    if "h_minMaxInit (pg_header pg)"
    using assms(1) that by (auto simp: span_tight_def Let_def split: if_splits)
  have "page_log pg' \<noteq> []" using False assms(6) mem(1) by auto
  moreover have "h_minTime (pg_header pg') \<in> m_time ` set (page_log pg')" "h_maxTime (pg_header pg') \<in> m_time ` set (page_log pg')"
    using updateMinMax_twice(2,3) [of "pg_header pg'" hdr "ms ! 0" "ms ! (n - 1)"] False assms(2-5) mem old unfolding ts
    by (auto split: if_splits)
  ultimately show ?thesis by (simp add: span_tight_def)
qed

lemma in_times_batch:
  assumes tm: "in_times pg" and srt: "sorted (map m_time ms)"
    and hdr: "pg_header pg' = (if n \<noteq> 0 then updateMinMax (updateMinMax hdr (ms ! 0)) (ms ! (n - 1)) else hdr)"
    and "h_minMaxInit hdr = h_minMaxInit (pg_header pg)" and "h_minTime hdr = h_minTime (pg_header pg)"
    and "h_maxTime hdr = h_maxTime (pg_header pg)" and log: "page_log pg' = page_log pg @ map meas_stored (take n ms)" and n: "n \<le> length ms"
  shows "in_times pg'"
proof (cases "n = 0")
  case True
  then show ?thesis using assms by (simp add: in_times_def)
next
  case False
  have b: "m_time (ms ! 0) \<le> m_time m \<and> m_time m \<le> m_time (ms ! (n - 1))" if m: "m \<in> set (take n ms)" for m
  proof -
    obtain j where j: "j < n" "j < length ms" "m = ms ! j" using m n by (auto simp: in_set_conv_nth)
    have "map m_time ms ! 0 \<le> map m_time ms ! j" "map m_time ms ! j \<le> map m_time ms ! (n - 1)"
      by (rule sorted_nth_mono [OF srt]; use j n in simp)+
    moreover have "0 < length ms" "n - 1 < length ms" using j n by linarith+
    ultimately show ?thesis using j by simp
  qed
  have h: "h_minMaxInit (pg_header pg')" "h_minTime (pg_header pg') \<le> m_time (ms ! 0)" "m_time (ms ! (n - 1)) \<le> h_maxTime (pg_header pg')"
    "h_minMaxInit (pg_header pg) \<Longrightarrow> h_minTime (pg_header pg') \<le> h_minTime (pg_header pg) \<and> h_maxTime (pg_header pg) \<le> h_maxTime (pg_header pg')"
    using False assms(4-6) by (auto simp: hdr updateMinMax_def min_le_iff_disj le_max_iff_disj)
  have "h_minMaxInit (pg_header pg') \<and> h_minTime (pg_header pg') \<le> m_time m \<and> m_time m \<le> h_maxTime (pg_header pg')"
    if "m \<in> set (page_log pg) \<or> (\<exists>x \<in> set (take n ms). m = meas_stored x)" for m
    using that tm b h by (fastforce simp: in_times_def intro: order_trans)
  then show ?thesis using log by (auto simp: in_times_def)
qed

lemma page_append_many_ok:
  assumes ok: "page_ok pg" and gap: "64 dvd page_gap pg" and ms: "\<forall>m \<in> set ms. meas8 m"
    and cache: "ix_cache_pos (pg_index pg) + length ms < length (ix_cache (pg_index pg))"
    and n: "n = min (length ms) (page_gap pg div 64)"
  obtains pg' where "page_append_many pg ms = Inr (pg', \<lparr>writed = n, ignored = 0\<rparr>)" "page_ok pg'"
    "64 dvd page_gap pg'" "page_log pg' = page_log pg @ map meas_stored (take n ms)"
    "updateAll (pg_window pg) (take n ms) = Inr (pg_window pg')" "h_readers (pg_header pg') = h_readers (pg_header pg)"
    "sorted (map m_time ms) \<Longrightarrow> in_times pg \<Longrightarrow> in_times pg'" "span_tight pg \<Longrightarrow> span_tight pg'"
    "page_gap pg' + 64 * n = page_gap pg"
proof -
  define b0 where "b0 = \<lparr>b_page = pg, b_writed = 0, b_start = 0, b_pos_begin = h_write_pos (pg_header pg),
    b_flg = 0, b_src = 0\<rparr>"
  have "batch_inv pg ms 0 b0"
    using ok gap by (auto simp: batch_inv_def Let_def b0_def page_ok_def indexed_def)
  from batch_loop_ok [OF this _ ms cache, of ms] obtain i b where
    lp: "batch_loop ms 0 ms b0 = Inr (i, b)" and bi: "batch_inv pg ms i b"
    and i: "i \<le> length ms" "i = length ms \<or> page_isFull (b_page b)" by auto
  have d: "page_inv (b_page b)" "filters_ok (b_page b)" "64 dvd page_gap (b_page b)"
    "page_gap (b_page b) + 64 * i = page_gap pg" "page_log (b_page b) = page_log pg @ map meas_stored (take i ms)"
    "b_writed b = i" "updateAll (pg_window pg) (take i ms) = Inr (pg_window (b_page b))"
    "h_minMaxInit (pg_header (b_page b)) = h_minMaxInit (pg_header pg)"
    "h_minTime (pg_header (b_page b)) = h_minTime (pg_header pg)"
    "h_maxTime (pg_header (b_page b)) = h_maxTime (pg_header pg)"
    "h_readers (pg_header (b_page b)) = h_readers (pg_header pg)"
    using bi by (auto simp: batch_inv_def Let_def)
  have ni: "n = i"
  proof -
    obtain k where k: "page_gap (b_page b) = 64 * k" using d(3) by blast
    then have "page_isFull (b_page b) \<longleftrightarrow> k = 0" using page_isFull_gap [OF d(1)] by (auto simp: sizeof_defs)
    moreover have "page_gap pg div 64 = k + i" using d(4) k by simp
    ultimately show ?thesis using i n by auto
  qed
  from batch_rest_ok [OF bi i(1) cache] obtain ix where
    r: "batch_rest ms i b = Inr ((b_page b)\<lparr>pg_index := ix\<rparr>)" "indexed ((b_page b)\<lparr>pg_index := ix\<rparr>)" by blast
  define hdr where "hdr = (if i \<noteq> 0 then updateMinMax (updateMinMax (pg_header (b_page b)) (ms ! 0)) (ms ! (i - 1))
    else pg_header (b_page b))"
  define pg' where "pg' = (b_page b)\<lparr>pg_index := ix, pg_header := hdr\<rparr>"
  have app: "page_append_many pg ms = Inr (pg', \<lparr>writed = n, ignored = 0\<rparr>)"
    using lp r(1) d(6) ni by (simp add: page_append_many_def b0_def [symmetric] Let_def pg'_def hdr_def)
  have h: "h_write_pos hdr = h_write_pos (pg_header (b_page b))" "h_size hdr = h_size (pg_header (b_page b))"
    "h_write_value_pos hdr = h_write_value_pos (pg_header (b_page b))"
    "h_id_fltr hdr = h_id_fltr (pg_header (b_page b))" "h_flag_fltr hdr = h_flag_fltr (pg_header (b_page b))"
    "h_src_fltr hdr = h_src_fltr (pg_header (b_page b))" "h_readers hdr = h_readers (pg_header (b_page b))"
    by (simp_all add: hdr_def updateMinMax_def)
  have log: "page_log pg' = page_log pg @ map meas_stored (take n ms)"
    using d(5) ni h(1) by (simp add: page_log_def pg'_def)
  have "page_ok pg'" "64 dvd page_gap pg'" "page_gap pg' + 64 * n = page_gap pg"
    using d(1-4) r(2) h ni
    by (simp_all add: page_ok_def page_inv_def Let_def filters_ok_def page_log_def indexed_def pg'_def page_gap_def)
  moreover have "span_tight pg'" if "span_tight pg"
    by (rule span_tight_batch [OF that _ d(8-10) log]) (use i(1) ni in \<open>simp_all add: pg'_def hdr_def\<close>)
  moreover have "in_times pg'" if "sorted (map m_time ms)" "in_times pg"
    by (rule in_times_batch [OF that(2,1) _ d(8-10) log]) (use i(1) ni in \<open>simp_all add: pg'_def hdr_def\<close>)
  ultimately show ?thesis
    using that [OF app _ _ log] d(7,11) ni h(7) by (simp add: pg'_def)
qed

section \<open>A new page\<close>

lemma page_Create_ok:
  assumes "1500 \<le> n" and "n < 2 ^ 50"
  obtains pg where "page_Create None w (calc_size n) = Inr pg" "page_ok pg" "in_times pg" "page_log pg = []"
    "page_gap pg = 64 * n" "h_readers (pg_header pg) = 0" "ix_cache_pos (pg_index pg) = 0"
    "length (ix_cache (pg_index pg)) = indexCacheSize" "index_inv (pg_index pg)" "pg_window pg = []"
    "pg_header pg = (initHeader (calc_size n))\<lparr>h_isOpen := True\<rparr>" "pg_mapped pg" "records (pg_index pg) = {}"
    "pg_window_file pg = w" "ih_format (ix_header (pg_index pg)) = index_file_format"
proof -
  have c: "calc_size n = 224 + 64 * n" by (simp add: calc_size_def sizeof_defs)
  have "page_size_to_count (calc_size n) = 64 * n div 48"
    using assms by (simp add: page_size_to_count_def c sizeof_defs)
  then have "200 \<le> page_size_to_count (calc_size n) div 10" using assms(1) by simp
  from index_open_new [OF _ this, of indexCacheSize] obtain ix where
    ix: "index_open indexCacheSize None (page_size_to_count (calc_size n) div 10) = Inr ix" "index_inv ix" "records ix = {}"
    by (auto simp: indexCacheSize_def)
  have ic: "ix_cache_pos ix = 0" "length (ix_cache ix) = indexCacheSize" "ih_format (ix_header ix) = index_file_format"
    using ix(1) by (auto simp: index_open_def index_setFileName_def index_new_file_def bind_r_eq_Inr Let_def split: if_splits)
  define pg where "pg = \<lparr>pg_header = (initHeader (calc_size n))\<lparr>h_isOpen := True\<rparr>, pg_raw = (\<lambda>_. 0), pg_index = ix,
    pg_window = [], pg_window_file = w, pg_mapped = True\<rparr>"
  have h: "h_write_pos (pg_header pg) = 0" "h_write_value_pos (pg_header pg) = calc_size n"
    "h_size (pg_header pg) = calc_size n" "h_readers (pg_header pg) = 0"
    by (simp_all add: pg_def initHeader_def zero_header_def)
  have "page_inv pg" using assms(2) by (simp add: page_inv_def h c sizeof_defs)
  moreover have lg: "page_log pg = []" by (simp add: page_log_def h)
  ultimately have "page_ok pg" using ix(3) h by (simp add: page_ok_def filters_ok_def indexed_def) (simp add: pg_def)
  moreover have "page_Create None w (calc_size n) = Inr pg"
    using ix(1) c by (simp add: page_Create_def pg_def sizeof_defs)
  moreover have "page_gap pg = 64 * n" by (simp add: page_gap_def h c sizeof_defs)
  moreover have "in_times pg" by (simp add: in_times_def lg)
  ultimately show ?thesis by (intro that [of pg]) (use lg h ic ix(2,3) in \<open>simp_all add: pg_def\<close>)
qed

section \<open>Properties\<close>

text \<open>
  C12. Appending one measurement with a value of at most 8 bytes to a well-formed page: if the page
  is full it is left alone and nothing is counted as written; otherwise the measurement is added at the
  end of what the page holds, every earlier one can still be read unchanged, the header's
  filters and time span include it, and the index covers exactly the positions in use. The value must not fall
  into the last partial slot of the page.
\<close>

theorem page_append_stores:
  assumes "page_ok pg" and "in_times pg" and "h_readers (pg_header pg) = 0" and "small_meas m" and "m_id m \<noteq> - 1"
    and "gap_fits pg m" and "ix_cache_pos (pg_index pg) < length (ix_cache (pg_index pg))"
  shows "\<exists>pg' n. page_append junk pg m = Inr (pg', \<lparr>writed = n, ignored = 0\<rparr>) \<and> page_ok pg' \<and> in_times pg' \<and>
    (if page_isFull pg then n = 0 \<and> pg' = pg else n = 1 \<and> page_log pg' = page_log pg @ [meas_stored m]) \<and>
    (\<forall>i < length (page_log pg'). page_read pg' empty_meas i = Inr (Some (page_log pg' ! i)))"
proof -
  have rd: "page_read p empty_meas i = Inr (Some (page_log p ! i))" if "page_ok p" "i < length (page_log p)" for p i
    using page_read_ok [of p i] that by (simp add: page_ok_def page_log_def)
  show ?thesis
  proof (cases "page_isFull pg")
    case True
    then have "page_append junk pg m = Inr (pg, \<lparr>writed = 0, ignored = 0\<rparr>)"
      using assms(3) by (simp add: page_append_def empty_result_def)
    then show ?thesis using True assms(1,2) rd by auto
  next
    case False
    from page_append_ok [OF assms(1,3-7) False, of junk] obtain pg' where
      "page_append junk pg m = Inr (pg', \<lparr>writed = 1, ignored = 0\<rparr>)" "page_ok pg'"
      "page_log pg' = page_log pg @ [meas_stored m]" "in_times pg \<Longrightarrow> in_times pg'" by metis
    then show ?thesis using False assms(2) rd [of pg'] by auto
  qed
qed

lemma sample_meas8: "meas8 (empty_meas\<lparr>m_size := 8, m_time := t, m_id := 7\<rparr>)"
  by (simp add: meas8_def meas_wf_def empty_meas_def value_capacity_def)

theorem page_append_stores_witness:
  "\<exists>pg pg' n. page_Create None None (calc_size 2000) = Inr pg \<and>
    page_append (0, 0) pg (empty_meas\<lparr>m_size := 8, m_time := 3, m_id := 7\<rparr>) = Inr (pg', \<lparr>writed = n, ignored = 0\<rparr>) \<and>
    page_ok pg' \<and> n = 1"
proof -
  let ?m = "empty_meas\<lparr>m_size := 8, m_time := 3, m_id := 7\<rparr>"
  obtain pg where pg: "page_Create None None (calc_size 2000) = Inr pg" "page_ok pg" "in_times pg"
      "page_gap pg = 64 * 2000" "h_readers (pg_header pg) = 0" "ix_cache_pos (pg_index pg) = 0"
      "length (ix_cache (pg_index pg)) = indexCacheSize"
    by (rule page_Create_ok [of 2000 None]) auto
  have nf: "\<not> page_isFull pg" "gap_fits pg ?m"
    using page_isFull_gap [of pg] pg(2,4) meas8D(3) [OF sample_meas8]
    by (auto simp: page_ok_def sizeof_defs gap_fits_def)
  from page_append_stores [OF pg(2,3,5) meas8D(1) [OF sample_meas8] meas8D(2) [OF sample_meas8] nf(2), of "(0, 0)"]
  show ?thesis using nf pg(1,6,7) by (auto simp: indexCacheSize_def)
qed

text \<open>
  C13. Filling a page created for \<open>n\<close> measurements with 8-byte values, \<open>Page::Create\<close> with \<open>calc_size n\<close>,
  in one call: exactly the first \<open>n\<close> measurements are taken, the result says how many, each can be
  read back at its position, the window is the one built from them, and the index covers
  exactly their positions. Ascending times are within the header's time span.
\<close>

theorem page_fill:
  assumes "1500 \<le> n" and "n < 2 ^ 50" and "\<forall>m \<in> set ms. meas8 m" and "length ms < indexCacheSize"
    and "sorted (map m_time ms)"
  shows "\<exists>pg pg'. page_Create None w (calc_size n) = Inr pg \<and>
    page_append_many pg ms = Inr (pg', \<lparr>writed = min (length ms) n, ignored = 0\<rparr>) \<and> page_ok pg' \<and> in_times pg' \<and>
    page_log pg' = map meas_stored (take n ms) \<and> updateAll [] (take n ms) = Inr (pg_window pg') \<and>
    (\<forall>i < min (length ms) n. page_read pg' empty_meas i = Inr (Some (meas_stored (ms ! i))))"
proof -
  obtain pg where pg: "page_Create None w (calc_size n) = Inr pg" "page_ok pg" "in_times pg" "page_log pg = []"
      "page_gap pg = 64 * n" "ix_cache_pos (pg_index pg) = 0"
      "length (ix_cache (pg_index pg)) = indexCacheSize" "pg_window pg = []"
    by (rule page_Create_ok [OF assms(1,2), of w]) auto
  define k where "k = min (length ms) (page_gap pg div 64)"
  have k: "k = min (length ms) n" "take k ms = take n ms" using pg(5) by (auto simp: k_def min_def)
  have pre: "64 dvd page_gap pg" "ix_cache_pos (pg_index pg) + length ms < length (ix_cache (pg_index pg))"
    using pg(5-7) assms(4) by simp_all
  obtain pg' where
    p: "page_append_many pg ms = Inr (pg', \<lparr>writed = k, ignored = 0\<rparr>)" "page_ok pg'"
      "page_log pg' = page_log pg @ map meas_stored (take k ms)"
      "updateAll (pg_window pg) (take k ms) = Inr (pg_window pg')" "sorted (map m_time ms) \<Longrightarrow> in_times pg \<Longrightarrow> in_times pg'"
    by (rule page_append_many_ok [OF pg(2) pre(1) assms(3) pre(2) k_def]) blast
  have log: "page_log pg' = map meas_stored (take n ms)" using p(3) pg(4) k(2) by simp
  have "page_read pg' empty_meas i = Inr (Some (meas_stored (ms ! i)))" if "i < min (length ms) n" for i
  proof -
    have i: "i < length (page_log pg')" "page_log pg' ! i = meas_stored (ms ! i)" using that by (simp_all add: log)
    then show ?thesis using page_read_ok [of pg' i] p(2) by (simp add: page_ok_def page_log_def)
  qed
  then show ?thesis using pg(1,3,8) p log k assms(5) by auto
qed

theorem page_fill_witness:
  "\<exists>pg pg'. page_Create None None (calc_size 2000) = Inr pg \<and>
    page_append_many pg [empty_meas\<lparr>m_size := 8, m_time := 3, m_id := 7\<rparr>, empty_meas\<lparr>m_size := 8, m_time := 4, m_id := 7\<rparr>]
      = Inr (pg', \<lparr>writed = 2, ignored = 0\<rparr>) \<and> page_ok pg' \<and>
    page_log pg' = map meas_stored [empty_meas\<lparr>m_size := 8, m_time := 3, m_id := 7\<rparr>, empty_meas\<lparr>m_size := 8, m_time := 4, m_id := 7\<rparr>]"
  using page_fill [of 2000 "[empty_meas\<lparr>m_size := 8, m_time := 3, m_id := 7\<rparr>, empty_meas\<lparr>m_size := 8, m_time := 4, m_id := 7\<rparr>]" None]
    sample_meas8 by (auto simp: indexCacheSize_def)

text \<open>
  C38. The test for a full page can step over its mark: if the gap of a page is at least the 56 bytes it tests for but
  smaller than these and the value together, the next append is carried out, and the page then
  reports that it is not full although the two areas already overlap by its own count, because the
  unsigned difference has wrapped around.
\<close>

theorem page_isFull_wraps:
  assumes "page_inv pg" and "h_readers (pg_header pg) = 0" and "small_meas m" and "m_id m \<noteq> - 1"
    and "ix_cache_pos (pg_index pg) < length (ix_cache (pg_index pg))"
    and "sizeof_Meas \<le> page_gap pg" and "page_gap pg < sizeof_Meas + unat (m_size m)"
  shows "\<exists>pg'. page_append junk pg m = Inr (pg', \<lparr>writed = 1, ignored = 0\<rparr>) \<and> \<not> page_isFull pg' \<and>
    h_write_value_pos (pg_header pg') < sizeof_Header + sizeof_Meas * h_write_pos (pg_header pg')"
proof -
  let ?wp = "h_write_pos (pg_header pg)" and ?np = "h_write_value_pos (pg_header pg) - unat (m_size m)"
  define pg0 where "pg0 = pg\<lparr>pg_header := updateMinMax (pg_header pg) m\<rparr>"
  from window_step_ok [OF assms(4), of pg0] obtain w where
    w: "page_window_step pg0 m = Inr (pg0\<lparr>pg_window := w, pg_header := (pg_header pg0)\<lparr>h_ww_size := length w\<rparr>\<rparr>)" by blast
  define pg1 where "pg1 = pg0\<lparr>pg_window := w, pg_header := page_filters ((pg_header pg0)\<lparr>h_ww_size := length w\<rparr>) m\<rparr>"
  have h1: "h_write_pos (pg_header pg1) = ?wp" "h_size (pg_header pg1) = h_size (pg_header pg)"
    "h_write_value_pos (pg_header pg1) = h_write_value_pos (pg_header pg)" "pg_raw pg1 = pg_raw pg"
    "pg_index pg1 = pg_index pg"
    by (simp_all add: pg1_def pg0_def page_filters_def updateMinMax_def)
  have i1: "page_inv pg1" "sizeof_Meas \<le> page_gap pg1"
    using assms(1,6) by (simp_all add: page_inv_def Let_def h1 page_gap_def)
  obtain raw' where
    s: "store_meas pg1 m = Inr (pg1\<lparr>pg_raw := raw', pg_header := (pg_header pg1)\<lparr>h_write_value_pos := ?np\<rparr>\<rparr>)"
    by (rule store_meas_ok [OF i1 assms(3) refl refl]) (simp add: h1)
  define rec where "rec = \<lparr>r_pos = of_nat ?wp, r_count = 1, r_minTime = m_time m,
    r_maxTime = m_time m, r_minId = m_id m, r_maxId = m_id m, r_flg_fltr = fst junk, r_src_fltr = snd junk\<rparr>"
  from write_cached [OF assms(5), of rec] obtain ix where ix: "writeIndexRec (pg_index pg) rec = Inr ix" by blast
  define pg' where "pg' = pg1\<lparr>pg_raw := raw', pg_index := ix,
    pg_header := (pg_header pg1)\<lparr>h_write_value_pos := ?np, h_write_pos := h_write_pos (pg_header pg1) + 1\<rparr>\<rparr>"
  have nf: "\<not> page_isFull pg" using assms(6) page_isFull_gap [OF assms(1)] by simp
  have app: "page_append junk pg m = Inr (pg', \<lparr>writed = 1, ignored = 0\<rparr>)"
    using assms(2) nf w s ix h1
    by (simp add: page_append_def pg0_def [symmetric] pg1_def [symmetric] rec_def pg'_def Let_def)
  have sz: "unat (m_size m) \<le> 8" using assms(3) by (simp add: small_meas_def)
  have lt: "?np < sizeof_Header + sizeof_Meas * Suc ?wp" "sizeof_Header + sizeof_Meas * Suc ?wp - ?np \<le> 8"
    using assms(6,7) page_invD(1-3) [OF assms(1)] sz by (auto simp: page_gap_def sizeof_defs)
  have "\<not> page_isFull pg'" using sub64_wrap [OF lt(1)] lt(2) by (simp add: page_isFull_def pg'_def h1 sizeof_defs)
  then show ?thesis using app lt(1) by (simp add: pg'_def h1)
qed

definition tight_page :: page where
  "tight_page = \<lparr>pg_header = (initHeader 280)\<lparr>h_isOpen := True\<rparr>, pg_raw = (\<lambda>_. 0),
     pg_index = \<lparr>ix_cache = [zero_record], ix_cache_pos = 0,
       ix_header = \<lparr>ih_format = 3, ih_cache_pos = 2, ih_root_pos = 1, ih_cache_size = 0\<rparr>, ix_data = []\<rparr>,
     pg_window = [], pg_window_file = None, pg_mapped = True\<rparr>"

theorem page_isFull_wraps_witness:
  "\<exists>pg'. page_append (0, 0) tight_page (empty_meas\<lparr>m_size := 8, m_time := 3, m_id := 7\<rparr>) =
      Inr (pg', \<lparr>writed = 1, ignored = 0\<rparr>) \<and> \<not> page_isFull pg' \<and>
    h_write_value_pos (pg_header pg') < sizeof_Header + sizeof_Meas * h_write_pos (pg_header pg')"
proof -
  have "page_inv tight_page" "page_gap tight_page = 56" "h_readers (pg_header tight_page) = 0"
    "ix_cache_pos (pg_index tight_page) < length (ix_cache (pg_index tight_page))"
    by (simp_all add: page_inv_def page_gap_def tight_page_def initHeader_def zero_header_def sizeof_defs)
  then show ?thesis
    using page_isFull_wraps [of tight_page, OF _ _ meas8D(1) [OF sample_meas8] meas8D(2) [OF sample_meas8], where junk = "(0, 0)"]
      meas8D(3) [OF sample_meas8] by (simp add: sizeof_defs)
qed

text \<open>
  C20. Closing a page and opening it again from the files it leaves: both succeed, and the new page object has
  the same measurements, index records, time span, filters and write window; it is marked open, and the
  readers count starts again from zero.
\<close>

theorem page_close_open:
  assumes "page_ok pg" and "pg_mapped pg" and "index_inv (pg_index pg)"
    and "ih_format (ix_header (pg_index pg)) = index_file_format"
    and "ww_wf (pg_window pg)" and "pg_window pg \<noteq> []" and "h_version (pg_header pg) = page_version"
  shows "\<exists>pg' pg''. page_close pg = Inr pg' \<and> page_Open (Some (page_disk pg')) False = Inr pg'' \<and>
    page_log pg'' = page_log pg \<and> records (pg_index pg'') = records (pg_index pg) \<and>
    pg_window pg'' = pg_window pg \<and>
    pg_header pg'' = (pg_header pg)\<lparr>h_ww_size := length (pg_window pg), h_isOpen := True, h_readers := 0\<rparr>"
proof -
  from flush_ok [OF assms(3)] obtain ix where
    ix: "index_flush (pg_index pg) = Inr ix" "index_inv ix" "records ix = records (pg_index pg)" "ix_cache_pos ix = 0"
    by blast
  have fmt: "ih_format (ix_header ix) = index_file_format"
    using ix(1) assms(4) by (auto simp: index_flush_def bind_r_eq_Inr split: if_splits)
  have again: "index_flush ix = Inr ix" using ix(4) by (simp add: index_flush_def)
  define pg1 where "pg1 = (page_flushWriteWindow pg)\<lparr>pg_index := ix\<rparr>"
  define pg' where "pg' = pg1\<lparr>pg_header := (pg_header pg1)\<lparr>h_isOpen := False, h_readers := 0\<rparr>, pg_mapped := False\<rparr>"
  have cl: "page_close pg = Inr pg'"
    using assms(2) ix(1) again
    by (simp add: page_close_def page_flushIndex_def pg'_def pg1_def) (simp add: page_flushWriteWindow_def)
  define ix2 where "ix2 = \<lparr>ix_cache = replicate indexCacheSize zero_record, ix_cache_pos = 0,
    ix_header = ix_header ix, ix_data = ix_data ix\<rparr>"
  have io: "index_open indexCacheSize (Some (ix_header ix, ix_data ix)) k = Inr ix2" for k
    using fmt by (simp add: index_open_def index_setFileName_def ix2_def)
  have rec: "records ix2 = records (pg_index pg)"
    using ix(3,4) by (simp add: records_def waiting_def index_tree_of_def ix2_def)
  have rl: "load_window_file [] (flush_window_file (pg_window pg) (pg_window_file pg)) = Inr (pg_window pg)"
    by (rule window_reload [OF assms(5,6)])
  have "page_Open (Some (page_disk pg')) False = Inr \<lparr>pg_header = (pg_header pg')\<lparr>h_isOpen := True\<rparr>, pg_raw = pg_raw pg,
      pg_index = ix2, pg_window = pg_window pg,
      pg_window_file = flush_window_file (pg_window pg) (pg_window_file pg), pg_mapped = True\<rparr>"
    using assms(7) rl io
    by (simp add: page_Open_def page_ReadHeader_def page_disk_def pg'_def pg1_def page_flushWriteWindow_def Let_def)
  then show ?thesis using cl rec
    by (simp add: page_log_def pg'_def pg1_def page_flushWriteWindow_def)
qed

theorem page_close_open_witness:
  "\<exists>pg pg' pg''. page_Create None None (calc_size 2000) = Inr pg \<and>
    page_close (setWriteWindow pg [empty_meas\<lparr>m_time := 4\<rparr>]) = Inr pg' \<and>
    page_Open (Some (page_disk pg')) False = Inr pg'' \<and> pg_window pg'' = [empty_meas\<lparr>m_time := 4\<rparr>]"
proof -
  obtain pg where pg: "page_Create None None (calc_size 2000) = Inr pg" "page_ok pg" "index_inv (pg_index pg)"
      "pg_header pg = (initHeader (calc_size 2000))\<lparr>h_isOpen := True\<rparr>" "pg_mapped pg"
      "ih_format (ix_header (pg_index pg)) = index_file_format"
    by (rule page_Create_ok [of 2000 None]) auto
  define p where "p = setWriteWindow pg [empty_meas\<lparr>m_time := 4\<rparr>]"
  have w: "pg_window p = [empty_meas\<lparr>m_time := 4\<rparr>]" "p = pg\<lparr>pg_window := [empty_meas\<lparr>m_time := 4\<rparr>]\<rparr>"
    by (simp_all add: p_def setWriteWindow_def ww_copy_def)
  have "page_ok p" using pg(2) by (simp add: w(2) page_ok_def page_inv_def filters_ok_def indexed_def page_log_def)
  moreover have "ww_wf (pg_window p)" by (simp add: w ww_wf_def empty_meas_def)
  moreover have "ih_format (ix_header (pg_index p)) = index_file_format" using pg(6) by (simp add: w(2))
  ultimately show ?thesis
    using page_close_open [of p] pg(1,3,4,5) w by (auto simp: p_def [symmetric] initHeader_def)
qed

text \<open>
  Opening is refused with an exception for a missing file, for writing a page that is marked open, and for a page of another
  version; a read-only open of an open page is let through and counted as a reader.
\<close>

lemma page_Open_guards:
  "page_Open None ro = Inl (Exception (if ro then ''can't map file'' else ''can't open file'')) \<and>
   (h_isOpen (pf_header f) \<longrightarrow> page_Open (Some f) False = Inl (Exception ''page is already openned'')) \<and>
   (h_version (pf_header f) \<noteq> page_version \<longrightarrow> ro \<or> \<not> h_isOpen (pf_header f) \<longrightarrow>
      page_Open (Some f) ro = Inl (Exception ''page format error.'')) \<and>
   (page_Open (Some f) True = Inr pg \<longrightarrow>
      h_readers (pg_header pg) = h_readers (pf_header f) + 1 \<and> h_isOpen (pg_header pg))"
  by (auto simp: page_Open_def page_ReadHeader_def bind_r_eq_Inr Let_def split: if_splits)

end
