(* ===== verification/Page_Manager.thy ===== *)
theory Page_Manager
  imports Page "HOL-Library.AList" "HOL-Library.Multiset"
begin

text \<open>
  The page manager: \<^verbatim>\<open>include/page_manager.h\<close> and \<^verbatim>\<open>libnkvdb/page_manager.cpp\<close>. A singleton that knows the directory of the
  storage, the page being written and the list of page files. A page object shares header, records, values
  and index nodes with every other object for the same file, because all of them map it; what an
  object has for itself is its index cache and its write window.
\<close>

section \<open>The directory\<close>

text \<open>
  The page files of the directory, in the order in which they are listed; index and window
  files that have no page file are \<open>d_left\<close>.
\<close>

record disk =
  d_files :: "(string \<times> page_files) list"
  d_left :: "string \<Rightarrow> index_file option \<times> meas list option"

definition disk_get :: "disk \<Rightarrow> string \<Rightarrow> page_files option" where
  "disk_get d p = map_of (d_files d) p"

definition disk_put :: "disk \<Rightarrow> string \<Rightarrow> page_files \<Rightarrow> disk" where
  "disk_put d p f = d\<lparr>d_files := AList.update p f (d_files d)\<rparr>"

text \<open>A page object as it sees the file it maps; accessing an unmapped object is undefined.\<close>

definition page_attach :: "page_files \<Rightarrow> page \<Rightarrow> page" where
  "page_attach f pg = pg\<lparr>pg_header := pf_header f, pg_raw := pf_raw f, pg_window_file := pf_window f,
     pg_index := (case pf_index f of None \<Rightarrow> pg_index pg
       | Some (hdr, data) \<Rightarrow> (pg_index pg)\<lparr>ix_header := hdr, ix_data := data\<rparr>)\<rparr>"

definition page_view :: "disk \<Rightarrow> string \<Rightarrow> page \<Rightarrow> page result" where
  "page_view d name pg = (case disk_get d name of
     None \<Rightarrow> Inl Undefined
   | Some f \<Rightarrow> if pg_mapped pg then Inr (page_attach f pg) else Inl Undefined)"

section \<open>State\<close>

record PageManager =
  pm_default_page_size :: nat
  pm_path :: string
  pm_curpage :: "(string \<times> page) option"
  pm_page_list :: "string list"

record world =
  wd_disk :: disk
  wd_instance :: "PageManager option"

definition pm_start :: "string \<Rightarrow> world \<Rightarrow> world result" where
  "pm_start path wd = (case wd_instance wd of
     Some _ \<Rightarrow> Inl (Exception ''m_instance != nullptr'')
   | None \<Rightarrow> Inr (wd\<lparr>wd_instance := Some \<lparr>pm_default_page_size = 0, pm_path = path, pm_curpage = None,
       pm_page_list = []\<rparr>\<rparr>))"

definition pm_stop :: "world \<Rightarrow> world" where
  "pm_stop wd = wd\<lparr>wd_instance := None\<rparr>"

text \<open>\<^verbatim>\<open>PageManager::get()->\<close>: using the null pointer is undefined.\<close>

definition pm_get :: "world \<Rightarrow> PageManager result" where
  "pm_get wd = (case wd_instance wd of None \<Rightarrow> Inl Undefined | Some pm \<Rightarrow> Inr pm)"

definition pm_set :: "world \<Rightarrow> PageManager \<Rightarrow> world" where
  "pm_set wd pm = wd\<lparr>wd_instance := Some pm\<rparr>"

section \<open>Names of new pages\<close>

definition page_name :: "string \<Rightarrow> nat \<Rightarrow> nat \<Rightarrow> string" where
  "page_name path t suffix =
     (if path = [] \<or> last path = CHR ''/'' then path else path @ ''/'') @ show_nat t @ ''_'' @ show_nat suffix @ ''.page''"

text \<open>
  The loop: \<open>page_path\<close> is empty before the first round, \<open>time k\<close> is the clock in round \<open>k\<close>, the suffix is
  a \<^verbatim>\<open>uint32_t\<close>. One round more than there are files is enough.
\<close>

fun unique_name_loop :: "nat \<Rightarrow> (nat \<Rightarrow> nat) \<Rightarrow> string \<Rightarrow> disk \<Rightarrow> nat \<Rightarrow> string \<Rightarrow> 32 word \<Rightarrow> string result" where
  "unique_name_loop fuel time path d k page_path suffix =
     (if page_path \<noteq> [] \<and> disk_get d page_path = None then Inr page_path
      else case fuel of
        0 \<Rightarrow> Inl No_fuel
      | Suc fuel' \<Rightarrow> unique_name_loop fuel' time path d (k + 1) (page_name path (time k) (unat suffix)) (suffix + 1))"

declare unique_name_loop.simps [simp del]

definition getNewPageUniqueName :: "(nat \<Rightarrow> nat) \<Rightarrow> string \<Rightarrow> disk \<Rightarrow> string result" where
  "getNewPageUniqueName time path d = unique_name_loop (Suc (length (d_files d))) time path d 0 [] 0"

section \<open>The current page\<close>

definition getCurPage :: "world \<Rightarrow> (string \<times> page) option result" where
  "getCurPage wd = bind_r (pm_get wd) (\<lambda>pm. Inr (pm_curpage pm))"

text \<open>Closing the page that is being written, with its write window as it was.\<close>

definition close_page :: "disk \<Rightarrow> string \<times> page \<Rightarrow> (disk \<times> write_window) result" where
  "close_page d cur = (case cur of (name, pg) \<Rightarrow>
     bind_r (page_view d name pg) (\<lambda>pg1.
     bind_r (page_close pg1) (\<lambda>pg2. Inr (disk_put d name (page_disk pg2), getWriteWindow pg1))))"

definition closeCurrentPage :: "world \<Rightarrow> world result" where
  "closeCurrentPage wd = bind_r (pm_get wd) (\<lambda>pm. case pm_curpage pm of
     None \<Rightarrow> Inr wd
   | Some cur \<Rightarrow> bind_r (close_page (wd_disk wd) cur) (\<lambda>(d, _).
       Inr (pm_set (wd\<lparr>wd_disk := d\<rparr>) (pm\<lparr>pm_curpage := None\<rparr>))))"

definition createNewPage :: "(nat \<Rightarrow> nat) \<Rightarrow> world \<Rightarrow> world result" where
  "createNewPage time wd = bind_r (pm_get wd) (\<lambda>pm.
     bind_r (case pm_curpage pm of
         None \<Rightarrow> Inr (wd_disk wd, None)
       | Some cur \<Rightarrow> bind_r (close_page (wd_disk wd) cur) (\<lambda>(d, w). Inr (d, Some w))) (\<lambda>(d, wwindow).
     bind_r (getNewPageUniqueName time (pm_path pm) d) (\<lambda>page_path.
     bind_r (page_Create (fst (d_left d page_path)) (snd (d_left d page_path)) (pm_default_page_size pm)) (\<lambda>pg.
       let pg' = (case wwindow of None \<Rightarrow> pg | Some w \<Rightarrow> setWriteWindow pg w)
       in Inr (pm_set (wd\<lparr>wd_disk := disk_put d page_path (page_disk pg')\<rparr>)
            (pm\<lparr>pm_curpage := Some (page_path, pg'), pm_page_list := pm_page_list pm @ [page_path]\<rparr>))))))"

definition pm_open :: "string \<Rightarrow> bool \<Rightarrow> world \<Rightarrow> world result" where
  "pm_open path readOnly wd = bind_r (pm_get wd) (\<lambda>pm.
     bind_r (page_Open (disk_get (wd_disk wd) path) readOnly) (\<lambda>pg.
       Inr (pm_set (wd\<lparr>wd_disk := disk_put (wd_disk wd) path (page_disk pg)\<rparr>) (pm\<lparr>pm_curpage := Some (path, pg)\<rparr>))))"

section \<open>Lists of pages\<close>

text \<open>The list is read from the directory when it is empty, and kept.\<close>

definition pageList :: "world \<Rightarrow> (world \<times> string list) result" where
  "pageList wd = bind_r (pm_get wd) (\<lambda>pm.
     let pm' = (if pm_page_list pm = [] then pm\<lparr>pm_page_list := map fst (d_files (wd_disk wd))\<rparr> else pm)
     in Inr (pm_set wd pm', pm_page_list pm'))"

definition header_of :: "disk \<Rightarrow> string \<Rightarrow> page_header result" where
  "header_of d p = page_ReadHeader (disk_get d p)"

definition oldes_step :: "disk \<Rightarrow> Time \<times> string \<Rightarrow> string \<Rightarrow> (Time \<times> string) result" where
  "oldes_step d s p = bind_r (header_of d p) (\<lambda>hdr.
     let cur_time = h_maxTime hdr
     in Inr (if fst s < cur_time \<or> cur_time = 0 then (cur_time, p) else s))"

definition getOldesPage_of :: "disk \<Rightarrow> string list \<Rightarrow> string result" where
  "getOldesPage_of d pages =
     (if length pages = 1 then Inr (hd pages)
      else bind_r (fold_r (oldes_step d) (0, []) pages) (\<lambda>(_, maxTimePage).
        if length maxTimePage = 0 then Inl (Exception ''open error. page not found.'') else Inr maxTimePage))"

definition getOldesPage :: "world \<Rightarrow> (world \<times> string) result" where
  "getOldesPage wd = bind_r (pageList wd) (\<lambda>(wd', pages).
     bind_r (getOldesPage_of (wd_disk wd') pages) (\<lambda>p. Inr (wd', p)))"

record PageInfo =
  pi_header :: page_header
  pi_name :: string

text \<open>
  What \<^verbatim>\<open>std::sort\<close> guarantees for a comparison \<open>lt\<close>: a permutation in which no element is before a smaller one. The
  order of equivalent elements is not determined, so the sorting function is an argument.
\<close>

definition std_sort :: "('a \<Rightarrow> 'a \<Rightarrow> bool) \<Rightarrow> ('a list \<Rightarrow> 'a list) \<Rightarrow> bool" where
  "std_sort lt srt \<longleftrightarrow> (\<forall>xs. mset (srt xs) = mset xs \<and> sorted_wrt (\<lambda>a b. \<not> lt b a) (srt xs))"

definition later_page :: "PageInfo \<Rightarrow> PageInfo \<Rightarrow> bool" where
  "later_page a b \<longleftrightarrow> h_maxTime (pi_header a) > h_maxTime (pi_header b)"

definition read_infos :: "disk \<Rightarrow> string list \<Rightarrow> PageInfo list result" where
  "read_infos d pages = fold_r (\<lambda>infos p. bind_r (header_of d p) (\<lambda>hdr. Inr (infos @ [\<lparr>pi_header = hdr, pi_name = p\<rparr>])))
     [] pages"

definition pagesByTime :: "(PageInfo list \<Rightarrow> PageInfo list) \<Rightarrow> world \<Rightarrow> (world \<times> PageInfo list) result" where
  "pagesByTime srt wd = bind_r (pageList wd) (\<lambda>(wd', page_list).
     bind_r (read_infos (wd_disk wd') page_list) (\<lambda>infos. Inr (wd', srt infos)))"

section \<open>Access to the directory\<close>

lemma disk_get_put [simp]: "disk_get (disk_put d p f) q = (if q = p then Some f else disk_get d q)"
  by (simp add: disk_get_def disk_put_def update_conv')

lemma d_left_put [simp]: "d_left (disk_put d p f) = d_left d"
  by (simp add: disk_put_def)

lemma disk_put_old: "disk_get d p = Some g \<Longrightarrow> map fst (d_files (disk_put d p f)) = map fst (d_files d)"
  using update_keys [of p f "d_files d"] by (force simp: disk_get_def disk_put_def map_of_eq_None_iff dest: map_of_SomeD)

lemma disk_put_new:
  assumes "disk_get d p = None"
  shows "d_files (disk_put d p f) = d_files d @ [(p, f)]"
proof -
  have "p \<notin> fst ` set xs \<Longrightarrow> AList.update p f xs = xs @ [(p, f)]" for xs
    by (induction xs) auto
  then show ?thesis using assms by (simp add: disk_get_def disk_put_def map_of_eq_None_iff)
qed

lemma page_attach_disk [simp]: "page_attach (page_disk pg) pg = pg"
  by (simp add: page_attach_def page_disk_def)

lemma page_view_synced: "disk_get d name = Some (page_disk pg) \<Longrightarrow> pg_mapped pg \<Longrightarrow> page_view d name pg = Inr pg"
  by (simp add: page_view_def)

text \<open>The measurements in a page file.\<close>

definition files_log :: "page_files \<Rightarrow> meas list" where
  "files_log f = map (stored_at (pf_raw f)) [0..<h_write_pos (pf_header f)]"

lemma files_log_disk [simp]: "files_log (page_disk pg) = page_log pg"
  by (simp add: files_log_def page_log_def page_disk_def)

section \<open>Decimal names\<close>

definition digit :: "char \<Rightarrow> bool" where
  "digit c \<longleftrightarrow> of_char c \<in> {48..<58 :: nat}"

lemma digit_char: "n < 10 \<Longrightarrow> digit (char_of (48 + n :: nat))"
  by (simp add: digit_def)

lemma digit_inject: "m < 10 \<Longrightarrow> n < 10 \<Longrightarrow> char_of (48 + m :: nat) = (char_of (48 + n) :: char) \<Longrightarrow> m = n"
  using of_char_of [of "48 + m"] of_char_of [of "48 + n"] by simp

lemma show_nat_digits: "\<forall>c \<in> set (show_nat n). digit c"
proof (induction n rule: show_nat.induct)
  case (1 n)
  then show ?case by (subst show_nat.simps) (auto intro: digit_char)
qed

lemma show_nat_nonempty [simp]: "show_nat n \<noteq> []"
  by (subst show_nat.simps) simp

lemma show_nat_inject: "show_nat m = show_nat n \<Longrightarrow> m = n"
proof (induction m arbitrary: n rule: show_nat.induct)
  case (1 m)
  show ?case
  proof (cases "m < 10")
    case True
    with "1.prems" have "n < 10"
      using show_nat_nonempty [of "n div 10"]
      by (subst (asm) (1 2) show_nat.simps) (auto split: if_splits simp del: show_nat_nonempty)
    with True "1.prems" show ?thesis by (subst (asm) (1 2) show_nat.simps) (simp add: digit_inject)
  next
    case False
    with "1.prems" have n: "\<not> n < 10"
      by (subst (asm) (1 2) show_nat.simps) (auto split: if_splits)
    from "1.prems" False n have "show_nat (m div 10) = show_nat (n div 10)"
      "char_of (48 + m mod 10) = (char_of (48 + n mod 10) :: char)"
      by (subst (asm) (1 2) show_nat.simps; simp)+
    then have "m div 10 = n div 10" "m mod 10 = n mod 10"
      using "1.IH" [OF False] digit_inject [of "m mod 10" "n mod 10"] by auto
    then show ?thesis by (metis div_mult_mod_eq)
  qed
qed

lemma split_at_first:
  assumes "xs @ c # ys = xs' @ c # ys'" and "c \<notin> set xs" and "c \<notin> set xs'"
  shows "xs = xs' \<and> ys = ys'"
  using assms
proof (induction xs arbitrary: xs')
  case Nil
  then show ?case by (cases xs') auto
next
  case (Cons x xs)
  then show ?case by (cases xs') auto
qed

lemma page_name_inject: "page_name path t k = page_name path t' k' \<Longrightarrow> k = k'"
proof -
  assume "page_name path t k = page_name path t' k'"
  then have "show_nat t @ CHR ''_'' # show_nat k = show_nat t' @ CHR ''_'' # show_nat k'"
    by (auto simp: page_name_def split: if_splits)
  moreover have "CHR ''_'' \<notin> set (show_nat j)" for j
    using show_nat_digits [of j] by (auto simp: digit_def)
  ultimately show ?thesis using split_at_first show_nat_inject by metis
qed

lemma page_name_nonempty [simp]: "page_name path t k \<noteq> []"
  by (simp add: page_name_def)

text \<open>Among more names than there are files, one is new.\<close>

lemma some_name_new:
  assumes "\<forall>j < k. disk_get d (page_name path (time j) j) \<noteq> None"
  shows "k \<le> length (d_files d)"
proof -
  let ?N = "\<lambda>j. page_name path (time j) j"
  have "inj_on ?N {..<k}" by (auto intro: inj_onI dest: page_name_inject)
  then have "card (?N ` {..<k}) = k" by (simp add: card_image)
  moreover have "?N ` {..<k} \<subseteq> fst ` set (d_files d)"
    using assms by (auto simp: disk_get_def) (metis domI dom_map_of_conv_image_fst)
  ultimately have "k \<le> card (fst ` set (d_files d))" using card_mono [of "fst ` set (d_files d)" "?N ` {..<k}"] by simp
  also have "\<dots> \<le> length (d_files d)" using card_length [of "map fst (d_files d)"] by simp
  finally show ?thesis .
qed

lemma unique_name_loop_ok:
  assumes small: "length (d_files d) + 1 < 2 ^ 32"
  shows "k + fuel = Suc (length (d_files d)) \<Longrightarrow> \<forall>j. Suc j < k \<longrightarrow> disk_get d (page_name path (time j) j) \<noteq> None \<Longrightarrow>
    page_path = (if k = 0 then [] else page_name path (time (k - 1)) (k - 1)) \<Longrightarrow>
    \<exists>j. unique_name_loop fuel time path d k page_path (of_nat k) = Inr (page_name path (time j) j) \<and>
      disk_get d (page_name path (time j) j) = None \<and> (\<forall>i < j. disk_get d (page_name path (time i) i) \<noteq> None)"
proof (induction fuel arbitrary: k page_path)
  case 0
  then have k: "k = Suc (length (d_files d))" by simp
  have "disk_get d page_path = None"
  proof (rule ccontr)
    assume "disk_get d page_path \<noteq> None"
    then have "disk_get d (page_name path (time j) j) \<noteq> None" if "j < k" for j
      using that 0(2,3) k by (cases "Suc j = k") auto
    then show False using some_name_new [of k d path time] k by simp
  qed
  then show ?case using 0 k by (intro exI [of _ "k - 1"]) (simp add: unique_name_loop.simps)
next
  case (Suc fuel)
  show ?case
  proof (cases "page_path \<noteq> [] \<and> disk_get d page_path = None")
    case True
    then have "k \<noteq> 0" using Suc.prems(3) by (auto split: if_splits)
    then show ?thesis using True Suc.prems by (intro exI [of _ "k - 1"]) (auto simp: unique_name_loop.simps)
  next
    case False
    have u: "unat (of_nat k :: 32 word) = k" using Suc.prems(1) small by (simp add: unat_of_nat)
    have "unique_name_loop (Suc fuel) time path d k page_path (of_nat k) =
        unique_name_loop fuel time path d (Suc k) (page_name path (time k) k) (of_nat (Suc k))"
      using False u by (auto simp: unique_name_loop.simps [of "Suc fuel"] add.commute)
    moreover have "\<forall>j. Suc j < Suc k \<longrightarrow> disk_get d (page_name path (time j) j) \<noteq> None"
    proof (intro allI impI)
      fix j assume "Suc j < Suc k"
      then show "disk_get d (page_name path (time j) j) \<noteq> None"
        using Suc.prems(2,3) False by (cases "Suc j = k") auto
    qed
    ultimately show ?thesis using Suc.IH [of "Suc k" "page_name path (time k) k"] Suc.prems(1) by simp
  qed
qed

section \<open>Creating the next page\<close>

lemma flush_format:
  "index_flush ix = Inr ix' \<Longrightarrow> ih_format (ix_header ix') = ih_format (ix_header ix)"
  by (auto simp: index_flush_def bind_r_eq_Inr split: if_splits)

text \<open>A page whose files another page object can open and read.\<close>

definition page_fine :: "page \<Rightarrow> bool" where
  "page_fine pg \<longleftrightarrow> page_inv pg \<and> in_times pg \<and> filters_ok pg \<and> span_tight pg \<and> h_version (pg_header pg) = page_version \<and>
     ih_format (ix_header (pg_index pg)) = index_file_format \<and> ww_wf (pg_window pg) \<and>
     (\<exists>w. load_window_file [] (pg_window_file pg) = Inr w)"

lemma page_fine_flush:
  assumes "page_fine pg" and "pg_raw pg' = pg_raw pg" and "pg_window pg' = pg_window pg"
    and "pg_header pg' = (pg_header pg)\<lparr>h_ww_size := a, h_isOpen := b, h_readers := c\<rparr>"
    and "pg_window_file pg' = flush_window_file (pg_window pg) (pg_window_file pg)"
    and "ih_format (ix_header (pg_index pg')) = ih_format (ix_header (pg_index pg))"
  shows "page_fine pg'"
proof -
  have "\<exists>w. load_window_file [] (flush_window_file (pg_window pg) (pg_window_file pg)) = Inr w"
    using assms(1) window_reload [of "pg_window pg"] by (cases "pg_window pg = []") (auto simp: page_fine_def flush_window_file_def)
  moreover have "page_log pg' = page_log pg" using assms(2,4) by (simp add: page_log_def)
  ultimately show ?thesis
    using assms by (simp add: page_fine_def page_inv_def in_times_def filters_ok_def span_tight_def Let_def)
qed

lemma page_close_ok:
  assumes "pg_mapped pg" and "index_inv (pg_index pg)"
  obtains pg' where "page_close pg = Inr pg'" "page_log pg' = page_log pg"
    "pg_header pg' = (pg_header pg)\<lparr>h_ww_size := length (pg_window pg), h_isOpen := False, h_readers := 0\<rparr>"
    "records (pg_index pg') = records (pg_index pg)" "page_fine pg \<Longrightarrow> page_fine pg'"
proof -
  obtain ix where ix: "index_flush (pg_index pg) = Inr ix" "records ix = records (pg_index pg)" "ix_cache_pos ix = 0"
    using flush_ok [OF assms(2)] by blast
  have again: "index_flush ix = Inr ix" using ix(3) by (simp add: index_flush_def)
  define pg' where "pg' = (page_flushWriteWindow pg)\<lparr>pg_index := ix, pg_mapped := False,
    pg_header := (pg_header pg)\<lparr>h_ww_size := length (pg_window pg), h_isOpen := False, h_readers := 0\<rparr>\<rparr>"
  have "page_close pg = Inr pg'"
    using assms(1) ix(1) again
    by (simp add: page_close_def page_flushIndex_def pg'_def) (simp add: page_flushWriteWindow_def)
  moreover have "page_fine pg \<Longrightarrow> page_fine pg'"
    by (rule page_fine_flush, assumption) (simp_all add: pg'_def page_flushWriteWindow_def flush_format [OF ix(1)])
  ultimately show ?thesis using that [of pg'] ix(2) by (simp add: pg'_def page_log_def page_flushWriteWindow_def)
qed

text \<open>The manager has a current page whose file is what the page object says.\<close>

definition cur_synced :: "world \<Rightarrow> PageManager \<Rightarrow> string \<Rightarrow> page \<Rightarrow> bool" where
  "cur_synced wd pm name pg \<longleftrightarrow> wd_instance wd = Some pm \<and> pm_curpage pm = Some (name, pg) \<and>
     disk_get (wd_disk wd) name = Some (page_disk pg) \<and> pg_mapped pg"

lemma createNewPage_ok:
  assumes cur: "cur_synced wd pm name pg" and ix: "index_inv (pg_index pg)" and w: "length (pg_window pg) < 2 ^ 64"
    and sz: "pm_default_page_size pm = calc_size n" "1500 \<le> n" "n < 2 ^ 50"
    and few: "length (d_files (wd_disk wd)) + 1 < 2 ^ 32" and left: "\<forall>p. fst (d_left (wd_disk wd) p) = None"
  obtains wd' pm' path pg1 pg' old where "createNewPage time wd = Inr wd'" "cur_synced wd' pm' path pg'"
    "disk_get (wd_disk wd) path = None" "pm' = pm\<lparr>pm_curpage := Some (path, pg'), pm_page_list := pm_page_list pm @ [path]\<rparr>"
    "pg' = pg1\<lparr>pg_window := pg_window pg\<rparr>" "page_Create None (snd (d_left (wd_disk wd) path)) (calc_size n) = Inr pg1"
    "d_files (wd_disk wd') = AList.update name old (d_files (wd_disk wd)) @ [(path, page_disk pg')]"
    "d_left (wd_disk wd') = d_left (wd_disk wd)" "files_log old = page_log pg" "\<not> h_isOpen (pf_header old)"
    "page_fine pg \<Longrightarrow> \<exists>q. page_fine q \<and> old = page_disk q" "path \<noteq> []"
proof -
  have c: "wd_instance wd = Some pm" "pm_curpage pm = Some (name, pg)" "disk_get (wd_disk wd) name = Some (page_disk pg)"
    "pg_mapped pg" using cur by (simp_all add: cur_synced_def)
  obtain pg2 where pg2: "page_close pg = Inr pg2" "page_log pg2 = page_log pg"
      "pg_header pg2 = (pg_header pg)\<lparr>h_ww_size := length (pg_window pg), h_isOpen := False, h_readers := 0\<rparr>"
      "page_fine pg \<Longrightarrow> page_fine pg2"
    by (rule page_close_ok [OF c(4) ix]) blast
  define d where "d = disk_put (wd_disk wd) name (page_disk pg2)"
  have cl: "close_page (wd_disk wd) (name, pg) = Inr (d, pg_window pg)"
    using c(3,4) pg2(1) by (simp add: close_page_def page_view_synced d_def getWriteWindow_def ww_copy_def)
  have "length (d_files d) = length (d_files (wd_disk wd))"
    using disk_put_old [OF c(3), of "page_disk pg2"] unfolding d_def by (metis length_map)
  then have "length (d_files d) + 1 < 2 ^ 32" using few by simp
  from unique_name_loop_ok [OF this, of 0 "Suc (length (d_files d))" "pm_path pm" time "[]"] obtain path where
    path: "getNewPageUniqueName time (pm_path pm) d = Inr path" "disk_get d path = None" "path \<noteq> []"
    by (auto simp: getNewPageUniqueName_def page_name_def)
  have new: "disk_get (wd_disk wd) path = None" "path \<noteq> name" using path(2) c(3) by (auto simp: d_def split: if_splits)
  obtain pg1 where pg1: "page_Create None (snd (d_left (wd_disk wd) path)) (calc_size n) = Inr pg1" "pg_mapped pg1"
    by (rule page_Create_ok [OF sz(2,3)]) blast
  define pg' where "pg' = pg1\<lparr>pg_window := pg_window pg\<rparr>"
  have sw: "setWriteWindow pg1 (pg_window pg) = pg'" using w by (simp add: setWriteWindow_def ww_copy_def pg'_def)
  define pm' where "pm' = pm\<lparr>pm_curpage := Some (path, pg'), pm_page_list := pm_page_list pm @ [path]\<rparr>"
  define wd' where "wd' = pm_set (wd\<lparr>wd_disk := disk_put d path (page_disk pg')\<rparr>) pm'"
  have "createNewPage time wd = Inr wd'"
    using c(1,2) cl path(1) left pg1(1) sz(1) sw
    by (simp add: createNewPage_def pm_get_def wd'_def pm'_def) (simp add: d_def)
  moreover have "cur_synced wd' pm' path pg'"
    using pg1(2) by (simp add: cur_synced_def wd'_def pm_set_def pm'_def pg'_def)
  moreover have "d_files (wd_disk wd') = AList.update name (page_disk pg2) (d_files (wd_disk wd)) @ [(path, page_disk pg')]"
    using disk_put_new [OF path(2), of "page_disk pg'"] by (simp add: wd'_def pm_set_def d_def) (simp add: disk_put_def)
  moreover have "d_left (wd_disk wd') = d_left (wd_disk wd)" by (simp add: wd'_def pm_set_def d_def)
  moreover have "files_log (page_disk pg2) = page_log pg" "\<not> h_isOpen (pf_header (page_disk pg2))"
    using pg2(2,3) by (simp_all add: page_disk_def) (simp add: files_log_def page_log_def)
  ultimately show ?thesis using that [OF _ _ new(1) pm'_def pg'_def pg1(1)] pg2(4) path(3) by blast
qed

section \<open>Choosing the page to write\<close>

lemma oldes_step_ok:
  "header_of d p = Inr h \<Longrightarrow>
   oldes_step d s p = Inr (if fst s < h_maxTime h \<or> h_maxTime h = 0 then (h_maxTime h, p) else s)"
  by (simp add: oldes_step_def)

text \<open>The state of the search after the pages \<open>ps\<close>.\<close>

lemma oldes_fold:
  assumes "\<forall>p \<in> set ps. \<exists>h. header_of d p = Inr h \<and> 0 < h_maxTime h" and "ps \<noteq> []"
  shows "\<exists>h p. fold_r (oldes_step d) (0, []) ps = Inr (h_maxTime h, p) \<and> p \<in> set ps \<and> header_of d p = Inr h \<and>
    (\<forall>q \<in> set ps. \<forall>g. header_of d q = Inr g \<longrightarrow> h_maxTime g \<le> h_maxTime h)"
  using assms
proof (induction ps rule: rev_induct)
  case Nil
  then show ?case by simp
next
  case (snoc x xs)
  obtain hx where hx: "header_of d x = Inr hx" "0 < h_maxTime hx" using snoc.prems by auto
  show ?case
  proof (cases "xs = []")
    case True
    then show ?thesis using hx by (intro exI [of _ hx] exI [of _ x]) (simp add: oldes_step_ok)
  next
    case False
    with snoc obtain h p where h: "fold_r (oldes_step d) (0, []) xs = Inr (h_maxTime h, p)" "p \<in> set xs"
      "header_of d p = Inr h" "\<forall>q \<in> set xs. \<forall>g. header_of d q = Inr g \<longrightarrow> h_maxTime g \<le> h_maxTime h" by auto
    show ?thesis
    proof (cases "h_maxTime h < h_maxTime hx")
      case True
      then show ?thesis using h hx
        by (intro exI [of _ hx] exI [of _ x]) (auto simp: fold_r_append oldes_step_ok intro: less_imp_le order_trans)
    next
      case False
      then show ?thesis using h hx
        by (intro exI [of _ h] exI [of _ p]) (auto simp: fold_r_append oldes_step_ok)
    qed
  qed
qed

text \<open>A page without measurements makes the search forget the pages before it.\<close>

lemma getOldesPage_forgets:
  assumes "\<forall>p \<in> set ps. \<exists>h. header_of d p = Inr h" and "header_of d e = Inr he" and "h_maxTime he = 0" and "qs \<noteq> []"
  shows "getOldesPage_of d (ps @ e # qs) = getOldesPage_of d (e # qs)"
proof -
  have "\<exists>s. fold_r (oldes_step d) s0 ps = Inr s" for s0
    using assms(1) by (induction ps arbitrary: s0) (auto simp: oldes_step_ok)
  then obtain s where s: "fold_r (oldes_step d) (0, []) ps = Inr s" by blast
  have "fold_r (oldes_step d) (0, []) (ps @ e # qs) = fold_r (oldes_step d) (0, e) qs"
    using assms(2,3) s by (simp add: fold_r_append oldes_step_ok)
  moreover have "fold_r (oldes_step d) (0, []) (e # qs) = fold_r (oldes_step d) (0, e) qs"
    using assms(2,3) by (simp add: oldes_step_ok)
  moreover have "length (ps @ e # qs) \<noteq> 1" "length (e # qs) \<noteq> 1" using assms(4) by auto
  ultimately show ?thesis by (simp add: getOldesPage_of_def)
qed

section \<open>Properties\<close>

text \<open>
  C27. The search for the name of a new page ends, whatever the clock shows between its rounds: it tries one suffix after the
  other, and at most one more than there are page files; the name it returns is the first one tried
  that no page file has.
\<close>

theorem getNewPageUniqueName_fresh:
  assumes "length (d_files d) + 1 < 2 ^ 32"
  shows "\<exists>j. getNewPageUniqueName time path d = Inr (page_name path (time j) j) \<and>
    disk_get d (page_name path (time j) j) = None \<and>
    (\<forall>i < j. disk_get d (page_name path (time i) i) \<noteq> None)"
  using unique_name_loop_ok [OF assms, of 0 "Suc (length (d_files d))" path time "[]"]
  by (simp add: getNewPageUniqueName_def)

theorem getNewPageUniqueName_fresh_witness:
  "\<exists>j. getNewPageUniqueName (\<lambda>_. 1447000000) ''db'' \<lparr>d_files = [], d_left = \<lambda>_. (None, None)\<rparr> =
    Inr (page_name ''db'' 1447000000 j)"
  using getNewPageUniqueName_fresh [of "\<lparr>d_files = [], d_left = \<lambda>_. (None, None)\<rparr>" "\<lambda>_. 1447000000" "''db''"]
  by auto

text \<open>
  The page that is opened for writing: if there are several pages and all of them hold measurements, it is one with the
  largest time; a single page is taken without looking into it; without any page the storage cannot be opened.
\<close>

lemma getOldesPage_newest:
  assumes "\<forall>p \<in> set pages. p \<noteq> [] \<and> (\<exists>h. header_of d p = Inr h \<and> 0 < h_maxTime h)"
  shows "case pages of
      [] \<Rightarrow> getOldesPage_of d pages = Inl (Exception ''open error. page not found.'')
    | _ \<Rightarrow> \<exists>p h. getOldesPage_of d pages = Inr p \<and> p \<in> set pages \<and> header_of d p = Inr h \<and>
        (\<forall>q \<in> set pages. \<forall>g. header_of d q = Inr g \<longrightarrow> h_maxTime g \<le> h_maxTime h)"
proof (cases "length pages = 1")
  case True
  then obtain p where "pages = [p]" by (metis One_nat_def length_0_conv length_Suc_conv)
  then show ?thesis using assms by (auto simp: getOldesPage_of_def)
next
  case False
  show ?thesis
  proof (cases "pages = []")
    case True
    then show ?thesis by (simp add: getOldesPage_of_def)
  next
    case ne: False
    from oldes_fold [of pages d] assms ne obtain h p where
      f: "fold_r (oldes_step d) (0, []) pages = Inr (h_maxTime h, p)" "p \<in> set pages" "header_of d p = Inr h"
        "\<forall>q \<in> set pages. \<forall>g. header_of d q = Inr g \<longrightarrow> h_maxTime g \<le> h_maxTime h" by blast
    then have "getOldesPage_of d pages = Inr p" using False assms by (auto simp: getOldesPage_of_def)
    then show ?thesis using f ne by (auto split: list.split)
  qed
qed

text \<open>
  C21. Changing over to a new page: the old page is closed with the measurements it holds, no other file changes, and the new
  page, which gets a name no file had, is empty, has room for the configured number of measurements, and
  starts with the write window of the old page, so that the newest value of every id stays at hand.
\<close>

theorem createNewPage_handover:
  assumes "cur_synced wd pm name pg" and "index_inv (pg_index pg)" and "length (pg_window pg) < 2 ^ 64"
    and "pm_default_page_size pm = calc_size n" and "1500 \<le> n" and "n < 2 ^ 50"
    and "length (d_files (wd_disk wd)) + 1 < 2 ^ 32" and "\<forall>p. fst (d_left (wd_disk wd) p) = None"
  shows "\<exists>wd' pm' path pg' old. createNewPage time wd = Inr wd' \<and> cur_synced wd' pm' path pg' \<and>
    disk_get (wd_disk wd) path = None \<and> pm_page_list pm' = pm_page_list pm @ [path] \<and>
    page_log pg' = [] \<and> page_gap pg' = 64 * n \<and> pg_window pg' = pg_window pg \<and>
    disk_get (wd_disk wd') name = Some old \<and> files_log old = page_log pg \<and> \<not> h_isOpen (pf_header old) \<and>
    (\<forall>q. q \<noteq> name \<and> q \<noteq> path \<longrightarrow> disk_get (wd_disk wd') q = disk_get (wd_disk wd) q)"
proof -
  obtain wd' pm' path pg1 pg' old where r: "createNewPage time wd = Inr wd'" "cur_synced wd' pm' path pg'"
    "disk_get (wd_disk wd) path = None" "pm' = pm\<lparr>pm_curpage := Some (path, pg'), pm_page_list := pm_page_list pm @ [path]\<rparr>"
    "pg' = pg1\<lparr>pg_window := pg_window pg\<rparr>" "page_Create None (snd (d_left (wd_disk wd) path)) (calc_size n) = Inr pg1"
    "d_files (wd_disk wd') = AList.update name old (d_files (wd_disk wd)) @ [(path, page_disk pg')]"
    "files_log old = page_log pg" "\<not> h_isOpen (pf_header old)"
    by (rule createNewPage_ok [OF assms, of time])
  obtain p where p: "page_Create None (snd (d_left (wd_disk wd) path)) (calc_size n) = Inr p" "page_log p = []" "page_gap p = 64 * n"
    by (rule page_Create_ok [OF assms(5,6)]) blast
  then have "page_log pg' = []" "page_gap pg' = 64 * n" using r(5,6) by (auto simp: page_log_def page_gap_def)
  moreover have "disk_get (wd_disk wd') q = (if q = name then Some old else if q = path then Some (page_disk pg') else disk_get (wd_disk wd) q)" for q
    using r(3) assms(1) by (auto simp: disk_get_def r(7) map_add_def update_conv' cur_synced_def split: option.split)
  ultimately show ?thesis using r(1-5,8,9)
    by (intro exI [of _ wd'] exI [of _ pm'] exI [of _ path] exI [of _ pg'] exI [of _ old]) auto
qed

theorem createNewPage_handover_witness:
  "\<exists>wd wd' pm' path pg'. createNewPage (\<lambda>_. 7) wd = Inr wd' \<and> disk_get (wd_disk wd) path = None \<and>
    cur_synced wd' pm' path pg' \<and> page_gap pg' = 64 * 2000 \<and> pg_window pg' = [empty_meas\<lparr>m_time := 4\<rparr>]"
proof -
  obtain p where p: "index_inv (pg_index p)" "pg_mapped p" "page_Create None None (calc_size 2000) = Inr p"
    by (rule page_Create_ok [of 2000 None]) auto
  define pg where "pg = p\<lparr>pg_window := [empty_meas\<lparr>m_time := 4\<rparr>]\<rparr>"
  define pm where "pm = \<lparr>pm_default_page_size = calc_size 2000, pm_path = ''db'', pm_curpage = Some (''a'', pg), pm_page_list = [''a'']\<rparr>"
  define wd where "wd = \<lparr>wd_disk = \<lparr>d_files = [(''a'', page_disk pg)], d_left = \<lambda>_. (None, None)\<rparr>, wd_instance = Some pm\<rparr>"
  have "cur_synced wd pm ''a'' pg" using p(2) by (simp add: cur_synced_def wd_def pm_def pg_def disk_get_def)
  moreover have "index_inv (pg_index pg)" "length (pg_window pg) < 2 ^ 64" using p(1) by (simp_all add: pg_def)
  ultimately obtain wd' pm' path pg' where "createNewPage (\<lambda>_. 7) wd = Inr wd'" "cur_synced wd' pm' path pg'"
      "disk_get (wd_disk wd) path = None" "page_gap pg' = 64 * 2000" "pg_window pg' = pg_window pg"
    using createNewPage_handover [of wd pm "''a''" pg 2000 "\<lambda>_. 7"] by (auto simp: wd_def pm_def)
  moreover from this(5) have "pg_window pg' = [empty_meas\<lparr>m_time := 4\<rparr>]" by (simp add: pg_def)
  ultimately show ?thesis by blast
qed

end
