(* ===== verification/Meas_Cache.thy ===== *)
theory Meas_Cache
  imports Meas
begin

text \<open>
  The caches that collect measurements before they go to a page: \<^verbatim>\<open>include/cache.h\<close> and
  \<^verbatim>\<open>libnkvdb/cache.cpp\<close>. A cache is an array with a fill mark; the pool hands out caches that are not
  being written; \<^verbatim>\<open>CurValuesCache\<close> remembers the last value of every id. Pool, storage and writer
  queue share caches through \<^verbatim>\<open>shared_ptr\<close>, so caches live in an explicit heap.
\<close>

section \<open>The current values\<close>

type_synonym cur_values = "Id \<Rightarrow> meas option"

definition writeValue :: "cur_values \<Rightarrow> meas \<Rightarrow> cur_values" where
  "writeValue vals v = vals(m_id v := Some v)"

definition readCurValue :: "cur_values \<Rightarrow> Id list \<Rightarrow> meas list" where
  "readCurValue vals ids = map (\<lambda>i. case vals i of Some m \<Rightarrow> m | None \<Rightarrow> empty_meas) ids"

section \<open>One cache\<close>

text \<open>\<open>c_meases\<close> is the allocated array; \<open>c_attached\<close> is \<^verbatim>\<open>m_ds != nullptr\<close>.\<close>

record Cache =
  c_max_size :: nat
  c_meases :: "meas list"
  c_size :: nat
  c_index :: nat
  c_sync :: bool
  c_attached :: bool

definition new_Cache :: "nat \<Rightarrow> Cache" where
  "new_Cache sz = \<lparr>c_max_size = sz, c_meases = replicate sz empty_meas, c_size = 0, c_index = 0,
     c_sync = False, c_attached = False\<rparr>"

definition cache_isFull :: "Cache \<Rightarrow> bool" where
  "cache_isFull c \<longleftrightarrow> c_size c = c_max_size c"

definition cache_clear :: "Cache \<Rightarrow> Cache" where
  "cache_clear c = c\<lparr>c_size := 0, c_index := 0\<rparr>"

definition sync_begin :: "Cache \<Rightarrow> Cache" where
  "sync_begin c = c\<lparr>c_sync := True\<rparr>"

definition sync_complete :: "Cache \<Rightarrow> Cache" where
  "sync_complete c = c\<lparr>c_sync := False\<rparr>"

definition cache_setStorage :: "Cache \<Rightarrow> Cache" where
  "cache_setStorage c = c\<lparr>c_attached := True\<rparr>"

text \<open>The assignment to \<^verbatim>\<open>m_meases[m_index]\<close> and the two increments behind it.\<close>

definition cache_put :: "Cache \<Rightarrow> meas \<Rightarrow> Cache result" where
  "cache_put c v =
     (if c_index c < length (c_meases c)
      then Inr (c\<lparr>c_meases := (c_meases c)[c_index c := v], c_index := c_index c + 1, c_size := c_size c + 1\<rparr>)
      else Inl Undefined)"

definition cache_append :: "Time \<Rightarrow> Cache \<Rightarrow> meas \<Rightarrow> Time \<Rightarrow> (Cache \<times> append_result) result" where
  "cache_append now c value past_time =
     (if \<not> checkPastTime now (m_time value) past_time then Inr (c, \<lparr>writed = 1, ignored = 1\<rparr>)
      else if \<not> cache_isFull c
      then bind_r (cache_put c value) (\<lambda>c'. Inr (c', \<lparr>writed = 1, ignored = 0\<rparr>))
      else Inr (c, empty_result))"

text \<open>
  The append of an array. The past-time check reads the clock for every element: \<open>clock i\<close> is its
  value at element \<open>i\<close>. An attached cache also records the value in the storage's current values.
\<close>

fun cache_append_loop :: "(nat \<Rightarrow> Time) \<Rightarrow> Time \<Rightarrow> nat \<Rightarrow> meas list \<Rightarrow> Cache \<Rightarrow> cur_values \<Rightarrow> nat \<Rightarrow>
    (Cache \<times> cur_values \<times> nat) result" where
  "cache_append_loop clock past_time i [] c cur ign = Inr (c, cur, ign)"
| "cache_append_loop clock past_time i (v # vs) c cur ign =
     (if \<not> checkPastTime (clock i) (m_time v) past_time
      then cache_append_loop clock past_time (i + 1) vs c cur (ign + 1)
      else bind_r (cache_put c v) (\<lambda>c'.
             cache_append_loop clock past_time (i + 1) vs c' (if c_attached c then writeValue cur v else cur) ign))"

definition cache_to_write :: "Cache \<Rightarrow> nat \<Rightarrow> nat" where
  "cache_to_write c n = (let cap = sub64 (c_max_size c) (c_size c) in
     if cap > n then n else if cap = n then n else cap)"

definition cache_append_many :: "(nat \<Rightarrow> Time) \<Rightarrow> Cache \<Rightarrow> cur_values \<Rightarrow> meas list \<Rightarrow> Time \<Rightarrow>
    (Cache \<times> cur_values \<times> append_result) result" where
  "cache_append_many clock c cur begin past_time =
     (let to_write = cache_to_write c (length begin)
      in bind_r (cache_append_loop clock past_time 0 (take to_write begin) c cur 0) (\<lambda>(c', cur', ign).
           Inr (c', cur', \<lparr>writed = to_write, ignored = ign\<rparr>)))"

definition cache_readInterval :: "Cache \<Rightarrow> Time \<Rightarrow> Time \<Rightarrow> meas list result" where
  "cache_readInterval c from to =
     (if c_index c \<le> length (c_meases c)
      then Inr (filter (\<lambda>m. inInterval from to (m_time m)) (take (c_index c) (c_meases c)))
      else Inl Undefined)"

definition cache_setSize :: "Cache \<Rightarrow> nat \<Rightarrow> Cache" where
  "cache_setSize c sz =
     (if sz \<noteq> c_max_size c
      then c\<lparr>c_meases := replicate sz empty_meas, c_max_size := sz, c_size := sz\<rparr>
      else c)"

section \<open>The pool\<close>

text \<open>Caches are addressed by their position in the heap; \<open>cp_recalc_period\<close> is a 32-bit \<^verbatim>\<open>int\<close>.\<close>

type_synonym cheap = "Cache list"

record CachePool =
  cp_caches :: "nat list"
  cp_pool_size :: nat
  cp_cache_size :: nat
  cp_default_pool_size :: nat
  cp_recalc_period :: int
  cp_dynamic_size :: bool

definition to_int :: "nat \<Rightarrow> int" where
  "to_int n = sint (of_nat n :: 32 word)"

text \<open>\<^verbatim>\<open>(int)n / 2\<close>, which rounds towards zero.\<close>

definition half_int :: "nat \<Rightarrow> int" where
  "half_int n = (if to_int n < 0 then - (- to_int n div 2) else to_int n div 2)"

text \<open>
  \<^verbatim>\<open>(int)(n * 1.5)\<close>: the product is exact in double precision for every \<open>n\<close> whose result is an \<^verbatim>\<open>int\<close>; the
  conversion of a larger value is undefined. \<^verbatim>\<open>count <= n * 0.85\<close>: double precision decides it as
  the rational comparison does, as long as \<open>n\<close> is below \<open>2 ^ 40\<close>.
\<close>

definition times_1_5 :: "nat \<Rightarrow> nat result" where
  "times_1_5 n = (if 3 * n div 2 < 2 ^ 31 then Inr (3 * n div 2) else Inl Undefined)"

definition le_85_percent :: "int \<Rightarrow> nat \<Rightarrow> bool" where
  "le_85_percent count n \<longleftrightarrow> 100 * count \<le> 85 * int n"

definition init_pool :: "cheap \<Rightarrow> CachePool \<Rightarrow> cheap \<times> CachePool" where
  "init_pool h cp = (h @ replicate (cp_pool_size cp) (new_Cache (cp_cache_size cp)),
     cp\<lparr>cp_caches := [length h..<length h + cp_pool_size cp]\<rparr>)"

definition new_CachePool :: "cheap \<Rightarrow> nat \<Rightarrow> nat \<Rightarrow> cheap \<times> CachePool" where
  "new_CachePool h pool_size cache_size = init_pool h \<lparr>cp_caches = [], cp_pool_size = pool_size,
     cp_cache_size = cache_size, cp_default_pool_size = pool_size, cp_recalc_period = to_int (pool_size div 3),
     cp_dynamic_size = False\<rparr>"

definition enableDynamicSize :: "CachePool \<Rightarrow> bool \<Rightarrow> CachePool" where
  "enableDynamicSize cp flg = cp\<lparr>cp_dynamic_size := flg\<rparr>"

definition setPoolSize :: "cheap \<Rightarrow> CachePool \<Rightarrow> nat \<Rightarrow> cheap \<times> CachePool" where
  "setPoolSize h cp sz = init_pool h (cp\<lparr>cp_pool_size := sz\<rparr>)"

definition setCacheSize :: "cheap \<Rightarrow> CachePool \<Rightarrow> nat \<Rightarrow> cheap \<times> CachePool" where
  "setCacheSize h cp sz =
     (foldl (\<lambda>h a. if \<not> c_sync (h ! a) then h[a := cache_setSize (h ! a) sz] else h) h (cp_caches cp),
      cp\<lparr>cp_cache_size := sz\<rparr>)"

text \<open>The scan of the pool: the last cache that is not being written, and how many there are.\<close>

definition scan_pool :: "cheap \<Rightarrow> nat list \<Rightarrow> nat option \<times> int" where
  "scan_pool h as = foldl (\<lambda>(result, count) a. if \<not> c_sync (h ! a) then (Some a, count + 1) else (result, count))
     (None, 0) as"

text \<open>The decrement of the period; an \<^verbatim>\<open>int\<close> at its minimum overflows.\<close>

definition dec_period :: "CachePool \<Rightarrow> CachePool result" where
  "dec_period cp = (if cp_recalc_period cp > - (2 ^ 31)
     then Inr (cp\<lparr>cp_recalc_period := cp_recalc_period cp - 1\<rparr>) else Inl Undefined)"

definition pool_shrink :: "int \<Rightarrow> cheap \<times> CachePool \<Rightarrow> cheap \<times> CachePool" where
  "pool_shrink count_of_free s = (case s of (h, cp) \<Rightarrow>
     if count_of_free \<ge> to_int (cp_pool_size cp div 2) \<and> cp_pool_size cp > cp_default_pool_size cp
     then let new_size = cp_pool_size cp div 2;
              new_size' = (if new_size < cp_default_pool_size cp then cp_default_pool_size cp else new_size);
              (h1, cp1) = setPoolSize h cp new_size'
          in (h1, cp1\<lparr>cp_recalc_period := half_int (cp_pool_size cp1)\<rparr>)
     else s)"

definition pool_grow :: "int \<Rightarrow> cheap \<times> CachePool \<Rightarrow> cheap \<times> CachePool" where
  "pool_grow count_of_free s = (case s of (h, cp) \<Rightarrow>
     if le_85_percent count_of_free (cp_pool_size cp)
     then let (h1, cp1) = setPoolSize h cp (cp_pool_size cp * 2 mod 2 ^ 64)
          in (h1, cp1\<lparr>cp_recalc_period := half_int (cp_pool_size cp1)\<rparr>)
     else s)"

text \<open>\<open>fuel\<close> bounds the depth of the recursion.\<close>

fun getCache :: "nat \<Rightarrow> cheap \<Rightarrow> CachePool \<Rightarrow> (cheap \<times> CachePool \<times> nat option) result" where
  "getCache 0 h cp = Inl No_fuel"
| "getCache (Suc fuel) h cp =
     bind_r (dec_period cp) (\<lambda>cp.
       let (result, count_of_free) = scan_pool h (cp_caches cp)
       in if cp_dynamic_size cp
          then if result = None
               then bind_r (times_1_5 (cp_pool_size cp)) (\<lambda>n.
                      let (h1, cp1) = setPoolSize h cp n
                      in bind_r (times_1_5 (cp_cache_size cp1)) (\<lambda>m.
                           let (h2, cp2) = setCacheSize h1 cp1 m
                           in getCache fuel h2 (cp2\<lparr>cp_recalc_period := to_int (cp_pool_size cp2)\<rparr>)))
               else if cp_recalc_period cp \<le> 0
               then let (h1, cp1) = pool_grow count_of_free (pool_shrink count_of_free (h, cp))
                    in Inr (h1, cp1, result)
               else Inr (h, cp, result)
          else Inr (h, cp, result))"

declare getCache.simps(2) [simp del]

definition haveCache :: "nat \<Rightarrow> cheap \<Rightarrow> CachePool \<Rightarrow> (cheap \<times> CachePool \<times> bool) result" where
  "haveCache fuel h cp = bind_r (getCache fuel h cp) (\<lambda>(h', cp', r). Inr (h', cp', r \<noteq> None))"

section \<open>A cache as a bounded buffer\<close>

text \<open>
  What the operations of a cache rely on: a buffer with room takes one more element at its end. The
  lemma is about a whole sequence of elements.
\<close>

locale bounded_buffer =
  fixes inv :: "'b \<Rightarrow> bool"
    and held :: "'b \<Rightarrow> 'a list"
    and room :: "'b \<Rightarrow> nat"
    and put :: "'b \<Rightarrow> 'a \<Rightarrow> 'b result"
  assumes put_ok: "inv b \<Longrightarrow> 0 < room b \<Longrightarrow>
    \<exists>b'. put b v = Inr b' \<and> inv b' \<and> held b' = held b @ [v] \<and> Suc (room b') = room b"
begin

lemma put_all:
  "inv b \<Longrightarrow> length vs \<le> room b \<Longrightarrow>
   \<exists>b'. fold_r put b vs = Inr b' \<and> inv b' \<and> held b' = held b @ vs \<and> room b' + length vs = room b"
proof (induction vs arbitrary: b)
  case Nil
  then show ?case by simp
next
  case (Cons v vs)
  then have "0 < room b" by (cases "room b") auto
  from put_ok [OF Cons.prems(1) this, of v] obtain b1 where
    b1: "put b v = Inr b1" "inv b1" "held b1 = held b @ [v]" "Suc (room b1) = room b" by blast
  then have "length vs \<le> room b1" using Cons.prems(2) by simp
  from Cons.IH [OF b1(2) this] b1 show ?case by auto
qed

end

definition cache_inv :: "Cache \<Rightarrow> bool" where
  "cache_inv c \<longleftrightarrow> length (c_meases c) = c_max_size c \<and> c_size c = c_index c \<and> c_index c \<le> c_max_size c \<and>
     c_max_size c < 2 ^ 64"

definition cache_held :: "Cache \<Rightarrow> meas list" where
  "cache_held c = take (c_index c) (c_meases c)"

definition cache_room :: "Cache \<Rightarrow> nat" where
  "cache_room c = c_max_size c - c_size c"

lemma cache_put_ok:
  assumes "cache_inv c" and "0 < cache_room c"
  shows "\<exists>c'. cache_put c v = Inr c' \<and> cache_inv c' \<and> cache_held c' = cache_held c @ [v] \<and>
    Suc (cache_room c') = cache_room c"
  using assms by (auto simp: cache_put_def cache_inv_def cache_room_def cache_held_def take_Suc_conv_app_nth)

interpretation buf: bounded_buffer cache_inv cache_held cache_room cache_put
  by unfold_locales (rule cache_put_ok)

lemma new_Cache_inv [nkv_wf]: "n < 2 ^ 64 \<Longrightarrow> cache_inv (new_Cache n)"
  by (simp add: cache_inv_def new_Cache_def)

lemma cache_clear_inv [nkv_wf]: "cache_inv c \<Longrightarrow> cache_inv (cache_clear c)"
  by (simp add: cache_inv_def cache_clear_def)

lemma cache_flags_inv [nkv_wf]:
  "cache_inv (sync_begin c) = cache_inv c" "cache_inv (sync_complete c) = cache_inv c"
  "cache_inv (cache_setStorage c) = cache_inv c"
  by (simp_all add: cache_inv_def sync_begin_def sync_complete_def cache_setStorage_def)

lemma cache_flags_held [simp]:
  "cache_held (sync_begin c) = cache_held c" "cache_held (sync_complete c) = cache_held c"
  "cache_held (cache_setStorage c) = cache_held c" "cache_held (cache_clear c) = []" "cache_held (new_Cache n) = []"
  by (simp_all add: cache_held_def sync_begin_def sync_complete_def cache_setStorage_def cache_clear_def new_Cache_def)

lemma length_cache_held: "cache_inv c \<Longrightarrow> length (cache_held c) = c_size c"
  by (simp add: cache_inv_def cache_held_def)

lemma cache_isFull_room: "cache_inv c \<Longrightarrow> cache_isFull c \<longleftrightarrow> cache_room c = 0"
  by (auto simp: cache_inv_def cache_isFull_def cache_room_def)

lemma cache_to_write_min: "cache_inv c \<Longrightarrow> cache_to_write c n = min n (cache_room c)"
  by (auto simp: cache_to_write_def cache_inv_def cache_room_def Let_def)

section \<open>The append of an array\<close>

text \<open>The elements of \<open>vs\<close> that pass the past-time check, the first of them being element \<open>i\<close> of the array.\<close>

fun accepted :: "(nat \<Rightarrow> Time) \<Rightarrow> Time \<Rightarrow> nat \<Rightarrow> meas list \<Rightarrow> meas list" where
  "accepted clock past i [] = []"
| "accepted clock past i (v # vs) =
     (if checkPastTime (clock i) (m_time v) past then [v] else []) @ accepted clock past (Suc i) vs"

lemma length_accepted: "length (accepted clock past i vs) \<le> length vs"
  by (induction vs arbitrary: i) (auto intro: le_SucI)

lemma accepted_all [simp]: "accepted clock 0 i vs = vs"
  by (induction vs arbitrary: i) (auto simp: checkPastTime_def)

lemma accepted_append:
  "accepted clock past i (vs @ ws) = accepted clock past i vs @ accepted clock past (i + length vs) ws"
  by (induction vs arbitrary: i) auto

lemma accepted_shift: "accepted (\<lambda>j. clock (k + j)) past i vs = accepted clock past (k + i) vs"
  by (induction vs arbitrary: i) auto

lemma cache_put_frame [nkv_frame]:
  "cache_put c v = Inr c' \<Longrightarrow> c_attached c' = c_attached c \<and> c_sync c' = c_sync c \<and> c_max_size c' = c_max_size c"
  by (auto simp: cache_put_def split: if_splits)

lemma cache_put_all_frame [nkv_frame]:
  "fold_r cache_put c vs = Inr c' \<Longrightarrow> c_attached c' = c_attached c \<and> c_sync c' = c_sync c \<and> c_max_size c' = c_max_size c"
  by (induction vs arbitrary: c) (auto simp: bind_r_eq_Inr dest!: cache_put_frame)

lemma cache_append_loop_eq:
  "cache_append_loop clock past i vs c cur ign =
     bind_r (fold_r cache_put c (accepted clock past i vs)) (\<lambda>c'.
       Inr (c', if c_attached c then foldl writeValue cur (accepted clock past i vs) else cur,
            ign + (length vs - length (accepted clock past i vs))))"
proof (induction vs arbitrary: i c cur ign)
  case Nil
  then show ?case by simp
next
  case (Cons v vs)
  have le: "length (accepted clock past (Suc i) vs) \<le> length vs" by (rule length_accepted)
  show ?case
  proof (cases "checkPastTime (clock i) (m_time v) past")
    case True
    then show ?thesis using Cons.IH by (cases "cache_put c v") (auto dest: cache_put_frame)
  next
    case False
    have "Suc ign + (length vs - k) = ign + (length (v # vs) - k)" if "k \<le> length vs" for k using that by simp
    then show ?thesis using False Cons.IH le by simp
  qed
qed

lemma cache_append_many_ok:
  assumes inv: "cache_inv c" and n: "n = min (length ms) (cache_room c)"
    and acc: "acc = accepted clock past 0 (take n ms)"
  obtains c' where
    "cache_append_many clock c cur ms past = Inr (c', if c_attached c then foldl writeValue cur acc else cur,
       \<lparr>writed = n, ignored = n - length acc\<rparr>)"
    "cache_inv c'" "cache_held c' = cache_held c @ acc" "c_attached c' = c_attached c" "c_sync c' = c_sync c"
    "c_max_size c' = c_max_size c"
proof -
  have "length acc \<le> length (take n ms)" unfolding acc by (rule length_accepted)
  then have "length acc \<le> cache_room c" using n by simp
  from buf.put_all [OF inv this] obtain c' where
    c': "fold_r cache_put c acc = Inr c'" "cache_inv c'" "cache_held c' = cache_held c @ acc" by blast
  have "length (take n ms) = n" using n by simp
  then have "cache_append_many clock c cur ms past = Inr (c', if c_attached c then foldl writeValue cur acc else cur,
       \<lparr>writed = n, ignored = n - length acc\<rparr>)"
    using c'(1) n unfolding acc
    by (simp add: cache_append_many_def cache_to_write_min [OF inv] cache_append_loop_eq Let_def)
  then show ?thesis using that c' cache_put_all_frame [OF c'(1)] by blast
qed

lemma cache_append_ok:
  assumes inv: "cache_inv c" and room: "0 < cache_room c" and chk: "checkPastTime now (m_time m) past"
  obtains c' where "cache_append now c m past = Inr (c', \<lparr>writed = 1, ignored = 0\<rparr>)" "cache_inv c'"
    "cache_held c' = cache_held c @ [m]" "c_attached c' = c_attached c" "c_sync c' = c_sync c"
    "c_max_size c' = c_max_size c"
proof -
  obtain c' where c': "cache_put c m = Inr c'" "cache_inv c'" "cache_held c' = cache_held c @ [m]"
    using cache_put_ok [OF inv room] by blast
  then show ?thesis
    using that [of c'] chk room cache_isFull_room [OF inv] cache_put_frame [OF c'(1)]
    by (simp add: cache_append_def)
qed

lemma cache_append_refused:
  "\<not> checkPastTime now (m_time m) past \<Longrightarrow> cache_append now c m past = Inr (c, \<lparr>writed = 1, ignored = 1\<rparr>)"
  "checkPastTime now (m_time m) past \<Longrightarrow> cache_isFull c \<Longrightarrow>
   cache_append now c m past = Inr (c, \<lparr>writed = 0, ignored = 0\<rparr>)"
  by (simp_all add: cache_append_def empty_result_def)

section \<open>The pool\<close>

definition free :: "cheap \<Rightarrow> nat list \<Rightarrow> nat list" where
  "free h as = filter (\<lambda>a. \<not> c_sync (h ! a)) as"

definition pool_inv :: "cheap \<Rightarrow> CachePool \<Rightarrow> bool" where
  "pool_inv h cp \<longleftrightarrow> length (cp_caches cp) = cp_pool_size cp \<and> distinct (cp_caches cp) \<and>
     set (cp_caches cp) \<subseteq> {..<length h}"

lemma scan_pool_eq:
  "scan_pool h as = (if free h as = [] then None else Some (last (free h as)), int (length (free h as)))"
  by (induction as rule: rev_induct) (auto simp: scan_pool_def free_def)

lemma scan_pool_None: "fst (scan_pool h as) = None \<longleftrightarrow> (\<forall>a \<in> set as. c_sync (h ! a))"
  by (auto simp: scan_pool_eq free_def filter_empty_conv)

lemma scan_pool_Some: "fst (scan_pool h as) = Some a \<Longrightarrow> a \<in> set as \<and> \<not> c_sync (h ! a)"
proof -
  assume "fst (scan_pool h as) = Some a"
  then have "a = last (free h as)" "free h as \<noteq> []" by (auto simp: scan_pool_eq split: if_splits)
  then have "a \<in> set (free h as)" by simp
  then show ?thesis by (simp add: free_def)
qed

lemma init_pool_inv: "init_pool h cp = (h', cp') \<Longrightarrow> pool_inv h' cp'"
  by (auto simp: init_pool_def pool_inv_def)

lemma init_pool_frame [nkv_frame]:
  assumes "init_pool h cp = (h', cp')"
  shows "\<exists>fresh. h' = h @ fresh" "cp_pool_size cp' = cp_pool_size cp" "cp_cache_size cp' = cp_cache_size cp"
    "cp_dynamic_size cp' = cp_dynamic_size cp" "cp_recalc_period cp' = cp_recalc_period cp"
    "cp_default_pool_size cp' = cp_default_pool_size cp"
    "a \<in> set (cp_caches cp') \<Longrightarrow> length h \<le> a \<and> h' ! a = new_Cache (cp_cache_size cp)"
  using assms by (auto simp: init_pool_def nth_append)

lemma init_pool_fresh:
  assumes "init_pool h cp = (h', cp')" and "a \<in> set (cp_caches cp')"
  shows "length h \<le> a" "h' ! a = new_Cache (cp_cache_size cp)" "a < length h'"
  using assms by (auto simp: init_pool_def nth_append)

lemma resize_caches:
  fixes f :: "Cache \<Rightarrow> Cache"
  defines "g \<equiv> foldl (\<lambda>h a. if \<not> c_sync (h ! a) then h[a := f (h ! a)] else h)"
  assumes "distinct as" and "set as \<subseteq> {..<length h}"
  shows "length (g h as) = length h \<and>
    (\<forall>a < length h. g h as ! a = (if a \<in> set as \<and> \<not> c_sync (h ! a) then f (h ! a) else h ! a))"
  using assms(2,3)
proof (induction as rule: rev_induct)
  case Nil
  then show ?case by (simp add: g_def)
next
  case (snoc x xs)
  then have "g h (xs @ [x]) = (if \<not> c_sync (g h xs ! x) then (g h xs)[x := f (g h xs ! x)] else g h xs)"
    by (simp add: g_def)
  then show ?case using snoc by (auto simp: nth_list_update)
qed

lemma setCacheSize_heap:
  assumes "pool_inv h cp" and "setCacheSize h cp sz = (h', cp')"
  shows "length h' = length h" "pool_inv h' cp'" "cp' = cp\<lparr>cp_cache_size := sz\<rparr>"
    "\<And>a. a < length h \<Longrightarrow> h' ! a = (if a \<in> set (cp_caches cp) \<and> \<not> c_sync (h ! a) then cache_setSize (h ! a) sz else h ! a)"
  using resize_caches [of "cp_caches cp" h "\<lambda>c. cache_setSize c sz"] assms
  by (auto simp: setCacheSize_def pool_inv_def)

lemma cache_setSize_sync [simp]: "c_sync (cache_setSize c sz) = c_sync c"
  by (simp add: cache_setSize_def)

text \<open>What adapting the pool size does to the caches that already exist: nothing.\<close>

lemma pool_resize_frame [nkv_frame]:
  assumes "pool_grow k (pool_shrink k (h, cp)) = (h', cp')"
  shows "\<exists>fresh. h' = h @ fresh"
proof -
  obtain h1 cp1 where s: "pool_shrink k (h, cp) = (h1, cp1)" by fastforce
  have "\<exists>fresh. h1 = h @ fresh"
    using s by (auto simp: pool_shrink_def setPoolSize_def init_pool_def Let_def split: if_splits prod.splits)
  moreover have "\<exists>fresh. h' = h1 @ fresh"
    using assms s by (auto simp: pool_grow_def setPoolSize_def init_pool_def Let_def split: if_splits prod.splits)
  ultimately show ?thesis by auto
qed

lemma setPoolSize_inv: "pool_inv (fst (setPoolSize h cp n)) ((snd (setPoolSize h cp n))\<lparr>cp_recalc_period := k\<rparr>)"
  by (auto simp: setPoolSize_def init_pool_def pool_inv_def)

lemma pool_resize_inv:
  assumes "pool_inv h cp" and "pool_grow k (pool_shrink k (h, cp)) = (h', cp')"
  shows "pool_inv h' cp'"
proof -
  have step: "pool_inv (fst (pool_shrink k s)) (snd (pool_shrink k s))" "pool_inv (fst (pool_grow k s)) (snd (pool_grow k s))"
    if "pool_inv (fst s) (snd s)" for s
    using that by (simp_all add: pool_shrink_def pool_grow_def Let_def case_prod_beta setPoolSize_inv)
  then show ?thesis using assms step(2) [of "pool_shrink k (h, cp)"] by simp
qed

lemma to_int_small: "n < 2 ^ 31 \<Longrightarrow> to_int n = int n"
  by (simp add: to_int_def signed_of_nat signed_take_bit_int_eq_self)

text \<open>One call that finds a free cache returns the last one; the caches in the heap stay as they are.\<close>

lemma getCache_found:
  assumes "cp_recalc_period cp > - (2 ^ 31)" and "free h (cp_caches cp) \<noteq> []"
  shows "\<exists>fresh cp'. getCache (Suc f) h cp = Inr (h @ fresh, cp', Some (last (free h (cp_caches cp))))"
proof -
  define cp1 where "cp1 = cp\<lparr>cp_recalc_period := cp_recalc_period cp - 1\<rparr>"
  define k where "k = int (length (free h (cp_caches cp)))"
  have d: "dec_period cp = Inr cp1" "cp_caches cp1 = cp_caches cp" using assms(1) by (simp_all add: dec_period_def cp1_def)
  obtain h2 cp2 where g: "pool_grow k (pool_shrink k (h, cp1)) = (h2, cp2)" by fastforce
  from pool_resize_frame [OF g] obtain fresh where fresh: "h2 = h @ fresh" by blast
  have "getCache (Suc f) h cp =
    Inr (if cp_dynamic_size cp1 \<and> cp_recalc_period cp1 \<le> 0 then h2 else h,
         if cp_dynamic_size cp1 \<and> cp_recalc_period cp1 \<le> 0 then cp2 else cp1, Some (last (free h (cp_caches cp))))"
    using assms(2) d g by (simp add: getCache.simps(2) scan_pool_eq k_def)
  then show ?thesis using fresh by (cases "cp_dynamic_size cp1 \<and> cp_recalc_period cp1 \<le> 0") auto
qed

text \<open>A pool without a free cache grows, and the grown pool has one.\<close>

lemma getCache_grow:
  assumes per: "cp_recalc_period cp > - (2 ^ 31)" and dyn: "cp_dynamic_size cp"
    and none: "free h (cp_caches cp) = []" and n: "0 < cp_pool_size cp" "3 * cp_pool_size cp div 2 < 2 ^ 31"
    and m: "m = 3 * cp_cache_size cp div 2" "m < 2 ^ 31"
  shows "\<exists>h' cp' a. getCache (Suc (Suc f)) h cp = Inr (h', cp', Some a) \<and> length h \<le> a \<and> a < length h' \<and>
    h' ! a = cache_setSize (new_Cache (cp_cache_size cp)) m"
proof -
  define k where "k = 3 * cp_pool_size cp div 2"
  have k: "0 < k" "k < 2 ^ 31" using n by (auto simp: k_def)
  define cp1 where "cp1 = cp\<lparr>cp_recalc_period := cp_recalc_period cp - 1\<rparr>"
  have d: "dec_period cp = Inr cp1" "cp_caches cp1 = cp_caches cp" "cp_dynamic_size cp1" "cp_pool_size cp1 = cp_pool_size cp"
    "cp_cache_size cp1 = cp_cache_size cp"
    using per dyn by (simp_all add: dec_period_def cp1_def)
  obtain h2 cp2 where g2: "setPoolSize h cp1 k = (h2, cp2)" by fastforce
  have ip: "init_pool h (cp1\<lparr>cp_pool_size := k\<rparr>) = (h2, cp2)" using g2 by (simp add: setPoolSize_def)
  note f2 = init_pool_frame [OF ip] and i2 = init_pool_inv [OF ip] and fr = init_pool_fresh [OF ip]
  obtain h3 cp3 where g3: "setCacheSize h2 cp2 m = (h3, cp3)" by fastforce
  note s3 = setCacheSize_heap [OF i2 g3]
  define cp4 where "cp4 = cp3\<lparr>cp_recalc_period := to_int (cp_pool_size cp3)\<rparr>"
  have c4: "cp_caches cp4 = cp_caches cp2" "cp_recalc_period cp4 = int k"
    using s3(3) f2(2) to_int_small [OF k(2)] by (simp_all add: cp4_def)
  have new: "h3 ! a = cache_setSize (new_Cache (cp_cache_size cp)) m" "length h \<le> a" "a < length h3"
    if "a \<in> set (cp_caches cp2)" for a
    using fr [OF that] s3(1,4) that d(5) by (auto simp: new_Cache_def)
  then have free4: "free h3 (cp_caches cp4) = cp_caches cp4" using c4(1) by (auto simp: free_def filter_id_conv new_Cache_def)
  have "length (cp_caches cp4) = k" using i2 f2(2) c4(1) by (simp add: pool_inv_def)
  then have ne: "free h3 (cp_caches cp4) \<noteq> []" using k(1) free4 by (cases "cp_caches cp4") auto
  have "- (2 ^ 31) < cp_recalc_period cp4" using c4(2) by simp
  from getCache_found [OF this ne, of f] obtain fresh cp' where
    r: "getCache (Suc f) h3 cp4 = Inr (h3 @ fresh, cp', Some (last (cp_caches cp4)))" using free4 by auto
  have "getCache (Suc (Suc f)) h cp = getCache (Suc f) h3 cp4"
    using none d g2 g3 k(2) m f2(3) by (simp add: getCache.simps(2) [of "Suc f"] scan_pool_eq times_1_5_def k_def cp4_def)
  moreover have "last (cp_caches cp4) \<in> set (cp_caches cp2)" using ne free4 c4(1) by auto
  ultimately show ?thesis using r new [of "last (cp_caches cp4)"] by (auto simp: nth_append)
qed

section \<open>Properties\<close>

text \<open>
  C26. The append of an array to a well-formed cache: it takes as many elements as there is room for, keeps those that
  pass the past-time check, in order, behind what the cache holds already, counts the others as
  ignored, never writes outside the array, and, if the cache is attached to a storage, records
  exactly the kept values as current values.
\<close>

theorem cache_append_many_stores:
  assumes "cache_inv c"
  shows "let n = min (length ms) (c_max_size c - c_size c); acc = accepted clock past 0 (take n ms) in
    \<exists>c'. cache_append_many clock c cur ms past =
      Inr (c', if c_attached c then foldl writeValue cur acc else cur, \<lparr>writed = n, ignored = n - length acc\<rparr>) \<and>
    cache_inv c' \<and> cache_held c' = cache_held c @ acc"
proof -
  define n where "n = min (length ms) (cache_room c)"
  obtain c' where "cache_append_many clock c cur ms past =
      Inr (c', if c_attached c then foldl writeValue cur (accepted clock past 0 (take n ms)) else cur,
        \<lparr>writed = n, ignored = n - length (accepted clock past 0 (take n ms))\<rparr>)"
    "cache_inv c'" "cache_held c' = cache_held c @ accepted clock past 0 (take n ms)"
    by (rule cache_append_many_ok [OF assms n_def refl]) blast
  then show ?thesis by (simp add: Let_def n_def cache_room_def)
qed

theorem cache_append_many_stores_witness:
  "\<exists>c'. cache_append_many (\<lambda>i. 100) (cache_setStorage (new_Cache 2)) (\<lambda>_. None)
      [empty_meas\<lparr>m_time := 10\<rparr>, empty_meas\<lparr>m_time := 99\<rparr>, empty_meas\<lparr>m_time := 98\<rparr>] 5 =
      Inr (c', [0 \<mapsto> empty_meas\<lparr>m_time := 99\<rparr>], \<lparr>writed = 2, ignored = 1\<rparr>) \<and>
    cache_held c' = [empty_meas\<lparr>m_time := 99\<rparr>]"
proof -
  have chk: "\<not> checkPastTime 100 10 5" "checkPastTime 100 99 5" by (simp_all add: checkPastTime_def)
  have "cache_inv (cache_setStorage (new_Cache 2))" by (simp add: cache_flags_inv new_Cache_inv)
  from cache_append_many_stores [OF this, of "[empty_meas\<lparr>m_time := 10\<rparr>, empty_meas\<lparr>m_time := 99\<rparr>, empty_meas\<lparr>m_time := 98\<rparr>]"
      "\<lambda>i. 100" 5 "\<lambda>_. None"]
  have "\<exists>c'. cache_append_many (\<lambda>i. 100) (cache_setStorage (new_Cache 2)) (\<lambda>_. None)
      [empty_meas\<lparr>m_time := 10\<rparr>, empty_meas\<lparr>m_time := 99\<rparr>, empty_meas\<lparr>m_time := 98\<rparr>] 5 =
      Inr (c', writeValue (\<lambda>_. None) (empty_meas\<lparr>m_time := 99\<rparr>), \<lparr>writed = 2, ignored = 1\<rparr>) \<and>
    cache_held c' = [empty_meas\<lparr>m_time := 99\<rparr>]"
    using chk by (auto simp: Let_def cache_setStorage_def new_Cache_def cache_held_def numeral_2_eq_2)
  then show ?thesis by (simp add: writeValue_def empty_meas_def)
qed

text \<open>
  Changing the size of a cache: the cache then counts as full of blank measurements, so that an acceptable
  measurement is refused and writing the cache out writes \<open>sz\<close> blank measurements; the read mark keeps its
  old value, so that shrinking below it makes the next read leave the array.
\<close>

lemma cache_setSize_blank:
  assumes "sz \<noteq> c_max_size c"
  shows "cache_isFull (cache_setSize c sz) \<and>
    take (c_size (cache_setSize c sz)) (c_meases (cache_setSize c sz)) = replicate sz empty_meas \<and>
    (checkPastTime now (m_time m) past \<longrightarrow>
       cache_append now (cache_setSize c sz) m past = Inr (cache_setSize c sz, \<lparr>writed = 0, ignored = 0\<rparr>)) \<and>
    (sz < c_index c \<longrightarrow> cache_readInterval (cache_setSize c sz) from to = Inl Undefined)"
  using assms by (auto simp: cache_setSize_def cache_isFull_def cache_append_def empty_result_def cache_readInterval_def)

text \<open>
  A pool of fixed size: a call returns without recursion, changes nothing but the call counter, and
  returns a cache of the pool that is not being written, if there is one, and the null pointer
  exactly if every cache is being written.
\<close>

lemma getCache_fixed:
  assumes "\<not> cp_dynamic_size cp" and "cp_recalc_period cp > - (2 ^ 31)"
  shows "\<exists>r. getCache (Suc f) h cp = Inr (h, cp\<lparr>cp_recalc_period := cp_recalc_period cp - 1\<rparr>, r) \<and>
    (case r of None \<Rightarrow> \<forall>a \<in> set (cp_caches cp). c_sync (h ! a)
     | Some a \<Rightarrow> a \<in> set (cp_caches cp) \<and> \<not> c_sync (h ! a))"
proof (intro exI conjI)
  show "getCache (Suc f) h cp =
      Inr (h, cp\<lparr>cp_recalc_period := cp_recalc_period cp - 1\<rparr>, fst (scan_pool h (cp_caches cp)))"
    using assms by (simp add: getCache.simps(2) dec_period_def case_prod_beta)
  show "case fst (scan_pool h (cp_caches cp)) of None \<Rightarrow> \<forall>a \<in> set (cp_caches cp). c_sync (h ! a)
     | Some a \<Rightarrow> a \<in> set (cp_caches cp) \<and> \<not> c_sync (h ! a)"
    using scan_pool_None scan_pool_Some by (auto split: option.split)
qed

lemma getCache_fixed_witness:
  "\<exists>h cp r. new_CachePool [] 2 100 = (h, cp) \<and> getCache 1 h cp = Inr (h, cp\<lparr>cp_recalc_period := - 1\<rparr>, Some r) \<and>
    \<not> c_sync (h ! r)"
proof -
  define h cp where "h = fst (new_CachePool [] 2 100)" and "cp = snd (new_CachePool [] 2 100)"
  have c: "\<not> cp_dynamic_size cp" "cp_recalc_period cp = 0" "cp_caches cp = [0, 1]" "h = [new_Cache 100, new_Cache 100]"
    by (simp_all add: h_def cp_def new_CachePool_def init_pool_def to_int_def upt_rec numeral_2_eq_2)
  from getCache_fixed [OF c(1), of 0 h] obtain r where
    r: "getCache 1 h cp = Inr (h, cp\<lparr>cp_recalc_period := - 1\<rparr>, r)"
      "case r of None \<Rightarrow> \<forall>a \<in> set (cp_caches cp). c_sync (h ! a) | Some a \<Rightarrow> a \<in> set (cp_caches cp) \<and> \<not> c_sync (h ! a)"
    by (auto simp: c(2))
  then obtain a where "r = Some a" "\<not> c_sync (h ! a)"
    by (cases r) (auto simp: c(3,4) new_Cache_def)
  with r(1) show ?thesis unfolding h_def cp_def by (metis prod.collapse)
qed

text \<open>
  C39. A pool of dynamic size that is not empty always hands out a cache, and the recursion is at most one level deep. But the
  cache it hands out after growing is not an empty one: growing resizes the fresh caches, and a
  resized cache counts as full of blank measurements.
\<close>

theorem getCache_dynamic_total:
  assumes "cp_dynamic_size cp" and "cp_recalc_period cp > - (2 ^ 31)"
    and "0 < cp_pool_size cp" and "3 * cp_pool_size cp div 2 < 2 ^ 31" and "3 * cp_cache_size cp div 2 < 2 ^ 31"
  shows "\<exists>h' cp' a. getCache (Suc (Suc f)) h cp = Inr (h', cp', Some a) \<and>
    (if \<exists>b \<in> set (cp_caches cp). \<not> c_sync (h ! b)
     then (\<exists>fresh. h' = h @ fresh) \<and> a \<in> set (cp_caches cp) \<and> \<not> c_sync (h ! a)
     else 2 \<le> cp_cache_size cp \<longrightarrow> cache_isFull (h' ! a) \<and>
       take (c_size (h' ! a)) (c_meases (h' ! a)) = replicate (3 * cp_cache_size cp div 2) empty_meas)"
proof (cases "free h (cp_caches cp) = []")
  case True
  let ?m = "3 * cp_cache_size cp div 2"
  from getCache_grow [OF assms(2,1) True assms(3,4) refl assms(5)] obtain h' cp' a where
    r: "getCache (Suc (Suc f)) h cp = Inr (h', cp', Some a)" "h' ! a = cache_setSize (new_Cache (cp_cache_size cp)) ?m"
    by blast
  have "\<not> (\<exists>b \<in> set (cp_caches cp). \<not> c_sync (h ! b))" using True by (simp add: free_def filter_empty_conv)
  moreover have "cache_isFull (h' ! a) \<and> take (c_size (h' ! a)) (c_meases (h' ! a)) = replicate ?m empty_meas"
    if "2 \<le> cp_cache_size cp"
  proof -
    have "?m \<noteq> cp_cache_size cp" using that by simp
    then show ?thesis by (simp add: r(2) cache_setSize_def cache_isFull_def new_Cache_def)
  qed
  ultimately show ?thesis using r(1) by auto
next
  case False
  from getCache_found [OF assms(2) False, of "Suc f"] obtain fresh cp' where
    "getCache (Suc (Suc f)) h cp = Inr (h @ fresh, cp', Some (last (free h (cp_caches cp))))" by blast
  moreover have "last (free h (cp_caches cp)) \<in> set (free h (cp_caches cp))" using False by simp
  ultimately show ?thesis by (auto simp: free_def)
qed

theorem getCache_dynamic_total_witness:
  "\<exists>h' cp' a. getCache (Suc (Suc 0)) [sync_begin (new_Cache 100)] \<lparr>cp_caches = [0], cp_pool_size = 1, cp_cache_size = 100,
      cp_default_pool_size = 1, cp_recalc_period = 0, cp_dynamic_size = True\<rparr> = Inr (h', cp', Some a) \<and>
    cache_isFull (h' ! a) \<and> take (c_size (h' ! a)) (c_meases (h' ! a)) = replicate 150 empty_meas"
  using getCache_dynamic_total [of "\<lparr>cp_caches = [0], cp_pool_size = 1, cp_cache_size = 100,
      cp_default_pool_size = 1, cp_recalc_period = 0, cp_dynamic_size = True\<rparr>" 0 "[sync_begin (new_Cache 100)]"]
  by (simp add: sync_begin_def)

text \<open>
  A pool of dynamic size that has been set to zero caches never returns from \<open>getCache\<close>: growing by half keeps it at zero, and
  however deep the recursion is allowed to be, it does not end with a result.
\<close>

lemma getCache_empty_pool:
  "getCache fuel h \<lparr>cp_caches = [], cp_pool_size = 0, cp_cache_size = n, cp_default_pool_size = d,
     cp_recalc_period = p, cp_dynamic_size = True\<rparr> \<noteq> Inr r"
proof (induction fuel arbitrary: h n p)
  case 0
  show ?case by simp
next
  case (Suc fuel)
  then show ?case
    by (simp add: getCache.simps(2) dec_period_def scan_pool_def times_1_5_def setPoolSize_def setCacheSize_def
        init_pool_def to_int_def)
qed

end
