(* ===== verification/Async_Writer.thy ===== *)
theory Async_Writer
  imports Page_Manager Meas_Cache
begin

text \<open>
  Writing a cache to the pages: \<^verbatim>\<open>AsyncWriter::call\<close> of \<^verbatim>\<open>libnkvdb/storage.cpp\<close>. The measurements of the cache are
  sorted by time and appended to the current page; whenever that page cannot take all of them, the page manager
  goes on to a new page.
\<close>

section \<open>Operations of the current page\<close>

text \<open>A call on \<^verbatim>\<open>PageManager::get()->getCurPage()\<close>.\<close>

definition with_cur :: "(page \<Rightarrow> (page \<times> 'b) result) \<Rightarrow> world \<Rightarrow> (world \<times> 'b) result" where
  "with_cur f wd = bind_r (pm_get wd) (\<lambda>pm. case pm_curpage pm of
     None \<Rightarrow> Inl Undefined
   | Some (name, pg) \<Rightarrow>
       bind_r (page_view (wd_disk wd) name pg) (\<lambda>pg1.
       bind_r (f pg1) (\<lambda>(pg2, r).
         Inr (pm_set (wd\<lparr>wd_disk := disk_put (wd_disk wd) name (page_disk pg2)\<rparr>)
                (pm\<lparr>pm_curpage := Some (name, pg2)\<rparr>), r))))"

section \<open>Writing a cache\<close>

definition MeasCmpByTime :: "meas \<Rightarrow> meas \<Rightarrow> bool" where
  "MeasCmpByTime a b \<longleftrightarrow> m_time a < m_time b"

text \<open>The loop; \<open>clk k\<close> is the clock seen by \<^verbatim>\<open>createNewPage\<close> when \<open>k\<close> rounds are left.\<close>

fun write_loop :: "nat \<Rightarrow> (nat \<Rightarrow> nat \<Rightarrow> nat) \<Rightarrow> meas list \<Rightarrow> nat \<Rightarrow> world \<Rightarrow> world result" where
  "write_loop fuel clk output to_write wd =
     (if to_write = 0 then Inr wd
      else case fuel of
        0 \<Rightarrow> Inl No_fuel
      | Suc fuel' \<Rightarrow>
          bind_r (with_cur (\<lambda>pg. page_append_many pg (drop (length output - to_write) output)) wd) (\<lambda>(wd1, ares).
          bind_r (if writed ares \<noteq> to_write then createNewPage (clk fuel') wd1 else Inr wd1) (\<lambda>wd2.
            write_loop fuel' clk output (to_write - writed ares) wd2)))"

declare write_loop.simps [simp del]

text \<open>
  The call. \<open>srt\<close> is \<^verbatim>\<open>std::sort\<close> with the comparison by time; sorting beyond the array is undefined. One round more than
  there are measurements is enough as long as a new page takes at least one.
\<close>

definition AsyncWriter_call :: "(meas list \<Rightarrow> meas list) \<Rightarrow> (nat \<Rightarrow> nat \<Rightarrow> nat) \<Rightarrow> Cache \<Rightarrow> world \<Rightarrow>
    (world \<times> Cache) result" where
  "AsyncWriter_call srt clk data wd =
     (if length (c_meases data) < c_size data then Inl Undefined
      else let output = srt (take (c_size data) (c_meases data));
               data1 = data\<lparr>c_meases := output @ drop (c_size data) (c_meases data)\<rparr>
           in bind_r (write_loop (Suc (c_size data)) clk output (c_size data) wd) (\<lambda>wd1.
              bind_r (with_cur (\<lambda>pg. Inr (page_flushWriteWindow pg, ())) wd1) (\<lambda>(wd2, _).
              bind_r (with_cur (\<lambda>pg. bind_r (page_flushIndex pg) (\<lambda>pg'. Inr (pg', ()))) wd2) (\<lambda>(wd3, _).
                Inr (wd3, sync_complete (cache_clear data1))))))"

section \<open>The index during an append\<close>

text \<open>
  The times of the appended measurements are new to the index of the page, and the index has room for the records
  the append writes.
\<close>

definition index_fits :: "page \<Rightarrow> meas list \<Rightarrow> bool" where
  "index_fits pg ms \<longleftrightarrow> index_inv (pg_index pg) \<and> distinct (map m_time ms) \<and>
     m_time ` set ms \<inter> r_minTime ` records (pg_index pg) = {} \<and> length ms div 100 < index_room (pg_index pg)"

definition batch_index_inv :: "page \<Rightarrow> meas list \<Rightarrow> nat \<Rightarrow> batch \<Rightarrow> bool" where
  "batch_index_inv pg ms i b \<longleftrightarrow> (let ix = pg_index (b_page b) in
     index_inv ix \<and> b_start b = 100 * ((i - 1) div 100) \<and>
     r_minTime ` records ix \<subseteq> r_minTime ` records (pg_index pg) \<union> m_time ` set (take (b_start b) ms) \<and>
     index_room (pg_index pg) \<le> index_room ix + b_start b div 100 \<and> length (ix_cache ix) = length (ix_cache (pg_index pg)))"

lemma batch_index_invD:
  assumes "batch_index_inv pg ms i b"
  shows "index_inv (pg_index (b_page b))" "b_start b = 100 * ((i - 1) div 100)"
    "r_minTime ` records (pg_index (b_page b)) \<subseteq> r_minTime ` records (pg_index pg) \<union> m_time ` set (take (b_start b) ms)"
    "index_room (pg_index pg) \<le> index_room (pg_index (b_page b)) + b_start b div 100"
    "length (ix_cache (pg_index (b_page b))) = length (ix_cache (pg_index pg))"
  using assms unfolding batch_index_inv_def Let_def by blast+

lemma image_subset_widen: "A \<subseteq> B \<union> f ` S \<Longrightarrow> S \<subseteq> T \<Longrightarrow> A \<subseteq> B \<union> f ` T"
  by blast

lemma batch_record_minTime [simp]: "r_minTime (batch_record b t1 t2 i1 i2 n) = t1"
  by (simp add: batch_record_def)

lemma nth_time_new:
  assumes "distinct (map m_time ms)" and "j < length ms"
  shows "m_time (ms ! j) \<notin> m_time ` set (take j ms)"
proof
  assume "m_time (ms ! j) \<in> m_time ` set (take j ms)"
  then obtain k where "k < j" "m_time (ms ! k) = m_time (ms ! j)" using assms(2) by (auto simp: in_set_conv_nth)
  then show False using assms nth_eq_iff_index_eq [of "map m_time ms" k j] by simp
qed

lemma writeIndexRec_cache: "writeIndexRec ix rec = Inr ix' \<Longrightarrow> length (ix_cache ix') = length (ix_cache ix)"
  by (auto simp: writeIndexRec_def bind_r_eq_Inr arr_set_def index_flush_def split: if_splits)

lemma index_write_step:
  assumes fits: "index_fits pg ms" and inv: "batch_index_inv pg ms i b" and j: "b_start b < length ms"
    and rec: "r_minTime rec = m_time (ms ! b_start b)" and w: "writeIndexRec (pg_index (b_page b)) rec = Inr ix'"
  shows "index_inv ix'" "r_minTime ` records ix' \<subseteq> r_minTime ` records (pg_index pg) \<union> m_time ` set (take (Suc (b_start b)) ms)"
    "index_room (pg_index pg) \<le> index_room ix' + Suc (b_start b div 100)"
    "length (ix_cache ix') = length (ix_cache (pg_index pg))"
proof -
  let ?ix = "pg_index (b_page b)"
  note i = batch_index_invD [OF inv]
  have "m_time (ms ! b_start b) \<notin> r_minTime ` records (pg_index pg)" "m_time (ms ! b_start b) \<notin> m_time ` set (take (b_start b) ms)"
    using fits nth_mem [OF j] nth_time_new [OF _ j] by (auto simp: index_fits_def)
  then have new: "r_minTime rec \<notin> r_minTime ` records ?ix" using rec i(3) by auto
  have "b_start b div 100 \<le> length ms div 100" using j by (simp add: div_le_mono)
  then have "0 < index_room ?ix" using fits i(4) by (simp add: index_fits_def)
  from write_ok [OF i(1) new this] w have
    r: "index_inv ix'" "records ix' = insert rec (records ?ix)" "index_room ?ix \<le> Suc (index_room ix')" by auto
  show "index_inv ix'" by (rule r(1))
  show "r_minTime ` records ix' \<subseteq> r_minTime ` records (pg_index pg) \<union> m_time ` set (take (Suc (b_start b)) ms)"
    using i(3) r(2) rec j by (auto simp: take_Suc_conv_app_nth)
  show "index_room (pg_index pg) \<le> index_room ix' + Suc (b_start b div 100)" using i(4) r(3) by simp
  show "length (ix_cache ix') = length (ix_cache (pg_index pg))" using writeIndexRec_cache [OF w] i(5) by simp
qed

lemma batch_store_index: "batch_store b v = Inr b' \<Longrightarrow> pg_index (b_page b') = pg_index (b_page b) \<and> b_start b' = b_start b"
  by (auto simp: batch_store_def Let_def bind_r_eq_Inr page_window_step_def store_meas_def split: if_splits)

lemma batch_index_step:
  assumes fits: "index_fits pg ms" and inv: "batch_index_inv pg ms i b" and i: "i < length ms"
    and st: "batch_store b v = Inr b1" and hd: "batch_hundred ms i b1 = Inr b2"
  shows "batch_index_inv pg ms (Suc i) b2"
proof -
  note s = batch_store_index [OF st]
  have inv1: "batch_index_inv pg ms i b1" using inv s by (simp add: batch_index_inv_def)
  show ?thesis
  proof (cases "i \<noteq> 0 \<and> i mod 100 = 0")
    case False
    then have "b2 = b1" using hd by (auto simp: batch_hundred_def)
    moreover have "100 * ((i - 1) div 100) = 100 * (i div 100)" using False by (cases i) (auto simp: div_Suc)
    ultimately show ?thesis using batch_index_invD [OF inv1] by (simp add: batch_index_inv_def Let_def)
  next
    case True
    then obtain ix where w: "writeIndexRec (pg_index (b_page b1)) (batch_record b1 (m_time (ms ! b_start b1))
        (m_time (ms ! (i - 1))) (m_time (ms ! b_start b1)) (m_time (ms ! (i - 1))) 100) = Inr ix"
      and b2: "b2 = b1\<lparr>b_page := (b_page b1)\<lparr>pg_index := ix\<rparr>, b_pos_begin := b_pos_begin b1 + 100, b_start := i,
        b_flg := 0, b_src := 0\<rparr>"
      using hd by (auto simp: batch_hundred_def Let_def bind_r_eq_Inr)
    note st1 = batch_index_invD(2) [OF inv1]
    obtain k where k: "i = 100 * Suc k" using True by (metis dvd_eq_mod_eq_0 dvdE mult_0_right not0_implies_Suc)
    have bk: "b_start b1 = 100 * k" using st1 k by simp
    have lt: "b_start b1 < length ms" using bk k i by simp
    note r = index_write_step [OF fits inv1 lt batch_record_minTime w]
    have "set (take (Suc (b_start b1)) ms) \<subseteq> set (take i ms)" using bk k by (intro set_take_subset_set_take) simp
    then have "r_minTime ` records ix \<subseteq> r_minTime ` records (pg_index pg) \<union> m_time ` set (take i ms)"
      by (rule image_subset_widen [OF r(2)])
    then show ?thesis using r(1,3,4) bk k b2 by (simp add: batch_index_inv_def Let_def)
  qed
qed

lemma drop_Cons_nth: "v # rest = drop i xs \<Longrightarrow> i < length xs \<and> rest = drop (Suc i) xs"
  by (metis drop_Suc drop_all drop_tl list.distinct(1) list.sel(3) not_le)

lemma batch_loop_index:
  assumes fits: "index_fits pg ms"
  shows "batch_index_inv pg ms i b \<Longrightarrow> rest = drop i ms \<Longrightarrow> i \<le> length ms \<Longrightarrow> batch_loop ms i rest b = Inr (i', b') \<Longrightarrow>
    batch_index_inv pg ms i' b' \<and> i' \<le> length ms"
proof (induction rest arbitrary: i b)
  case Nil
  then show ?case by simp
next
  case (Cons v rest)
  have i: "i < length ms" "rest = drop (Suc i) ms" using drop_Cons_nth [OF Cons.prems(2)] by auto
  show ?case
  proof (cases "page_isFull (b_page b)")
    case True
    then show ?thesis using Cons.prems(1,3,4) by simp
  next
    case False
    then obtain b1 b2 where b: "batch_store b v = Inr b1" "batch_hundred ms i b1 = Inr b2"
      "batch_loop ms (Suc i) rest b2 = Inr (i', b')"
      using Cons.prems(4) by (auto simp: bind_r_eq_Inr)
    show ?thesis
      using Cons.IH [OF batch_index_step [OF fits Cons.prems(1) i(1) b(1,2)] i(2)] i(1) b(3) by simp
  qed
qed

lemma page_append_many_index:
  assumes fits: "index_fits pg ms" and app: "page_append_many pg ms = Inr (pg', res)"
  shows "index_inv (pg_index pg')"
    "r_minTime ` records (pg_index pg') \<subseteq> r_minTime ` records (pg_index pg) \<union> m_time ` set ms"
    "index_room (pg_index pg) \<le> index_room (pg_index pg') + Suc (length ms div 100)"
    "length (ix_cache (pg_index pg')) = length (ix_cache (pg_index pg))"
proof -
  let ?b0 = "\<lparr>b_page = pg, b_writed = 0, b_start = 0, b_pos_begin = h_write_pos (pg_header pg), b_flg = 0, b_src = 0\<rparr>"
  obtain i b pg1 where r: "batch_loop ms 0 ms ?b0 = Inr (i, b)" "batch_rest ms i b = Inr pg1" "pg_index pg' = pg_index pg1"
    using app by (auto simp: page_append_many_def bind_r_eq_Inr Let_def)
  have "batch_index_inv pg ms 0 ?b0" using fits by (simp add: batch_index_inv_def index_fits_def)
  from batch_loop_index [OF fits this _ _ r(1)] have b: "batch_index_inv pg ms i b" "i \<le> length ms" by simp_all
  have bs: "b_start b = 100 * ((i - 1) div 100)" by (rule batch_index_invD(2) [OF b(1)])
  then have le: "b_start b \<le> i" by simp
  have dv: "b_start b div 100 \<le> length ms div 100" using le b(2) by (intro div_le_mono) simp
  have "index_inv (pg_index pg1) \<and>
    r_minTime ` records (pg_index pg1) \<subseteq> r_minTime ` records (pg_index pg) \<union> m_time ` set ms \<and>
    index_room (pg_index pg) \<le> index_room (pg_index pg1) + Suc (length ms div 100) \<and>
    length (ix_cache (pg_index pg1)) = length (ix_cache (pg_index pg))"
  proof (cases "b_start b = i")
    case True
    then have "pg1 = b_page b" using r(2) by (simp add: batch_rest_def)
    moreover have "r_minTime ` records (pg_index (b_page b)) \<subseteq> r_minTime ` records (pg_index pg) \<union> m_time ` set ms"
      by (rule image_subset_widen [OF batch_index_invD(3) [OF b(1)] set_take_subset])
    ultimately show ?thesis using batch_index_invD(1,4,5) [OF b(1)] dv by simp
  next
    case False
    then obtain ix where w: "writeIndexRec (pg_index (b_page b)) (batch_record b (m_time (ms ! b_start b)) (m_time (ms ! (i - 1)))
        (m_id (ms ! b_start b)) (m_id (ms ! (i - 1))) (i - b_start b)) = Inr ix" "pg1 = (b_page b)\<lparr>pg_index := ix\<rparr>"
      using r(2) by (auto simp: batch_rest_def Let_def bind_r_eq_Inr)
    have "b_start b < length ms" using False le b(2) by simp
    note r = index_write_step [OF fits b(1) this batch_record_minTime w(1)]
    show ?thesis using r(1,3,4) image_subset_widen [OF r(2) set_take_subset] w(2) dv by simp
  qed
  then show "index_inv (pg_index pg')" "r_minTime ` records (pg_index pg') \<subseteq> r_minTime ` records (pg_index pg) \<union> m_time ` set ms"
    "index_room (pg_index pg) \<le> index_room (pg_index pg') + Suc (length ms div 100)"
    "length (ix_cache (pg_index pg')) = length (ix_cache (pg_index pg))" using r(3) by simp_all
qed

section \<open>The measurements on disk\<close>

definition disk_log :: "disk \<Rightarrow> meas list" where
  "disk_log d = concat (map (files_log \<circ> snd) (d_files d))"

lemma disk_log_put:
  assumes "distinct (map fst (d_files d))" and "disk_get d p = Some g"
  shows "mset (disk_log (disk_put d p f)) + mset (files_log g) = mset (disk_log d) + mset (files_log f)"
proof -
  have "distinct (map fst xs) \<Longrightarrow> map_of xs p = Some g \<Longrightarrow>
      mset (concat (map (files_log \<circ> snd) (AList.update p f xs))) + mset (files_log g) =
      mset (concat (map (files_log \<circ> snd) xs)) + mset (files_log f)" for xs
    by (induction xs) (auto split: if_splits)
  then show ?thesis using assms by (simp add: disk_log_def disk_put_def disk_get_def)
qed

lemma disk_log_more:
  assumes "distinct (map fst (d_files d))" and "disk_get d p = Some g" and "files_log f = files_log g @ xs"
  shows "mset (disk_log (disk_put d p f)) = mset (disk_log d) + mset xs"
  using disk_log_put [OF assms(1,2), of f] assms(3) by simp

section \<open>Writing to the current page\<close>

text \<open>
  A page that can be written: what appending, closing and reading it again need. An empty page is not full.
\<close>

definition writable :: "page \<Rightarrow> bool" where
  "writable pg \<longleftrightarrow> page_ok pg \<and> 64 dvd page_gap pg \<and> index_inv (pg_index pg) \<and>
     length (ix_cache (pg_index pg)) = indexCacheSize \<and> length (pg_window pg) < 2 ^ 64 \<and> page_fine pg \<and>
     (page_log pg = [] \<longrightarrow> page_gap pg \<noteq> 0)"

lemma writable_times: "writable pg \<Longrightarrow> in_times pg"
  by (simp add: writable_def page_fine_def)

text \<open>The files beside the one of the current page: each can be read, holds something and is marked closed. The page list has all names.\<close>

definition file_fine :: "page_files \<Rightarrow> bool" where
  "file_fine f \<longleftrightarrow> (\<exists>q. page_fine q \<and> f = page_disk q \<and> page_log q \<noteq> []) \<and> \<not> h_isOpen (pf_header f)"

definition lib_ok :: "disk \<Rightarrow> string list \<Rightarrow> string \<Rightarrow> bool" where
  "lib_ok d names cur \<longleftrightarrow> (\<forall>p f. disk_get d p = Some f \<longrightarrow> p \<noteq> cur \<longrightarrow> file_fine f) \<and> distinct names \<and>
     set names = fst ` set (d_files d) \<and> [] \<notin> set names"

lemma lib_ok_put:
  assumes "lib_ok d names cur" and "disk_get d cur = Some g"
  shows "lib_ok (disk_put d cur f) names cur"
  using assms arg_cong [OF disk_put_old [OF assms(2), of f], of set] by (auto simp: lib_ok_def)

text \<open>
  The state of the writer during a call, before it writes to a page, and between two calls; \<open>n\<close> is the number of measurements for
  which the storage was created. Between calls a page without measurements is the only one.
\<close>

definition writer_mid :: "nat \<Rightarrow> world \<Rightarrow> PageManager \<Rightarrow> string \<Rightarrow> page \<Rightarrow> bool" where
  "writer_mid n wd pm name pg \<longleftrightarrow> cur_synced wd pm name pg \<and> writable pg \<and> pm_default_page_size pm = calc_size n \<and>
     distinct (map fst (d_files (wd_disk wd))) \<and> (\<forall>p. d_left (wd_disk wd) p = (None, None)) \<and>
     lib_ok (wd_disk wd) (pm_page_list pm) name"

definition writer_ready :: "nat \<Rightarrow> world \<Rightarrow> PageManager \<Rightarrow> string \<Rightarrow> page \<Rightarrow> bool" where
  "writer_ready n wd pm name pg \<longleftrightarrow> writer_mid n wd pm name pg \<and> ix_cache_pos (pg_index pg) = 0"

definition writer_ok :: "nat \<Rightarrow> world \<Rightarrow> PageManager \<Rightarrow> string \<Rightarrow> page \<Rightarrow> bool" where
  "writer_ok n wd pm name pg \<longleftrightarrow> writer_ready n wd pm name pg \<and> (page_log pg = [] \<longrightarrow> length (d_files (wd_disk wd)) = 1)"

lemma writer_midD:
  assumes "writer_mid n wd pm name pg"
  shows "cur_synced wd pm name pg" "writable pg" "pm_default_page_size pm = calc_size n" "distinct (map fst (d_files (wd_disk wd)))"
    "d_left (wd_disk wd) p = (None, None)" "lib_ok (wd_disk wd) (pm_page_list pm) name" "disk_get (wd_disk wd) name = Some (page_disk pg)"
  using assms by (simp_all add: writer_mid_def cur_synced_def)

definition new_room :: "nat \<Rightarrow> nat" where
  "new_room n = (page_size_to_count (calc_size n) div 10 div 100 + 2) div 3 - 1"

lemma page_Create_room:
  assumes "page_Create None w (calc_size n) = Inr pg" and "1500 \<le> n" and "n < 2 ^ 50"
  shows "index_room (pg_index pg) = new_room n"
proof -
  have "page_size_to_count (calc_size n) = 64 * n div 48"
    using assms(2,3) by (simp add: page_size_to_count_def calc_size_def sizeof_defs)
  then have "200 \<le> page_size_to_count (calc_size n) div 10" using assms(2) by simp
  from index_open_new [OF _ this, of indexCacheSize] obtain ix where
    "index_open indexCacheSize None (page_size_to_count (calc_size n) div 10) = Inr ix" "index_room ix = new_room n"
    by (auto simp: indexCacheSize_def new_room_def)
  then show ?thesis using assms(1) by (auto simp: page_Create_def split: if_splits)
qed

lemma window_length: "length w < 2 ^ 64 \<Longrightarrow> updateAll w ms = Inr w' \<Longrightarrow> length w' < 2 ^ 64"
proof (rule fold_r_invariant [where P = "\<lambda>w. length w < 2 ^ 64" and f = updateWriteWindow])
  fix w :: write_window and m w'
  assume w: "length w < 2 ^ 64" "updateWriteWindow w m = Inr w'"
  show "length w' < 2 ^ 64"
  proof (cases "length w \<le> unat (m_id m)")
    case True
    have "m_id m \<noteq> - 1"
      using w updateWriteWindow_max_id [of m w] unsigned_less [of "m_id m"] True by (auto simp del: unsigned_less)
    then have "length w' = Suc (unat (m_id m))" "unat (m_id m + 1) = Suc (unat (m_id m))"
      using w(2) True updateWriteWindow_grow [of w m] unat_inc by auto
    moreover have "unat (m_id m + 1) < 2 ^ LENGTH(64)" by (rule unsigned_less)
    ultimately show ?thesis by simp
  next
    case False
    then show ?thesis using w updateWriteWindow_in_range [of m w] by (auto split: if_splits)
  qed
qed auto

lemma with_cur_ok:
  assumes "cur_synced wd pm name pg" and "f pg = Inr (pg', r)" and "pg_mapped pg'"
  obtains wd' where "with_cur f wd = Inr (wd', r)" "cur_synced wd' (pm\<lparr>pm_curpage := Some (name, pg')\<rparr>) name pg'"
    "wd_disk wd' = disk_put (wd_disk wd) name (page_disk pg')"
proof -
  define wd' where "wd' = pm_set (wd\<lparr>wd_disk := disk_put (wd_disk wd) name (page_disk pg')\<rparr>) (pm\<lparr>pm_curpage := Some (name, pg')\<rparr>)"
  have "with_cur f wd = Inr (wd', r)"
    using assms(1,2) by (simp add: with_cur_def cur_synced_def pm_get_def page_view_synced wd'_def)
  then show ?thesis using that [of wd'] assms(3) by (simp add: cur_synced_def wd'_def pm_set_def)
qed

text \<open>The current page changes, and with it its file.\<close>

lemma writer_with_cur:
  assumes mid: "writer_mid n wd pm name pg" and f: "f pg = Inr (pg', r)" and w: "writable pg'" "pg_mapped pg'"
    and log: "page_log pg' = page_log pg @ xs"
  obtains wd' where "with_cur f wd = Inr (wd', r)" "writer_mid n wd' (pm\<lparr>pm_curpage := Some (name, pg')\<rparr>) name pg'"
    "mset (disk_log (wd_disk wd')) = mset (disk_log (wd_disk wd)) + mset xs"
    "length (d_files (wd_disk wd')) = length (d_files (wd_disk wd))"
proof -
  note d = writer_midD [OF mid]
  obtain wd' where wd': "with_cur f wd = Inr (wd', r)" "cur_synced wd' (pm\<lparr>pm_curpage := Some (name, pg')\<rparr>) name pg'"
      "wd_disk wd' = disk_put (wd_disk wd) name (page_disk pg')"
    by (rule with_cur_ok [of wd pm name pg f, OF d(1) f w(2)])
  note keys = disk_put_old [OF d(7), of "page_disk pg'"]
  have "writer_mid n wd' (pm\<lparr>pm_curpage := Some (name, pg')\<rparr>) name pg'"
    using wd'(2) w(1) d(3-5) lib_ok_put [OF d(6,7), of "page_disk pg'"] keys by (simp add: writer_mid_def wd'(3))
  moreover have "length (d_files (wd_disk wd')) = length (d_files (wd_disk wd))" using arg_cong [OF keys, of length] by (simp add: wd'(3))
  moreover have "mset (disk_log (wd_disk wd')) = mset (disk_log (wd_disk wd)) + mset xs"
    unfolding wd'(3) by (rule disk_log_more [OF d(4,7)]) (simp add: log)
  ultimately show ?thesis using that wd'(1) by blast
qed

text \<open>What an append leaves alone.\<close>

definition frame_parts :: "page \<Rightarrow> bool \<times> meas list option \<times> nat \<times> nat" where
  "frame_parts pg = (pg_mapped pg, pg_window_file pg, h_version (pg_header pg), ih_format (ix_header (pg_index pg)))"

lemma writeIndexRec_format: "writeIndexRec ix rec = Inr ix' \<Longrightarrow> ih_format (ix_header ix') = ih_format (ix_header ix)"
  by (auto simp: writeIndexRec_def bind_r_eq_Inr dest: flush_format split: if_splits)

lemma page_append_frame:
  assumes "page_append_many pg ms = Inr (pg', r)"
  shows "frame_parts pg' = frame_parts pg"
proof -
  have st: "batch_store b v = Inr b' \<Longrightarrow> frame_parts (b_page b') = frame_parts (b_page b)" for b v b'
    by (auto simp: frame_parts_def batch_store_def Let_def bind_r_eq_Inr page_window_step_def store_meas_def page_filters_def split: if_splits)
  have hd: "batch_hundred ms i b = Inr b' \<Longrightarrow> frame_parts (b_page b') = frame_parts (b_page b)" for i b b'
    by (auto simp: frame_parts_def batch_hundred_def Let_def bind_r_eq_Inr dest: writeIndexRec_format split: if_splits)
  have lp: "batch_loop ms i rest b = Inr (i', b') \<Longrightarrow> frame_parts (b_page b') = frame_parts (b_page b)" for i rest b i' b'
    by (induction rest arbitrary: i b) (auto simp: bind_r_eq_Inr split: if_splits dest!: st hd)
  obtain i b pg1 where r: "batch_loop ms 0 ms \<lparr>b_page = pg, b_writed = 0, b_start = 0,
      b_pos_begin = h_write_pos (pg_header pg), b_flg = 0, b_src = 0\<rparr> = Inr (i, b)"
    "batch_rest ms i b = Inr pg1" "frame_parts pg' = frame_parts pg1"
    using assms by (auto simp: page_append_many_def bind_r_eq_Inr Let_def frame_parts_def updateMinMax_def)
  moreover have "frame_parts pg1 = frame_parts (b_page b)"
    using r(2) by (auto simp: frame_parts_def batch_rest_def Let_def bind_r_eq_Inr dest: writeIndexRec_format split: if_splits)
  ultimately show ?thesis using lp by fastforce
qed

text \<open>What is to be written: measurements in ascending order of time that the index can take.\<close>

definition batch_ok :: "nat \<Rightarrow> meas list \<Rightarrow> bool" where
  "batch_ok n ms \<longleftrightarrow> (\<forall>m \<in> set ms. meas8 m) \<and> sorted (map m_time ms) \<and> distinct (map m_time ms) \<and>
     length ms < indexCacheSize \<and> length ms div 100 < new_room n"

lemma batch_ok_drop:
  assumes "batch_ok n ms"
  shows "batch_ok n (drop k ms)"
proof -
  have "length (drop k ms) div 100 \<le> length ms div 100" by (simp add: div_le_mono)
  then show ?thesis using assms
    by (auto simp: batch_ok_def drop_map [symmetric] sorted_wrt_drop dest: in_set_dropD)
qed

text \<open>One append to the current page.\<close>

lemma append_round:
  assumes ready: "writer_ready n wd pm name pg" and ms: "batch_ok n ms" and fits: "index_fits pg ms"
    and k: "k = min (length ms) (page_gap pg div 64)"
  obtains wd' pg' where "with_cur (\<lambda>pg. page_append_many pg ms) wd = Inr (wd', \<lparr>writed = k, ignored = 0\<rparr>)"
    "writer_mid n wd' (pm\<lparr>pm_curpage := Some (name, pg')\<rparr>) name pg'"
    "mset (disk_log (wd_disk wd')) = mset (disk_log (wd_disk wd)) + mset (map meas_stored (take k ms))"
    "length (d_files (wd_disk wd')) = length (d_files (wd_disk wd))"
    "r_minTime ` records (pg_index pg') \<subseteq> r_minTime ` records (pg_index pg) \<union> m_time ` set ms"
    "index_room (pg_index pg) \<le> index_room (pg_index pg') + Suc (length ms div 100)"
    "page_log pg' = page_log pg @ map meas_stored (take k ms)"
proof -
  have mid: "writer_mid n wd pm name pg" and pos: "ix_cache_pos (pg_index pg) = 0" using ready by (simp_all add: writer_ready_def)
  have w: "writable pg" and mp: "pg_mapped pg" using writer_midD(1,2) [OF mid] by (simp_all add: cur_synced_def)
  have p: "page_ok pg" "64 dvd page_gap pg" "length (ix_cache (pg_index pg)) = indexCacheSize" "length (pg_window pg) < 2 ^ 64" "page_fine pg"
    "page_log pg = [] \<Longrightarrow> page_gap pg \<noteq> 0"
    using w by (simp_all add: writable_def)
  have cache: "ix_cache_pos (pg_index pg) + length ms < length (ix_cache (pg_index pg))" using p pos ms by (simp add: batch_ok_def)
  have m8: "\<forall>m \<in> set ms. meas8 m" and srt: "sorted (map m_time ms)" using ms by (simp_all add: batch_ok_def)
  obtain pg' where
    a: "page_append_many pg ms = Inr (pg', \<lparr>writed = k, ignored = 0\<rparr>)" "page_ok pg'" "64 dvd page_gap pg'"
      "page_log pg' = page_log pg @ map meas_stored (take k ms)" "updateAll (pg_window pg) (take k ms) = Inr (pg_window pg')"
      "in_times pg'" "span_tight pg'" "page_gap pg' + 64 * k = page_gap pg"
    using page_append_many_ok [OF p(1,2) m8 cache k] srt p(5) unfolding page_fine_def by metis
  note ix = page_append_many_index [OF fits a(1)]
  have fr: "pg_mapped pg'" "page_fine pg'"
    using page_append_frame [OF a(1)] mp p(5) a(2,6,7) ww_wf_updateAll [OF _ a(5)]
    by (simp_all add: frame_parts_def page_fine_def page_ok_def)
  have "page_log pg' = [] \<longrightarrow> page_gap pg' \<noteq> 0"
  proof
    assume e: "page_log pg' = []"
    then have "take k ms = []" "page_log pg = []" using a(4) by simp_all
    then have "k = 0" using k by auto
    then show "page_gap pg' \<noteq> 0" using a(8) p(6) \<open>page_log pg = []\<close> by simp
  qed
  then have "writable pg'" using a(2,3) fr(2) ix p(3) window_length [OF p(4) a(5)] by (simp add: writable_def)
  from writer_with_cur [of n wd pm name pg "\<lambda>pg. page_append_many pg ms", OF mid a(1) this fr(1) a(4)]
  show ?thesis using that ix(2,3) a(4) by blast
qed

text \<open>A new page is writable, empty, and its index is empty.\<close>

lemma new_page_writable:
  assumes "page_Create None None (calc_size n) = Inr pg1" and "1500 \<le> n" and "n < 2 ^ 50"
    and "length w < 2 ^ 64" and "ww_wf w" and "pg = pg1\<lparr>pg_window := w\<rparr>"
  shows "writable pg" "page_log pg = []" "page_gap pg = 64 * n" "ix_cache_pos (pg_index pg) = 0" "records (pg_index pg) = {}"
    "index_room (pg_index pg) = new_room n"
proof -
  obtain p where p: "page_Create None None (calc_size n) = Inr p" "page_ok p" "in_times p"
      "page_log p = []" "page_gap p = 64 * n" "ix_cache_pos (pg_index p) = 0" "length (ix_cache (pg_index p)) = indexCacheSize"
      "index_inv (pg_index p)" "records (pg_index p) = {}" "pg_header p = (initHeader (calc_size n))\<lparr>h_isOpen := True\<rparr>"
      "pg_window_file p = None" "ih_format (ix_header (pg_index p)) = index_file_format"
    by (rule page_Create_ok [OF assms(2,3)]) blast
  have e: "pg1 = p" using p(1) assms(1) by simp
  show log: "page_log pg = []" "page_gap pg = 64 * n" using p(4,5) by (simp_all add: assms(6) e page_log_def page_gap_def)
  have ok: "page_ok pg" "in_times pg" "span_tight pg"
    using p(2-4,10) by (simp_all add: assms(6) e page_ok_def page_inv_def filters_ok_def indexed_def page_log_def in_times_def
        span_tight_def initHeader_def zero_header_def)
  moreover have "h_version (pg_header pg) = page_version" using p(10) by (simp add: assms(6) e initHeader_def)
  ultimately have "page_fine pg" using p(11,12) assms(5) by (simp add: page_fine_def page_ok_def assms(6) e load_window_file_def)
  then show "writable pg" using ok(1) log p(7,8) assms(2,4) by (simp add: writable_def) (simp add: assms(6) e)
  show "ix_cache_pos (pg_index pg) = 0" "records (pg_index pg) = {}" "index_room (pg_index pg) = new_room n"
    using p(6,9) page_Create_room [OF assms(1-3)] by (simp_all add: assms(6) e)
qed

lemma new_page_round:
  assumes mid: "writer_mid n wd pm name pg" and n: "1500 \<le> n" "n < 2 ^ 50" and few: "length (d_files (wd_disk wd)) + 1 < 2 ^ 32"
    and ne: "page_log pg \<noteq> []"
  obtains wd' pm' path pg' where "createNewPage time wd = Inr wd'" "writer_ready n wd' pm' path pg'"
    "page_gap pg' = 64 * n" "records (pg_index pg') = {}" "index_room (pg_index pg') = new_room n"
    "mset (disk_log (wd_disk wd')) = mset (disk_log (wd_disk wd))"
    "length (d_files (wd_disk wd')) = Suc (length (d_files (wd_disk wd)))"
proof -
  note d = writer_midD [OF mid]
  have pre: "index_inv (pg_index pg)" "length (pg_window pg) < 2 ^ 64" "page_fine pg" using d(2) by (simp_all add: writable_def)
  have left: "\<forall>p. fst (d_left (wd_disk wd) p) = None" using d(5) by simp
  obtain wd' pm' path pg1 pg' old where r: "createNewPage time wd = Inr wd'" "cur_synced wd' pm' path pg'"
    "disk_get (wd_disk wd) path = None" "pm' = pm\<lparr>pm_curpage := Some (path, pg'), pm_page_list := pm_page_list pm @ [path]\<rparr>"
    "pg' = pg1\<lparr>pg_window := pg_window pg\<rparr>" "page_Create None (snd (d_left (wd_disk wd) path)) (calc_size n) = Inr pg1"
    "d_files (wd_disk wd') = AList.update name old (d_files (wd_disk wd)) @ [(path, page_disk pg')]"
    "d_left (wd_disk wd') = d_left (wd_disk wd)" "files_log old = page_log pg" "\<exists>q. page_fine q \<and> old = page_disk q"
    "\<not> h_isOpen (pf_header old)" "path \<noteq> []"
    using createNewPage_ok [OF d(1) pre(1,2) d(3) n few left, of time] pre(3) by metis
  have "ww_wf (pg_window pg)" using pre(3) by (simp add: page_fine_def)
  note new = new_page_writable [OF r(6) [unfolded d(5) snd_conv] n pre(2) this r(5)]
  have put: "AList.update name old (d_files (wd_disk wd)) = d_files (disk_put (wd_disk wd) name old)" by (simp add: disk_put_def)
  note keys = disk_put_old [OF d(7), of old]
  have np: "path \<notin> fst ` set (d_files (wd_disk wd))" using r(3) by (simp add: disk_get_def map_of_eq_None_iff)
  have "file_fine old" using r(9-11) ne by (auto simp: file_fine_def)
  have "lib_ok (wd_disk wd') (pm_page_list pm') path"
    unfolding lib_ok_def
  proof (intro conjI allI impI)
    fix p f assume "disk_get (wd_disk wd') p = Some f" "p \<noteq> path"
    then have "disk_get (disk_put (wd_disk wd) name old) p = Some f"
      by (simp add: disk_get_def r(7) put map_add_def split: option.splits if_splits)
    then show "file_fine f" using d(6) \<open>file_fine old\<close> by (auto simp: lib_ok_def split: if_splits)
  qed (use d(6) np r(12) arg_cong [OF keys, of set] in \<open>auto simp: lib_ok_def r(4,7) put\<close>)
  moreover have "distinct (map fst (d_files (wd_disk wd')))" using d(4) keys np by (simp add: r(7) put)
  ultimately have "writer_ready n wd' pm' path pg'"
    using r(2,4,8) new(1,4) d(3,5) by (simp add: writer_ready_def writer_mid_def)
  moreover have "length (d_files (wd_disk wd')) = Suc (length (d_files (wd_disk wd)))"
    using arg_cong [OF keys, of length] by (simp add: r(7) put)
  moreover have "mset (disk_log (wd_disk wd')) = mset (disk_log (wd_disk wd))"
  proof -
    have "disk_log (wd_disk wd') = disk_log (disk_put (wd_disk wd) name old) @ []"
      using new(2) by (simp add: disk_log_def r(7) put)
    then show ?thesis using disk_log_more [OF d(4,7), of old "[]"] r(9) by simp
  qed
  ultimately show ?thesis using that [OF r(1)] new(3,5,6) by blast
qed

text \<open>What writing \<open>ms\<close> with at most \<open>f\<close> new pages makes of a world and its current page.\<close>

definition written_out :: "nat \<Rightarrow> world \<Rightarrow> page \<Rightarrow> meas list \<Rightarrow> nat \<Rightarrow> world \<Rightarrow> page \<Rightarrow> bool" where
  "written_out n wd pg ms f wd' pg' \<longleftrightarrow>
     mset (disk_log (wd_disk wd')) = mset (disk_log (wd_disk wd)) + mset (map meas_stored ms) \<and>
     r_minTime ` records (pg_index pg') \<subseteq> r_minTime ` records (pg_index pg) \<union> m_time ` set ms \<and>
     min (index_room (pg_index pg)) (new_room n) \<le> index_room (pg_index pg') + Suc (length ms div 100) \<and>
     length (d_files (wd_disk wd')) \<le> length (d_files (wd_disk wd)) + f \<and>
     (page_log pg' = [] \<longrightarrow> page_log pg = [] \<and> ms = [] \<and> wd' = wd)"

lemma written_out_nothing: "written_out n wd pg [] f wd pg"
  by (simp add: written_out_def)

lemma written_out_round:
  assumes "written_out n wd2 pg2 (drop k ms) f wd' pg'" and "k < length ms" and "records (pg_index pg2) = {}" and "index_room (pg_index pg2) = new_room n"
    and "mset (disk_log (wd_disk wd2)) = mset (disk_log (wd_disk wd)) + mset (map meas_stored (take k ms))"
    and "length (d_files (wd_disk wd2)) = Suc (length (d_files (wd_disk wd)))"
  shows "written_out n wd pg ms (Suc f) wd' pg'"
proof -
  have "mset (map meas_stored ms) = mset (map meas_stored (take k ms)) + mset (map meas_stored (drop k ms))"
    by (metis append_take_drop_id map_append mset_append)
  moreover have "(length ms - k) div 100 \<le> length ms div 100" by (simp add: div_le_mono)
  moreover have "r_minTime ` records (pg_index pg') \<subseteq> r_minTime ` records (pg_index pg) \<union> m_time ` set ms"
    using assms(1,3) image_mono [OF set_drop_subset, of m_time k ms] by (simp add: written_out_def) blast
  ultimately show ?thesis using assms unfolding written_out_def by auto
qed

text \<open>A round of the loop either writes everything or fills the page and goes on with a new one.\<close>

lemma write_round:
  assumes ready: "writer_ready n wd pm name pg" and n: "1500 \<le> n" "n < 2 ^ 50" and ms: "batch_ok n ms" "ms \<noteq> []" and fits: "index_fits pg ms"
    and few: "length (d_files (wd_disk wd)) + 1 < 2 ^ 32"
  obtains (whole) wd1 pm1 pg1 where "with_cur (\<lambda>pg. page_append_many pg ms) wd = Inr (wd1, \<lparr>writed = length ms, ignored = 0\<rparr>)"
      "writer_mid n wd1 pm1 name pg1" "\<And>f. written_out n wd pg ms f wd1 pg1"
    | (rest) k wd1 wd2 pm2 path pg2 where "with_cur (\<lambda>pg. page_append_many pg ms) wd = Inr (wd1, \<lparr>writed = k, ignored = 0\<rparr>)"
      "k < length ms" "page_gap pg = 0 \<or> 0 < k" "createNewPage t wd1 = Inr wd2" "writer_ready n wd2 pm2 path pg2" "page_gap pg2 \<noteq> 0"
      "batch_ok n (drop k ms)" "index_fits pg2 (drop k ms)" "length (d_files (wd_disk wd2)) = Suc (length (d_files (wd_disk wd)))"
      "\<And>f wd' pg'. written_out n wd2 pg2 (drop k ms) f wd' pg' \<Longrightarrow> written_out n wd pg ms (Suc f) wd' pg'"
proof -
  define k where "k = min (length ms) (page_gap pg div 64)"
  obtain wd1 pg1 where a: "with_cur (\<lambda>pg. page_append_many pg ms) wd = Inr (wd1, \<lparr>writed = k, ignored = 0\<rparr>)"
      "writer_mid n wd1 (pm\<lparr>pm_curpage := Some (name, pg1)\<rparr>) name pg1"
      "mset (disk_log (wd_disk wd1)) = mset (disk_log (wd_disk wd)) + mset (map meas_stored (take k ms))"
      "length (d_files (wd_disk wd1)) = length (d_files (wd_disk wd))"
      "r_minTime ` records (pg_index pg1) \<subseteq> r_minTime ` records (pg_index pg) \<union> m_time ` set ms"
      "index_room (pg_index pg) \<le> index_room (pg_index pg1) + Suc (length ms div 100)"
      "page_log pg1 = page_log pg @ map meas_stored (take k ms)"
    by (rule append_round [OF ready ms(1) fits k_def])
  have kpos: "page_gap pg = 0 \<or> 0 < k" and "page_log pg = [] \<Longrightarrow> page_gap pg \<noteq> 0"
    using ready ms(2) by (auto simp: writer_ready_def writer_mid_def writable_def k_def dvd_div_eq_0_iff)
  then have ne1: "page_log pg1 \<noteq> []" using a(7) ms(2) by auto
  show thesis
  proof (cases "k = length ms")
    case True
    then show ?thesis using a ne1 by (intro whole [of wd1 _ pg1]) (auto simp: written_out_def)
  next
    case False
    then have k: "k < length ms" by (simp add: k_def)
    obtain wd2 pm2 path pg2 where b: "createNewPage t wd1 = Inr wd2" "writer_ready n wd2 pm2 path pg2" "page_gap pg2 = 64 * n"
        "records (pg_index pg2) = {}" "index_room (pg_index pg2) = new_room n" "mset (disk_log (wd_disk wd2)) = mset (disk_log (wd_disk wd1))"
        "length (d_files (wd_disk wd2)) = Suc (length (d_files (wd_disk wd1)))"
      by (rule new_page_round [OF a(2) n _ ne1, of t]) (use few a(4) in simp)
    have bo: "batch_ok n (drop k ms)" by (rule batch_ok_drop [OF ms(1)])
    have "index_fits pg2 (drop k ms)"
      using bo b(2,4,5) by (simp add: index_fits_def batch_ok_def writer_ready_def writer_mid_def writable_def)
    moreover have "page_gap pg2 \<noteq> 0" using b(3) n(1) by simp
    ultimately show ?thesis using a(3,4) b(6,7) bo
      by (intro rest [OF a(1) k kpos b(1,2)]) (auto intro: written_out_round [OF _ k b(4,5)])
  qed
qed

lemma write_loop_ok:
  assumes n: "1500 \<le> n" "n < 2 ^ 50"
  shows "writer_ready n wd pm name pg \<Longrightarrow> ms = drop (length output - to_write) output \<Longrightarrow> batch_ok n ms \<Longrightarrow> to_write \<le> length output \<Longrightarrow>
    index_fits pg ms \<Longrightarrow> to_write + (if page_gap pg = 0 then 1 else 0) \<le> fuel \<Longrightarrow> length (d_files (wd_disk wd)) + fuel + 1 < 2 ^ 32 \<Longrightarrow>
    \<exists>wd' pm' name' pg'. write_loop fuel clk output to_write wd = Inr wd' \<and> writer_mid n wd' pm' name' pg' \<and> written_out n wd pg ms fuel wd' pg'"
proof (induction fuel arbitrary: wd pm name pg to_write ms)
  case 0
  then show ?case using written_out_nothing [of n wd pg 0]
    by (intro exI [of _ wd] exI [of _ pm] exI [of _ name] exI [of _ pg]) (auto simp: write_loop.simps writer_ready_def)
next
  case (Suc fuel)
  note pr = Suc.prems
  have len: "length ms = to_write" using pr(2,4) by simp
  show ?case
  proof (cases "ms = []")
    case True
    then show ?thesis using pr(1) len written_out_nothing [of n wd pg "Suc fuel"]
      by (intro exI [of _ wd] exI [of _ pm] exI [of _ name] exI [of _ pg]) (auto simp: write_loop.simps writer_ready_def)
  next
    case ne: False
    have "length (d_files (wd_disk wd)) + 1 < 2 ^ 32" using pr(7) by simp
    from pr(1) n pr(3) ne pr(5) this show ?thesis
    proof (cases rule: write_round [where t = "clk fuel"])
      case (whole wd1 pm1 pg1)
      then have "write_loop (Suc fuel) clk output to_write wd = Inr wd1" using ne len by (auto simp: write_loop.simps simp flip: pr(2))
      then show ?thesis using whole(2,3) by blast
    next
      case (rest k wd1 wd2 pm2 path pg2)
      have "drop k ms = drop (length output - (to_write - k)) output" using pr(2,4) rest(2) len by (simp add: add.commute)
      moreover have "to_write - k + (if page_gap pg2 = 0 then 1 else 0) \<le> fuel" using rest(2,3,6) pr(6) len by (auto split: if_splits)
      ultimately obtain wd' pm' name' pg' where r: "write_loop fuel clk output (to_write - k) wd2 = Inr wd'" "writer_mid n wd' pm' name' pg'"
          "written_out n wd2 pg2 (drop k ms) fuel wd' pg'"
        using Suc.IH [OF rest(5) _ rest(7) _ rest(8), of "to_write - k"] pr(4,7) rest(9) by fastforce
      have "write_loop (Suc fuel) clk output to_write wd = Inr wd'"
        using rest(1,2,4) r(1) ne len by (auto simp: write_loop.simps [of "Suc fuel"] simp flip: pr(2))
      then show ?thesis using r(2) rest(10) [OF r(3)] by blast
    qed
  qed
qed

lemma flush_round:
  assumes mid: "writer_mid n wd pm name pg"
  obtains wd1 wd2 pm' pg' where "with_cur (\<lambda>pg. Inr (page_flushWriteWindow pg, ())) wd = Inr (wd1, ())"
    "with_cur (\<lambda>pg. bind_r (page_flushIndex pg) (\<lambda>pg'. Inr (pg', ()))) wd1 = Inr (wd2, ())"
    "writer_ready n wd2 pm' name pg'" "mset (disk_log (wd_disk wd2)) = mset (disk_log (wd_disk wd))"
    "page_log pg' = page_log pg" "records (pg_index pg') = records (pg_index pg)" "index_room (pg_index pg) \<le> index_room (pg_index pg')"
    "length (d_files (wd_disk wd2)) = length (d_files (wd_disk wd))"
proof -
  have w: "writable pg" and mp: "pg_mapped pg" using writer_midD(1,2) [OF mid] by (simp_all add: cur_synced_def)
  define pg1 where "pg1 = page_flushWriteWindow pg"
  have p1: "pg_index pg1 = pg_index pg" "pg_raw pg1 = pg_raw pg" "pg_mapped pg1" "pg_window pg1 = pg_window pg"
    "pg_header pg1 = (pg_header pg)\<lparr>h_ww_size := length (pg_window pg)\<rparr>"
    "pg_window_file pg1 = flush_window_file (pg_window pg) (pg_window_file pg)"
    using mp by (simp_all add: pg1_def page_flushWriteWindow_def)
  from flush_ok [of "pg_index pg"] w obtain ix where
    ix: "index_flush (pg_index pg) = Inr ix" "index_inv ix" "records ix = records (pg_index pg)" "ix_cache_pos ix = 0"
      "ix_cache ix = ix_cache (pg_index pg)" "index_room (pg_index pg) \<le> index_room ix" by (auto simp: writable_def)
  define pg2 where "pg2 = pg1\<lparr>pg_index := ix\<rparr>"
  have log: "page_log pg1 = page_log pg" "page_log pg2 = page_log pg" by (simp_all add: page_log_def pg2_def p1)
  have fine: "page_fine pg1" "page_fine pg2"
    by (rule page_fine_flush [where pg = pg and a = "length (pg_window pg)" and b = "h_isOpen (pg_header pg)" and c = "h_readers (pg_header pg)"];
        use w flush_format [OF ix(1)] in \<open>simp add: writable_def p1 pg2_def\<close>)+
  have wr: "writable pg1" "writable pg2"
    using w ix fine log
    by (simp_all add: writable_def page_ok_def page_inv_def Let_def filters_ok_def indexed_def page_gap_def pg2_def p1)
  obtain wd1 where
    a: "with_cur (\<lambda>pg. Inr (page_flushWriteWindow pg, ())) wd = Inr (wd1, ())"
      "writer_mid n wd1 (pm\<lparr>pm_curpage := Some (name, pg1)\<rparr>) name pg1"
      "mset (disk_log (wd_disk wd1)) = mset (disk_log (wd_disk wd))" "length (d_files (wd_disk wd1)) = length (d_files (wd_disk wd))"
    using writer_with_cur [of n wd pm name pg "\<lambda>pg. Inr (page_flushWriteWindow pg, ())" pg1 "()" "[]"] mid wr(1) p1(3) log
    by (auto simp: pg1_def)
  have fl: "bind_r (page_flushIndex pg1) (\<lambda>pg'. Inr (pg', ())) = Inr (pg2, ())" "pg_mapped pg2" "page_log pg2 = page_log pg1 @ []"
    using ix(1) p1(1,3) log by (simp_all add: page_flushIndex_def pg2_def)
  obtain wd2 where
    b: "with_cur (\<lambda>pg. bind_r (page_flushIndex pg) (\<lambda>pg'. Inr (pg', ()))) wd1 = Inr (wd2, ())"
      "writer_mid n wd2 (pm\<lparr>pm_curpage := Some (name, pg2)\<rparr>) name pg2"
      "mset (disk_log (wd_disk wd2)) = mset (disk_log (wd_disk wd1))" "length (d_files (wd_disk wd2)) = length (d_files (wd_disk wd1))"
    using writer_with_cur [of n wd1 _ name pg1 "\<lambda>pg. bind_r (page_flushIndex pg) (\<lambda>pg'. Inr (pg', ()))" pg2 "()", OF a(2) fl(1) wr(2) fl(2,3)]
    by auto
  have "writer_ready n wd2 (pm\<lparr>pm_curpage := Some (name, pg2)\<rparr>) name pg2" using b(2) ix(4) by (simp add: writer_ready_def pg2_def)
  then show ?thesis using that [OF a(1) b(1)] a(3,4) b(3,4) log(2) ix(3,6) by (simp add: pg2_def)
qed

section \<open>Properties\<close>

lemma std_sortD:
  "std_sort lt srt \<Longrightarrow> mset (srt xs) = mset xs" "std_sort lt srt \<Longrightarrow> sorted_wrt (\<lambda>a b. \<not> lt b a) (srt xs)"
  by (simp_all add: std_sort_def)

lemma sort_by_time: "std_sort MeasCmpByTime srt \<Longrightarrow> sorted (map m_time (srt xs))"
  using std_sortD(2) [of MeasCmpByTime srt xs] by (simp add: MeasCmpByTime_def sorted_map not_less)

lemma std_sort_exists: "std_sort MeasCmpByTime (sort_key m_time)"
proof -
  have "sorted_wrt (\<lambda>a b. m_time a \<le> m_time b) (sort_key m_time xs)" for xs :: "meas list"
    by (rule sorted_map [THEN iffD1, OF sorted_sort_key])
  then show ?thesis by (simp add: std_sort_def MeasCmpByTime_def not_less)
qed

text \<open>A cache whose measurements the current page and its successors can index.\<close>

definition cache_fits :: "nat \<Rightarrow> page \<Rightarrow> Cache \<Rightarrow> bool" where
  "cache_fits n pg c \<longleftrightarrow> cache_inv c \<and> (\<forall>m \<in> set (cache_held c). meas8 m) \<and> distinct (map m_time (cache_held c)) \<and>
     c_size c < indexCacheSize \<and> c_size c div 100 < new_room n \<and> c_size c div 100 < index_room (pg_index pg) \<and>
     m_time ` set (cache_held c) \<inter> r_minTime ` records (pg_index pg) = {}"

lemma AsyncWriter_call_ok:
  assumes "std_sort MeasCmpByTime srt" and "writer_ok n wd pm name pg" and "1500 \<le> n" and "n < 2 ^ 50"
    and "cache_fits n pg c" and "length (d_files (wd_disk wd)) + c_size c + 2 < 2 ^ 32"
  shows "\<exists>wd' pm' name' pg' c'. AsyncWriter_call srt clk c wd = Inr (wd', c') \<and> writer_ok n wd' pm' name' pg' \<and>
    mset (disk_log (wd_disk wd')) = mset (disk_log (wd_disk wd)) + mset (map meas_stored (cache_held c)) \<and>
    cache_inv c' \<and> cache_held c' = [] \<and> \<not> c_sync c' \<and> c_max_size c' = c_max_size c \<and>
    r_minTime ` records (pg_index pg') \<subseteq> r_minTime ` records (pg_index pg) \<union> m_time ` set (cache_held c) \<and>
    min (index_room (pg_index pg)) (new_room n) \<le> index_room (pg_index pg') + Suc (c_size c div 100) \<and>
    length (d_files (wd_disk wd')) \<le> length (d_files (wd_disk wd)) + Suc (c_size c)"
proof -
  have inv: "length (c_meases c) = c_max_size c" "c_size c = c_index c" "c_size c \<le> c_max_size c" and ci: "cache_inv c"
    using assms(5) by (simp_all add: cache_fits_def cache_inv_def)
  define outp where "outp = srt (cache_held c)"
  have ms: "mset outp = mset (cache_held c)" unfolding outp_def by (rule std_sortD(1) [OF assms(1)])
  then have len: "length outp = c_size c" using length_cache_held [OF ci] by (metis size_mset)
  have st: "set outp = set (cache_held c)" using ms by (metis set_mset_mset)
  have "distinct (map m_time outp)"
    using ms assms(5) by (metis cache_fits_def mset_eq_imp_distinct_iff mset_map)
  then have bo: "batch_ok n outp" and fits: "index_fits pg outp"
    using assms(2,5) st len sort_by_time [OF assms(1), of "cache_held c"]
    by (auto simp: batch_ok_def index_fits_def cache_fits_def writer_ok_def writer_ready_def writer_mid_def writable_def outp_def)
  have one: "(if page_gap pg = 0 then 1 else 0 :: nat) \<le> Suc 0" by simp
  have ready: "writer_ready n wd pm name pg" using assms(2) by (simp add: writer_ok_def)
  obtain wd1 pm1 name1 pg1 where l: "write_loop (Suc (c_size c)) clk outp (c_size c) wd = Inr wd1" "writer_mid n wd1 pm1 name1 pg1"
      "written_out n wd pg outp (Suc (c_size c)) wd1 pg1"
    using write_loop_ok [OF assms(3,4) ready _ bo _ fits, of outp "c_size c" "Suc (c_size c)" clk] len assms(6) one by auto
  note l3 = l(3) [unfolded written_out_def len]
  obtain wd2 wd3 pm' pg' where f: "with_cur (\<lambda>pg. Inr (page_flushWriteWindow pg, ())) wd1 = Inr (wd2, ())"
      "with_cur (\<lambda>pg. bind_r (page_flushIndex pg) (\<lambda>pg'. Inr (pg', ()))) wd2 = Inr (wd3, ())"
      "writer_ready n wd3 pm' name1 pg'" "mset (disk_log (wd_disk wd3)) = mset (disk_log (wd_disk wd1))" "page_log pg' = page_log pg1"
      "records (pg_index pg') = records (pg_index pg1)" "index_room (pg_index pg1) \<le> index_room (pg_index pg')"
      "length (d_files (wd_disk wd3)) = length (d_files (wd_disk wd1))"
    by (rule flush_round [OF l(2)])
  have ok: "writer_ok n wd3 pm' name1 pg'" using f(3,5,8) l3 assms(2) len by (auto simp: writer_ok_def)
  define c' where "c' = sync_complete (cache_clear (c\<lparr>c_meases := outp @ drop (c_size c) (c_meases c)\<rparr>))"
  have "AsyncWriter_call srt clk c wd = Inr (wd3, c')"
    using l(1) f(1,2) inv by (simp add: AsyncWriter_call_def Let_def c'_def outp_def cache_held_def)
  moreover have "cache_inv c'" "cache_held c' = []" "\<not> c_sync c'" "c_max_size c' = c_max_size c"
    using ci inv len by (simp_all add: c'_def cache_inv_def sync_complete_def cache_clear_def cache_held_def)
  moreover have "mset (map meas_stored outp) = mset (map meas_stored (cache_held c))" using ms by simp
  moreover have "min (index_room (pg_index pg)) (new_room n) \<le> index_room (pg_index pg') + Suc (c_size c div 100)"
    using l3 f(7) by linarith
  ultimately show ?thesis using ok f(4,6,8) l3 st
    by (intro exI [of _ wd3] exI [of _ pm'] exI [of _ name1] exI [of _ pg'] exI [of _ c']) simp
qed

text \<open>A world with one new page.\<close>

lemma fresh_writer:
  assumes "1500 \<le> n" and "n < 2 ^ 50"
  obtains wd pm pg where "writer_ok n wd pm ''a'' pg" "index_room (pg_index pg) = new_room n" "records (pg_index pg) = {}"
    "disk_log (wd_disk wd) = []" "length (d_files (wd_disk wd)) = 1" "page_gap pg = 64 * n" "pm_page_list pm = [''a'']"
    "pm_path pm = ''db''" "page_log pg = []" "h_version (pg_header pg) = page_version"
proof -
  obtain pg where pg: "page_Create None None (calc_size n) = Inr pg" "page_ok pg" "in_times pg" "page_log pg = []"
      "page_gap pg = 64 * n" "ix_cache_pos (pg_index pg) = 0" "length (ix_cache (pg_index pg)) = indexCacheSize"
      "index_inv (pg_index pg)" "pg_window pg = []" "pg_mapped pg" "records (pg_index pg) = {}"
      "pg_header pg = (initHeader (calc_size n))\<lparr>h_isOpen := True\<rparr>"
    by (rule page_Create_ok [OF assms, of None])
  define pm where "pm = \<lparr>pm_default_page_size = calc_size n, pm_path = ''db'', pm_curpage = Some (''a'', pg), pm_page_list = [''a'']\<rparr>"
  define wd where "wd = \<lparr>wd_disk = \<lparr>d_files = [(''a'', page_disk pg)], d_left = \<lambda>_. (None, None)\<rparr>, wd_instance = Some pm\<rparr>"
  have e: "pg = pg\<lparr>pg_window := []\<rparr>" using pg(9) by (cases pg) simp
  have "writable pg" by (rule new_page_writable [OF pg(1) assms _ _ e]) simp_all
  then have "writer_ok n wd pm ''a'' pg"
    using pg(6,10) by (simp add: writer_ok_def writer_ready_def writer_mid_def lib_ok_def cur_synced_def wd_def pm_def disk_get_def)
  then show ?thesis
    using that page_Create_room [OF pg(1) assms] pg(4,5,11,12) by (auto simp: wd_def pm_def disk_log_def initHeader_def)
qed

lemma new_room_10000: "new_room 10000 = 4"
  by (simp add: new_room_def page_size_to_count_def calc_size_def sizeof_defs)

text \<open>
  C9. Writing a cache: the call returns, however many pages it has to create on the way; afterwards the pages on disk hold exactly what they
  held before and the measurements of the cache, each once; the cache is empty and free again, and
  the current page is in the state the next call expects. The measurements have 8-byte values, their times
  are pairwise different and new to the index, and the index has room.
\<close>

theorem AsyncWriter_call_stores:
  assumes "std_sort MeasCmpByTime srt" and "writer_ok n wd pm name pg" and "1500 \<le> n" and "n < 2 ^ 50"
    and "cache_fits n pg c" and "length (d_files (wd_disk wd)) + c_size c + 2 < 2 ^ 32"
  shows "\<exists>wd' pm' name' pg' c'. AsyncWriter_call srt clk c wd = Inr (wd', c') \<and> writer_ok n wd' pm' name' pg' \<and>
    mset (disk_log (wd_disk wd')) = mset (disk_log (wd_disk wd)) + mset (map meas_stored (cache_held c)) \<and>
    cache_inv c' \<and> cache_held c' = [] \<and> \<not> c_sync c' \<and> c_max_size c' = c_max_size c"
  using AsyncWriter_call_ok [OF assms, of clk] by blast

theorem AsyncWriter_call_stores_witness:
  "\<exists>wd wd' c'. AsyncWriter_call (sort_key m_time) (\<lambda>_ _. 7) (new_Cache 1\<lparr>c_size := 1, c_index := 1,
      c_meases := [empty_meas\<lparr>m_size := 8, m_time := 3, m_id := 7\<rparr>]\<rparr>) wd = Inr (wd', c') \<and>
    mset (disk_log (wd_disk wd')) = {#meas_stored (empty_meas\<lparr>m_size := 8, m_time := 3, m_id := 7\<rparr>)#} \<and> cache_held c' = []"
proof -
  let ?m = "empty_meas\<lparr>m_size := 8, m_time := 3, m_id := 7\<rparr>"
  let ?c = "new_Cache 1\<lparr>c_size := 1, c_index := 1, c_meases := [?m]\<rparr>"
  obtain wd pm pg where w: "writer_ok 10000 wd pm ''a'' pg" "index_room (pg_index pg) = new_room 10000"
      "records (pg_index pg) = {}" "disk_log (wd_disk wd) = []" "length (d_files (wd_disk wd)) = 1"
    by (rule fresh_writer [of 10000]) auto
  have "cache_fits 10000 pg ?c"
    using w(2,3) sample_meas8 [of 3]
    by (simp add: cache_fits_def cache_inv_def cache_held_def new_Cache_def new_room_10000 indexCacheSize_def)
  from AsyncWriter_call_stores [OF std_sort_exists w(1) _ _ this, of "\<lambda>_ _. 7"] w(4,5)
  show ?thesis by (auto simp: cache_held_def)
qed

end
