(* ===== verification/Async_Worker.thy ===== *)
theory Async_Worker
  imports Nkv_Prelude
begin

text \<open>
  The background worker: \<^verbatim>\<open>include/asyncworker.h\<close>. A queue is served by one thread; clients add elements, pause
  the thread and stop it. The thread is a program counter over the statements of \<^verbatim>\<open>_thread_func\<close>, the
  clients are a step relation. Both locks are modelled: \<open>m_thread_lock\<close> by its owner, \<open>m_add_lock\<close> by
  taking the statements under it as one step.
\<close>

section \<open>State\<close>

text \<open>
  The statement the thread is at: before its first lock; at the test \<^verbatim>\<open>m_data.empty()\<close>; between a successful
  test and the wait; in the wait; woken up but without the lock; at the inner and at the outer test of the stop
  flag; before the removal from the queue; in the call; after the end.
\<close>

datatype 'a thread_pc =
  Not_started | At_entry | Test_empty | Enter_wait | Waiting | Notified | Test_stop_inner | Test_stop | Popping |
  Calling 'a | Finished

datatype lock_owner = Nobody | Thread | Client

text \<open>The client that has called \<^verbatim>\<open>kill\<close>: in its notification loop, in the join, returned.\<close>

datatype kill_pc = Not_killed | Kill_loop | Kill_join | Killed

text \<open>
  \<open>w_added\<close> and \<open>w_called\<close> are the history: what was ever added, and the calls that have returned.
\<close>

record 'a AsyncWorker =
  w_pc :: "'a thread_pc"
  w_data :: "'a list"
  w_thread_lock :: lock_owner
  w_stop_flag :: bool
  w_thread_work :: bool
  w_kill :: kill_pc
  w_added :: "'a list"
  w_called :: "'a list"

text \<open>A worker object before \<^verbatim>\<open>start\<close>; its two flags are not initialised.\<close>

definition new_worker :: "bool \<Rightarrow> bool \<Rightarrow> 'a AsyncWorker" where
  "new_worker flag work = \<lparr>w_pc = Not_started, w_data = [], w_thread_lock = Nobody, w_stop_flag = flag,
     w_thread_work = work, w_kill = Not_killed, w_added = [], w_called = []\<rparr>"

section \<open>The thread\<close>

text \<open>The next step of the thread; \<open>None\<close> if it is blocked, not started or finished.\<close>

fun thread_step :: "'a thread_pc \<Rightarrow> 'a AsyncWorker \<Rightarrow> 'a AsyncWorker option" where
  "thread_step Not_started w = None"
| "thread_step At_entry w =
     (if w_thread_lock w = Nobody
      then Some (w\<lparr>w_thread_lock := Thread, w_thread_work := True, w_pc := Test_empty\<rparr>) else None)"
| "thread_step Test_empty w = Some (w\<lparr>w_pc := if w_data w = [] then Enter_wait else Test_stop\<rparr>)"
| "thread_step Enter_wait w = Some (w\<lparr>w_thread_lock := Nobody, w_pc := Waiting\<rparr>)"
| "thread_step Waiting w = None"
| "thread_step Notified w =
     (if w_thread_lock w = Nobody then Some (w\<lparr>w_thread_lock := Thread, w_pc := Test_stop_inner\<rparr>) else None)"
| "thread_step Test_stop_inner w = Some (w\<lparr>w_pc := if w_stop_flag w then Test_stop else Test_empty\<rparr>)"
| "thread_step Test_stop w =
     Some (if w_stop_flag w then w\<lparr>w_thread_work := False, w_thread_lock := Nobody, w_pc := Finished\<rparr>
           else w\<lparr>w_pc := Popping\<rparr>)"
| "thread_step Popping w = (case w_data w of
       [] \<Rightarrow> None
     | d # rest \<Rightarrow> Some (w\<lparr>w_data := rest, w_pc := Calling d\<rparr>))"
| "thread_step (Calling d) w = Some (w\<lparr>w_called := w_called w @ [d], w_pc := Test_empty\<rparr>)"
| "thread_step Finished w = None"

definition worker_next :: "'a AsyncWorker \<Rightarrow> 'a AsyncWorker option" where
  "worker_next w = thread_step (w_pc w) w"

text \<open>The thread alone, for up to \<open>n\<close> steps.\<close>

fun worker_run :: "nat \<Rightarrow> 'a AsyncWorker \<Rightarrow> 'a AsyncWorker" where
  "worker_run 0 w = w"
| "worker_run (Suc n) w = (case worker_next w of None \<Rightarrow> w | Some w' \<Rightarrow> worker_run n w')"

section \<open>The clients\<close>

definition notify_one :: "'a AsyncWorker \<Rightarrow> 'a AsyncWorker" where
  "notify_one w = (if w_pc w = Waiting then w\<lparr>w_pc := Notified\<rparr> else w)"

definition worker_add :: "'a \<Rightarrow> 'a AsyncWorker \<Rightarrow> 'a AsyncWorker" where
  "worker_add d w = notify_one (w\<lparr>w_data := w_data w @ [d], w_added := w_added w @ [d]\<rparr>)"

definition worker_start :: "'a AsyncWorker \<Rightarrow> 'a AsyncWorker" where
  "worker_start w = w\<lparr>w_stop_flag := False, w_pc := At_entry\<rparr>"

definition isBusy :: "'a AsyncWorker \<Rightarrow> bool" where
  "isBusy w \<longleftrightarrow> w_data w \<noteq> []"

definition stoped :: "'a AsyncWorker \<Rightarrow> bool" where
  "stoped w \<longleftrightarrow> w_stop_flag w"

text \<open>\<open>None\<close>: the caller is blocked.\<close>

definition pause_work :: "'a AsyncWorker \<Rightarrow> 'a AsyncWorker option" where
  "pause_work w = (if w_thread_lock w = Nobody then Some (w\<lparr>w_thread_lock := Client\<rparr>) else None)"

definition continue_work :: "'a AsyncWorker \<Rightarrow> 'a AsyncWorker" where
  "continue_work w = w\<lparr>w_thread_lock := Nobody\<rparr>"

text \<open>The statements of \<^verbatim>\<open>kill\<close>, and \<^verbatim>\<open>stop\<close>, which waits for an empty queue before it.\<close>

fun kill_step :: "kill_pc \<Rightarrow> 'a AsyncWorker \<Rightarrow> 'a AsyncWorker option" where
  "kill_step Not_killed w = Some (w\<lparr>w_stop_flag := True, w_kill := Kill_loop\<rparr>)"
| "kill_step Kill_loop w = Some (if w_thread_work w then notify_one w else w\<lparr>w_kill := Kill_join\<rparr>)"
| "kill_step Kill_join w = (if w_pc w = Finished then Some (w\<lparr>w_kill := Killed\<rparr>) else None)"
| "kill_step Killed w = None"

definition worker_kill :: "'a AsyncWorker \<Rightarrow> 'a AsyncWorker option" where
  "worker_kill w = kill_step (w_kill w) w"

definition worker_stop :: "'a AsyncWorker \<Rightarrow> 'a AsyncWorker option" where
  "worker_stop w = (if stoped w then Some w else if isBusy w then None else worker_kill w)"

section \<open>The step relation\<close>

text \<open>
  \<open>quiet_step\<close> are the steps in which no client adds an element and no client stops the worker. A wait may also
  end without a notification, as the language allows; \<open>spurious\<close> steps are kept apart.
\<close>

inductive quiet_step :: "'a AsyncWorker \<Rightarrow> 'a AsyncWorker \<Rightarrow> bool" where
  thread: "worker_next w = Some w' \<Longrightarrow> quiet_step w w'"
| pause: "pause_work w = Some w' \<Longrightarrow> quiet_step w w'"
| continue: "w_thread_lock w = Client \<Longrightarrow> quiet_step w (continue_work w)"

inductive worker_step :: "'a AsyncWorker \<Rightarrow> 'a AsyncWorker \<Rightarrow> bool" where
  quiet: "quiet_step w w' \<Longrightarrow> worker_step w w'"
| start: "w_pc w = Not_started \<Longrightarrow> worker_step w (worker_start w)"
| add: "worker_step w (worker_add d w)"
| kill: "w_pc w \<noteq> Not_started \<Longrightarrow> worker_kill w = Some w' \<Longrightarrow> worker_step w w'"
| spurious: "w_pc w = Waiting \<Longrightarrow> worker_step w (w\<lparr>w_pc := Notified\<rparr>)"

inductive reachable :: "'a AsyncWorker \<Rightarrow> bool" where
  initial: "reachable (new_worker flag work)"
| step: "reachable w \<Longrightarrow> worker_step w w' \<Longrightarrow> reachable w'"

inductive_cases worker_stepE [elim]: "worker_step w w'"
inductive_cases quiet_stepE [elim]: "quiet_step w w'"

section \<open>The invariant\<close>

definition in_flight :: "'a AsyncWorker \<Rightarrow> 'a list" where
  "in_flight w = (case w_pc w of Calling d \<Rightarrow> [d] | _ \<Rightarrow> [])"

definition holds_lock :: "'a thread_pc \<Rightarrow> bool" where
  "holds_lock pc \<longleftrightarrow> (case pc of Not_started \<Rightarrow> False | At_entry \<Rightarrow> False | Waiting \<Rightarrow> False | Notified \<Rightarrow> False
     | Finished \<Rightarrow> False | _ \<Rightarrow> True)"

definition worker_inv :: "'a AsyncWorker \<Rightarrow> bool" where
  "worker_inv w \<longleftrightarrow>
     w_added w = w_called w @ in_flight w @ w_data w \<and>
     (w_thread_lock w = Thread \<longleftrightarrow> holds_lock (w_pc w)) \<and>
     (w_pc w = Test_stop \<longrightarrow> w_stop_flag w \<or> w_data w \<noteq> []) \<and>
     (w_pc w = Popping \<longrightarrow> w_data w \<noteq> []) \<and>
     (w_kill w \<noteq> Not_killed \<longrightarrow> w_stop_flag w \<and> w_pc w \<noteq> Not_started) \<and>
     (w_pc w \<notin> {Not_started, At_entry, Finished} \<longrightarrow> w_thread_work w) \<and>
     (w_pc w = Finished \<longrightarrow> \<not> w_thread_work w \<and> w_stop_flag w) \<and>
     (w_kill w = Killed \<longrightarrow> w_pc w = Finished)"

lemma worker_inv_new: "worker_inv (new_worker flag work)"
  by (simp add: worker_inv_def new_worker_def in_flight_def holds_lock_def)

lemma worker_inv_notify: "worker_inv w \<Longrightarrow> worker_inv (notify_one w)"
  by (auto simp: worker_inv_def notify_one_def in_flight_def holds_lock_def)

lemma worker_inv_next:
  assumes "worker_inv w" and "worker_next w = Some w'"
  shows "worker_inv w'"
  using assms
  by (cases "w_pc w")
    (auto simp: worker_inv_def worker_next_def in_flight_def holds_lock_def split: if_splits list.splits)

lemma worker_inv_add: "worker_inv w \<Longrightarrow> worker_inv (worker_add d w)"
  unfolding worker_add_def by (rule worker_inv_notify) (auto simp: worker_inv_def in_flight_def)

lemma worker_inv_kill:
  assumes "worker_inv w" and "w_pc w \<noteq> Not_started" and "worker_kill w = Some w'"
  shows "worker_inv w'"
proof (cases "w_kill w = Kill_loop \<and> w_thread_work w")
  case True
  then show ?thesis using worker_inv_notify [OF assms(1)] assms(3) by (simp add: worker_kill_def)
next
  case False
  then consider "w_kill w = Not_killed" "w' = w\<lparr>w_stop_flag := True, w_kill := Kill_loop\<rparr>"
    | "w_kill w = Kill_loop" "w' = w\<lparr>w_kill := Kill_join\<rparr>"
    | "w_kill w = Kill_join" "w_pc w = Finished" "w' = w\<lparr>w_kill := Killed\<rparr>"
    using assms(3) by (cases "w_kill w") (auto simp: worker_kill_def split: if_splits)
  then show ?thesis using assms(1,2) by cases (simp_all add: worker_inv_def in_flight_def)
qed

lemma worker_inv_pause:
  "worker_inv w \<Longrightarrow> pause_work w = Some w' \<Longrightarrow> worker_inv w'"
  "worker_inv w \<Longrightarrow> w_thread_lock w = Client \<Longrightarrow> worker_inv (continue_work w)"
  by (simp_all add: worker_inv_def pause_work_def continue_work_def in_flight_def split: if_splits) force+

lemma worker_inv_step: "worker_inv w \<Longrightarrow> worker_step w w' \<Longrightarrow> worker_inv w'"
proof (erule worker_stepE)
  assume inv: "worker_inv w"
  show "quiet_step w w' \<Longrightarrow> worker_inv w'"
    by (erule quiet_stepE) (auto intro: worker_inv_next [OF inv] worker_inv_pause [OF inv])
  show "w' = worker_start w \<Longrightarrow> w_pc w = Not_started \<Longrightarrow> worker_inv w'"
    using inv by (auto simp: worker_start_def worker_inv_def in_flight_def holds_lock_def)
  show "w' = w\<lparr>w_pc := Notified\<rparr> \<Longrightarrow> w_pc w = Waiting \<Longrightarrow> worker_inv w'"
    using worker_inv_notify [OF inv] by (simp add: notify_one_def)
qed (auto intro: worker_inv_add worker_inv_kill)

lemma reachable_inv: "reachable w \<Longrightarrow> worker_inv w"
  by (induction rule: reachable.induct) (auto intro: worker_inv_new worker_inv_step)

lemma reachable_quiet:
  assumes "quiet_step\<^sup>*\<^sup>* w w'" and "reachable w"
  shows "reachable w'"
  using assms by (induction rule: rtranclp_induct) (auto intro: reachable.step worker_step.quiet)

lemma reachable_add: "reachable w \<Longrightarrow> reachable (worker_add d w)"
  by (rule reachable.step [OF _ worker_step.add])

lemma reachable_next: "reachable w \<Longrightarrow> worker_next w = Some w' \<Longrightarrow> reachable w'"
  by (rule reachable.step [OF _ worker_step.quiet [OF quiet_step.thread]])

lemma reachable_run: "reachable w \<Longrightarrow> reachable (worker_run n w)"
  by (induction n arbitrary: w) (auto split: option.split dest: reachable_next)

lemma reachable_started: "reachable (worker_start (new_worker flag work))"
  by (rule reachable.step [OF reachable.initial worker_step.start]) (simp add: new_worker_def)

section \<open>Progress of the thread\<close>

text \<open>A thread that will serve the queue, and a bound on the steps it needs until it sleeps.\<close>

definition awake :: "'a AsyncWorker \<Rightarrow> bool" where
  "awake w \<longleftrightarrow> worker_inv w \<and> \<not> w_stop_flag w \<and> w_thread_lock w \<noteq> Client \<and> w_pc w \<noteq> Not_started \<and>
     (w_pc w = Enter_wait \<or> w_pc w = Waiting \<longrightarrow> w_data w = [])"

fun pc_cost :: "'a thread_pc \<Rightarrow> nat" where
  "pc_cost Enter_wait = 1"
| "pc_cost Test_empty = 2"
| "pc_cost Test_stop_inner = 3"
| "pc_cost Notified = 4"
| "pc_cost At_entry = 3"
| "pc_cost (Calling d) = 3"
| "pc_cost Test_stop = 1"
| "pc_cost _ = 0"

definition steps_left :: "'a AsyncWorker \<Rightarrow> nat" where
  "steps_left w = 4 * length (w_data w) + pc_cost (w_pc w)"

lemma awake_lock: "awake w \<Longrightarrow> \<not> holds_lock (w_pc w) \<Longrightarrow> w_thread_lock w = Nobody"
  by (cases "w_thread_lock w") (auto simp: awake_def worker_inv_def)

lemma awake_step:
  assumes "awake w" and "w_pc w \<noteq> Waiting"
  obtains w' where "worker_next w = Some w'" "awake w'" "steps_left w' < steps_left w" "w_added w' = w_added w"
proof -
  have inv: "worker_inv w" using assms(1) by (simp add: awake_def)
  have "\<exists>w'. worker_next w = Some w' \<and> \<not> w_stop_flag w' \<and> w_thread_lock w' \<noteq> Client \<and> w_pc w' \<noteq> Not_started \<and>
      (w_pc w' = Enter_wait \<or> w_pc w' = Waiting \<longrightarrow> w_data w' = []) \<and> steps_left w' < steps_left w \<and>
      w_added w' = w_added w"
    using assms awake_lock [OF assms(1)] inv
    by (cases "w_pc w")
      (auto simp: awake_def worker_next_def steps_left_def worker_inv_def holds_lock_def neq_Nil_conv)
  then show ?thesis using that worker_inv_next [OF inv] by (auto simp: awake_def)
qed

lemma awake_run:
  "awake w \<Longrightarrow> steps_left w \<le> n \<Longrightarrow>
   w_pc (worker_run n w) = Waiting \<and> awake (worker_run n w) \<and> w_added (worker_run n w) = w_added w"
proof (induction n arbitrary: w)
  case 0
  then show ?case by (cases "w_pc w = Waiting") (auto elim: awake_step)
next
  case (Suc n)
  show ?case
  proof (cases "w_pc w = Waiting")
    case True
    then show ?thesis using Suc.prems(1) by (simp add: worker_next_def)
  next
    case False
    from awake_step [OF Suc.prems(1) this] obtain w' where
      w': "worker_next w = Some w'" "awake w'" "steps_left w' < steps_left w" "w_added w' = w_added w" by blast
    then show ?thesis using Suc.IH [of w'] Suc.prems(2) by simp
  qed
qed

lemma awake_asleep: "awake w \<Longrightarrow> w_pc w = Waiting \<Longrightarrow> w_data w = [] \<and> w_called w = w_added w"
  by (simp add: awake_def worker_inv_def in_flight_def)

text \<open>A thread that is awake gets through its work however its steps are spread over the looks at it.\<close>

lemma awake_progress:
  "awake w \<Longrightarrow> awake (worker_run k w) \<and> steps_left (worker_run k w) \<le> steps_left w - k"
proof (induction k arbitrary: w)
  case (Suc k)
  show ?case
  proof (cases "w_pc w = Waiting")
    case True
    then show ?thesis using Suc.prems by (auto simp: worker_next_def steps_left_def awake_def)
  next
    case False
    from awake_step [OF Suc.prems False] obtain w' where
      "worker_next w = Some w'" "awake w'" "steps_left w' < steps_left w" by blast
    then show ?thesis using Suc.IH [of w'] by auto
  qed
qed simp

lemma awake_done: "awake w \<Longrightarrow> steps_left w = 0 \<Longrightarrow> w_pc w = Waiting"
  by (cases "w_pc w") (auto simp: awake_def steps_left_def worker_inv_def)

lemma awake_add:
  assumes "awake w" and "w_pc w \<noteq> Enter_wait"
  shows "awake (worker_add a w)" "steps_left (worker_add a w) \<le> steps_left w + 8"
proof -
  have "w_pc (worker_add a w) \<noteq> Waiting" "w_pc (worker_add a w) \<noteq> Enter_wait" "w_pc (worker_add a w) \<noteq> Not_started"
    using assms by (auto simp: worker_add_def notify_one_def awake_def)
  moreover have "worker_inv (worker_add a w)" using assms(1) by (simp add: awake_def worker_inv_add)
  ultimately show "awake (worker_add a w)" using assms(1) by (simp add: awake_def) (simp add: worker_add_def notify_one_def)
  show "steps_left (worker_add a w) \<le> steps_left w + 8" by (simp add: steps_left_def worker_add_def notify_one_def)
qed

text \<open>A thread at rest: before its first statement or asleep, with nothing to do. Eleven steps bring it back to rest after an element was added.\<close>

definition rested :: "'a AsyncWorker \<Rightarrow> bool" where
  "rested w \<longleftrightarrow> awake w \<and> w_pc w \<in> {At_entry, Waiting} \<and> w_data w = []"

lemma restedD:
  assumes "rested w"
  shows "awake w" "w_pc w \<noteq> Enter_wait" "w_data w = []" "in_flight w = []" "steps_left w \<le> 3"
  using assms by (auto simp: rested_def in_flight_def steps_left_def)

lemma rested_run:
  assumes "awake w" and "steps_left w \<le> q"
  shows "rested (worker_run q w)" "w_pc (worker_run q w) = Waiting"
  using awake_run [OF assms] awake_asleep [of "worker_run q w"] by (auto simp: rested_def)

lemma rested_add_run:
  assumes "rested w" and "11 \<le> q"
  shows "rested (worker_run q (worker_add a w))"
  using awake_add [OF restedD(1,2) [OF assms(1)], of a] restedD(5) [OF assms(1)] assms(2)
  by (intro rested_run(1)) auto

section \<open>Properties\<close>

text \<open>
  C11. Every interleaving of the thread with its clients keeps the queue discipline: the elements added so far are, in this
  order, those whose calls have returned, the one whose call is running, and those that wait; none is
  lost, repeated or overtaken. The thread holds its lock exactly in the statements between its waits, and
  once \<open>kill\<close> has returned no call is running.
\<close>

theorem worker_fifo:
  assumes "reachable w"
  shows "w_added w = w_called w @ in_flight w @ w_data w \<and>
    (w_thread_lock w = Thread \<longleftrightarrow> holds_lock (w_pc w)) \<and> (w_kill w = Killed \<longrightarrow> in_flight w = [])"
  using reachable_inv [OF assms] by (auto simp: worker_inv_def in_flight_def)

text \<open>A started worker after two steps of its thread: it has found the queue empty and is about to wait.\<close>

definition about_to_wait :: "nat AsyncWorker" where
  "about_to_wait = worker_run 2 (worker_start (new_worker False False))"

lemma about_to_wait: "reachable about_to_wait" "w_pc about_to_wait = Enter_wait" "w_called about_to_wait = []"
proof -
  show "reachable about_to_wait" unfolding about_to_wait_def
    by (intro reachable_run reachable_started)
  show "w_pc about_to_wait = Enter_wait" "w_called about_to_wait = []"
    by (simp_all add: about_to_wait_def new_worker_def worker_start_def worker_next_def numeral_2_eq_2)
qed

theorem worker_fifo_witness:
  "w_added (worker_run 7 (worker_add 5 (worker_start (new_worker False False)))) = [5 :: nat]"
proof -
  have "reachable (worker_run 7 (worker_add 5 (worker_start (new_worker False False))) :: nat AsyncWorker)"
    by (intro reachable_run reachable_add reachable_started)
  from worker_fifo [OF this] show ?thesis
    by (simp add: worker_add_def worker_start_def new_worker_def notify_one_def eval_nat_numeral worker_next_def in_flight_def)
qed



text \<open>
  C24. The thread makes progress on its own: from any state in which it is neither asleep nor about to fall
  asleep, with no client holding the lock and no stop requested, at most four steps per waiting element and four more
  take it to its wait with an empty queue and every element added processed.
\<close>

theorem worker_drains:
  assumes "reachable w" and "\<not> w_stop_flag w" and "w_thread_lock w \<noteq> Client"
    and "w_pc w \<notin> {Not_started, Enter_wait, Waiting}" and "4 * length (w_data w) + 4 \<le> n"
  shows "w_pc (worker_run n w) = Waiting \<and> w_data (worker_run n w) = [] \<and> w_called (worker_run n w) = w_added w"
proof -
  have "awake w" using reachable_inv [OF assms(1)] assms(2-4) by (simp add: awake_def)
  moreover have "steps_left w \<le> n" using assms(5) by (cases "w_pc w") (auto simp: steps_left_def)
  ultimately have "w_pc (worker_run n w) = Waiting" "awake (worker_run n w)" "w_added (worker_run n w) = w_added w"
    using awake_run by auto
  then show ?thesis using awake_asleep [of "worker_run n w"] by simp
qed

theorem worker_drains_witness:
  "w_called (worker_run 12 (worker_add 6 (worker_add 5 (worker_start (new_worker False False))))) = [5, 6 :: nat]"
proof -
  let ?w = "worker_add 6 (worker_add 5 (worker_start (new_worker False False))) :: nat AsyncWorker"
  have "reachable ?w" by (intro reachable_add reachable_started)
  from worker_drains [OF this, of 12] show ?thesis
    by (simp add: worker_add_def worker_start_def new_worker_def notify_one_def del: worker_run.simps)
qed

text \<open>
  C25. The lost wake-up: an element that is added after the thread has found the queue empty and before it waits
  is not noticed. Whatever the thread and pausing clients do from then on, the worker stays busy and no
  further call returns, so that waiting for the worker to become idle does not end.
\<close>

theorem lost_wakeup:
  assumes "reachable w" and "w_pc w = Enter_wait" and "quiet_step\<^sup>*\<^sup>* (worker_add d w) w'"
  shows "isBusy w' \<and> w_called w' = w_called w \<and> d \<in> set (w_data w')"
proof -
  from assms(3) have "(w_pc w' = Enter_wait \<or> w_pc w' = Waiting) \<and> w_data w' = w_data w @ [d] \<and> w_called w' = w_called w"
  proof (induction rule: rtranclp_induct)
    case base
    then show ?case using assms(2) by (simp add: worker_add_def notify_one_def)
  next
    case (step y z)
    then show ?case
      by (auto elim!: quiet_stepE simp: worker_next_def pause_work_def continue_work_def split: if_splits)
  qed
  then show ?thesis by (simp add: isBusy_def)
qed

theorem lost_wakeup_witness:
  "reachable about_to_wait \<and> isBusy (worker_run 100 (worker_add 5 about_to_wait))"
proof -
  have run: "quiet_step\<^sup>*\<^sup>* w (worker_run n w)" for n and w :: "nat AsyncWorker"
    by (induction n arbitrary: w)
      (auto intro: converse_rtranclp_into_rtranclp quiet_step.thread split: option.split)
  show ?thesis using lost_wakeup [OF about_to_wait(1,2) run] about_to_wait(1) by blast
qed



end
