(* ===== verification/Storage.thy ===== *)
theory Storage
  imports Utils Async_Writer Async_Worker
begin

text \<open>
  The write side of the storage: \<^verbatim>\<open>include/storage.h\<close> and \<^verbatim>\<open>libnkvdb/storage.cpp\<close> up to the queries. A storage
  fills one cache at a time, hands full caches over to the writer thread through its queue, and waits for that thread in
  the places where the code spins. Every wait is a list of numbers: how many steps the thread makes before
  each look at the shared state. The loops end when what they wait for holds; a list that is too
  short leaves them waiting, which is the value \<open>No_fuel\<close>.
\<close>

section \<open>State\<close>

text \<open>
  What the storage takes from its environment: two uses of \<^verbatim>\<open>std::sort\<close> and the clock for page names.
\<close>

record env =
  e_sort :: "meas list \<Rightarrow> meas list"
  e_sort_pages :: "PageInfo list \<Rightarrow> PageInfo list"
  e_time :: "nat \<Rightarrow> nat \<Rightarrow> nat"

text \<open>\<open>st_sched\<close> are the decisions of the scheduler still to come; the mutex of the storage makes its operations atomic.\<close>

record storage =
  st_path :: string
  st_heap :: cheap
  st_cache :: "nat option"
  st_writer :: "nat AsyncWorker"
  st_pool :: CachePool
  st_cur_values :: cur_values
  st_past_time :: Time
  st_closed :: bool
  st_world :: world
  st_sched :: "nat list"

section \<open>The writer thread inside the storage\<close>

text \<open>A step of the thread; the step that finishes a call has the effect of the call.\<close>

definition writer_step :: "env \<Rightarrow> storage \<Rightarrow> storage option result" where
  "writer_step env st = (case worker_next (st_writer st) of
     None \<Rightarrow> Inr None
   | Some w' \<Rightarrow> (case w_pc (st_writer st) of
       Calling a \<Rightarrow> bind_r (AsyncWriter_call (e_sort env) (e_time env) (st_heap st ! a) (st_world st)) (\<lambda>(wd, c).
         Inr (Some (st\<lparr>st_world := wd, st_heap := (st_heap st)[a := c], st_writer := w'\<rparr>)))
     | _ \<Rightarrow> Inr (Some (st\<lparr>st_writer := w'\<rparr>))))"

fun writer_run :: "env \<Rightarrow> nat \<Rightarrow> storage \<Rightarrow> storage result" where
  "writer_run env 0 st = Inr st"
| "writer_run env (Suc k) st = bind_r (writer_step env st) (\<lambda>r. case r of None \<Rightarrow> Inr st | Some st' \<Rightarrow> writer_run env k st')"

text \<open>Waiting for a condition on the worker, with the effect \<open>act\<close> once it holds.\<close>

fun wait_for :: "env \<Rightarrow> (storage \<Rightarrow> storage option) \<Rightarrow> nat list \<Rightarrow> storage \<Rightarrow> storage result" where
  "wait_for env act [] st = Inl No_fuel"
| "wait_for env act (k # ks) st = bind_r (writer_run env k (st\<lparr>st_sched := ks\<rparr>)) (\<lambda>st1.
     case act st1 of Some st2 \<Rightarrow> Inr st2 | None \<Rightarrow> wait_for env act ks st1)"

section \<open>Handing a cache over\<close>

text \<open>The spinning loop at the end of \<^verbatim>\<open>writeCache\<close>; two levels of recursion are enough for \<^verbatim>\<open>getCache\<close>.\<close>

fun wait_cache :: "env \<Rightarrow> nat list \<Rightarrow> storage \<Rightarrow> storage result" where
  "wait_cache env [] st = Inl No_fuel"
| "wait_cache env (k # ks) st = bind_r (writer_run env k (st\<lparr>st_sched := ks\<rparr>)) (\<lambda>st1.
     bind_r (getCache (Suc (Suc 0)) (st_heap st1) (st_pool st1)) (\<lambda>(h, cp, r).
       let st2 = st1\<lparr>st_heap := h, st_pool := cp\<rparr>
       in case r of
         Some a \<Rightarrow> Inr (st2\<lparr>st_cache := Some a, st_heap := h[a := cache_setStorage (h ! a)]\<rparr>)
       | None \<Rightarrow> wait_cache env ks st2))"

definition writeCache :: "env \<Rightarrow> storage \<Rightarrow> storage result" where
  "writeCache env st = (case st_cache st of
     None \<Rightarrow> Inl Undefined
   | Some a \<Rightarrow>
       if c_size (st_heap st ! a) = 0 then Inr st
       else wait_cache env (st_sched st) (st\<lparr>st_heap := (st_heap st)[a := sync_begin (st_heap st ! a)],
              st_writer := worker_add a (st_writer st), st_cache := None\<rparr>))"

section \<open>Appending\<close>

text \<open>\<open>clock k\<close> is the clock at the \<open>k\<close>-th attempt, or at element \<open>k\<close> of an array.\<close>

fun append_one_loop :: "nat \<Rightarrow> env \<Rightarrow> (nat \<Rightarrow> Time) \<Rightarrow> nat \<Rightarrow> meas \<Rightarrow> storage \<Rightarrow> (storage \<times> append_result) result" where
  "append_one_loop 0 env clock k m st = Inl No_fuel"
| "append_one_loop (Suc fuel) env clock k m st = (case st_cache st of
     None \<Rightarrow> Inl Undefined
   | Some a \<Rightarrow> bind_r (cache_append (clock k) (st_heap st ! a) m (st_past_time st)) (\<lambda>(c, res).
       let st1 = st\<lparr>st_heap := (st_heap st)[a := c]\<rparr>
       in if writed res = 0
          then bind_r (writeCache env st1) (\<lambda>st2. append_one_loop fuel env clock (k + 1) m st2)
          else Inr (st1, res)))"

definition storage_append :: "nat \<Rightarrow> env \<Rightarrow> (nat \<Rightarrow> Time) \<Rightarrow> storage \<Rightarrow> meas \<Rightarrow> (storage \<times> append_result) result" where
  "storage_append fuel env clock st m = append_one_loop fuel env clock 0 m st"

fun append_loop :: "nat \<Rightarrow> env \<Rightarrow> (nat \<Rightarrow> Time) \<Rightarrow> meas list \<Rightarrow> nat \<Rightarrow> append_result \<Rightarrow> storage \<Rightarrow>
    (storage \<times> append_result) result" where
  "append_loop fuel env clock begin to_write result st =
     (if to_write = 0 then Inr (st, result)
      else case fuel of
        0 \<Rightarrow> Inl No_fuel
      | Suc fuel' \<Rightarrow> (case st_cache st of
          None \<Rightarrow> Inl Undefined
        | Some a \<Rightarrow>
            let done = length begin - to_write
            in bind_r (cache_append_many (\<lambda>i. clock (done + i)) (st_heap st ! a) (st_cur_values st) (drop done begin)
                   (st_past_time st)) (\<lambda>(c, cur, wrt_res).
               let st1 = st\<lparr>st_heap := (st_heap st)[a := c], st_cur_values := cur\<rparr>
               in bind_r (if writed wrt_res \<noteq> to_write then writeCache env st1 else Inr st1) (\<lambda>st2.
                    append_loop fuel' env clock begin (to_write - writed wrt_res) (add_result result wrt_res) st2))))"

declare append_loop.simps [simp del]

definition storage_append_many :: "nat \<Rightarrow> env \<Rightarrow> (nat \<Rightarrow> Time) \<Rightarrow> storage \<Rightarrow> meas list \<Rightarrow> (storage \<times> append_result) result" where
  "storage_append_many fuel env clock st begin = (case st_cache st of
     None \<Rightarrow> Inl Undefined
   | Some a \<Rightarrow> bind_r (if cache_isFull (st_heap st ! a) then writeCache env st else Inr st) (\<lambda>st1.
       append_loop fuel env clock begin (length begin) empty_result st1))"

section \<open>Flushing, pausing, stopping\<close>

text \<open>The loop that waits until the worker is not busy.\<close>

definition idle :: "storage \<Rightarrow> storage option" where
  "idle st = (if \<not> isBusy (st_writer st) then Some st else None)"

definition flush_and_stop :: "env \<Rightarrow> storage \<Rightarrow> storage result" where
  "flush_and_stop env st = bind_r (writeCache env st) (\<lambda>st1. wait_for env idle (st_sched st1) st1)"

text \<open>\<^verbatim>\<open>pause_work\<close> and \<^verbatim>\<open>continue_work\<close> of the writer; the first one blocks on the lock of the thread.\<close>

definition try_pause :: "storage \<Rightarrow> storage option" where
  "try_pause st = map_option (\<lambda>w. st\<lparr>st_writer := w\<rparr>) (pause_work (st_writer st))"

definition storage_pause :: "env \<Rightarrow> storage \<Rightarrow> storage result" where
  "storage_pause env st = wait_for env try_pause (st_sched st) st"

definition storage_continue :: "storage \<Rightarrow> storage" where
  "storage_continue st = st\<lparr>st_writer := continue_work (st_writer st)\<rparr>"

text \<open>The steps of \<^verbatim>\<open>kill\<close>, one before each decision of the scheduler, until the thread has been joined.\<close>

fun storage_kill :: "env \<Rightarrow> nat list \<Rightarrow> storage \<Rightarrow> storage result" where
  "storage_kill env [] st = Inl No_fuel"
| "storage_kill env (k # ks) st = bind_r (writer_run env k (st\<lparr>st_sched := ks\<rparr>)) (\<lambda>st1.
     if w_kill (st_writer st1) = Killed then Inr st1
     else storage_kill env ks
       (case worker_kill (st_writer st1) of None \<Rightarrow> st1 | Some w \<Rightarrow> st1\<lparr>st_writer := w\<rparr>))"

definition storage_stop :: "env \<Rightarrow> storage \<Rightarrow> storage result" where
  "storage_stop env st =
     (if stoped (st_writer st) then Inr st
      else bind_r (wait_for env idle (st_sched st) st) (\<lambda>st1. storage_kill env (st_sched st1) st1))"

definition storage_Close :: "env \<Rightarrow> storage \<Rightarrow> storage result" where
  "storage_Close env st =
     bind_r (if \<not> stoped (st_writer st) then bind_r (writeCache env st) (storage_stop env) else Inr st) (\<lambda>st1.
     bind_r (closeCurrentPage (st_world st1)) (\<lambda>wd.
       Inr (st1\<lparr>st_world := pm_stop wd, st_closed := True\<rparr>)))"

text \<open>The destructor.\<close>

definition storage_destroy :: "env \<Rightarrow> storage \<Rightarrow> storage result" where
  "storage_destroy env st = (if \<not> st_closed st then storage_Close env st else Inr st)"

section \<open>Creating and opening\<close>

definition defaultcacheSize :: nat where
  "defaultcacheSize = 10000"

definition defaultcachePoolSize :: nat where
  "defaultcachePoolSize = 100"

definition defaultPageSize :: nat where
  "defaultPageSize = sizeof_Header + sizeof_Meas * 1000000"

text \<open>The constructor; \<open>flag\<close> and \<open>work\<close> are what the flags of the worker happen to hold.\<close>

definition new_Storage :: "bool \<Rightarrow> bool \<Rightarrow> nat list \<Rightarrow> world \<Rightarrow> storage result" where
  "new_Storage flag work sched wd =
     (let (h, cp) = new_CachePool [] defaultcachePoolSize defaultcacheSize
      in bind_r (getCache (Suc (Suc 0)) h cp) (\<lambda>(h1, cp1, r). case r of
           None \<Rightarrow> Inl Undefined
         | Some a \<Rightarrow> Inr \<lparr>st_path = [], st_heap = h1[a := cache_setStorage (h1 ! a)], st_cache = Some a,
             st_writer = worker_start (new_worker flag work), st_pool = cp1, st_cur_values = (\<lambda>_. None), st_past_time = 0,
             st_closed = False, st_world = wd, st_sched = sched\<rparr>))"

text \<open>\<open>exists\<close>: whether the directory exists; \<open>removed\<close> is what \<open>utils_rm\<close> yields for it.\<close>

definition storage_Create :: "bool \<Rightarrow> bool result \<Rightarrow> (nat \<Rightarrow> nat) \<Rightarrow> bool \<Rightarrow> bool \<Rightarrow> nat list \<Rightarrow> world \<Rightarrow> string \<Rightarrow> nat \<Rightarrow>
    storage result" where
  "storage_Create exists removed time flag work sched wd ds_path psize =
     bind_r (new_Storage flag work sched wd) (\<lambda>st.
     bind_r (if exists then removed else Inr True) (\<lambda>ok.
       if \<not> ok then Inl (Exception (''can`t create. remove error: '' @ ds_path))
       else bind_r (pm_start ds_path (wd\<lparr>wd_disk := \<lparr>d_files = [], d_left = \<lambda>_. (None, None)\<rparr>\<rparr>)) (\<lambda>wd1.
            bind_r (pm_get wd1) (\<lambda>pm.
            bind_r (createNewPage time (pm_set wd1 (pm\<lparr>pm_default_page_size := psize\<rparr>))) (\<lambda>wd2.
              Inr (st\<lparr>st_path := ds_path, st_world := wd2\<rparr>))))))"

definition storage_Open :: "bool \<Rightarrow> bool \<Rightarrow> bool \<Rightarrow> nat list \<Rightarrow> world \<Rightarrow> string \<Rightarrow> storage result" where
  "storage_Open exists flag work sched wd ds_path =
     bind_r (new_Storage flag work sched wd) (\<lambda>st.
       if \<not> exists then Inl (Exception (ds_path @ '' not exists.''))
       else bind_r (pm_start ds_path wd) (\<lambda>wd1.
            bind_r (getOldesPage wd1) (\<lambda>(wd2, maxTimePage).
            bind_r (pm_open maxTimePage False wd2) (\<lambda>wd3.
              Inr (st\<lparr>st_path := ds_path, st_world := wd3\<rparr>)))))"

section \<open>Settings and values\<close>

definition havePage2Write :: "storage \<Rightarrow> bool result" where
  "havePage2Write st = bind_r (getCurPage (st_world st)) (\<lambda>cur. case cur of
     None \<Rightarrow> Inr False
   | Some (name, pg) \<Rightarrow> bind_r (page_view (wd_disk (st_world st)) name pg) (\<lambda>pg1. Inr (\<not> page_isFull pg1)))"

definition storage_setPastTime :: "storage \<Rightarrow> Time \<Rightarrow> storage" where
  "storage_setPastTime st t = st\<lparr>st_past_time := t\<rparr>"

definition storage_enableCacheDynamicSize :: "storage \<Rightarrow> bool \<Rightarrow> storage" where
  "storage_enableCacheDynamicSize st flg = st\<lparr>st_pool := enableDynamicSize (st_pool st) flg\<rparr>"

definition storage_setPoolSize :: "storage \<Rightarrow> nat \<Rightarrow> storage" where
  "storage_setPoolSize st sz = (let (h, cp) = setPoolSize (st_heap st) (st_pool st) sz in st\<lparr>st_heap := h, st_pool := cp\<rparr>)"

definition storage_setCacheSize :: "storage \<Rightarrow> nat \<Rightarrow> storage" where
  "storage_setCacheSize st sz = (let (h, cp) = setCacheSize (st_heap st) (st_pool st) sz in st\<lparr>st_heap := h, st_pool := cp\<rparr>)"

definition storage_pastTime :: "storage \<Rightarrow> Time" where
  "storage_pastTime st = st_past_time st"

definition storage_cacheDynamicSize :: "storage \<Rightarrow> bool" where
  "storage_cacheDynamicSize st = cp_dynamic_size (st_pool st)"

definition storage_getPoolSize :: "storage \<Rightarrow> nat" where
  "storage_getPoolSize st = cp_pool_size (st_pool st)"

definition storage_getCacheSize :: "storage \<Rightarrow> nat" where
  "storage_getCacheSize st = cp_cache_size (st_pool st)"

lemma settings_read_back:
  "storage_pastTime (storage_setPastTime st t) = t"
  "storage_cacheDynamicSize (storage_enableCacheDynamicSize st flg) = flg"
  "storage_getPoolSize (storage_setPoolSize st sz) = sz" "storage_getCacheSize (storage_setCacheSize st sz) = sz"
  by (simp_all add: storage_pastTime_def storage_setPastTime_def storage_cacheDynamicSize_def storage_enableCacheDynamicSize_def
      enableDynamicSize_def storage_getPoolSize_def storage_setPoolSize_def setPoolSize_def init_pool_def Let_def
      storage_getCacheSize_def storage_setCacheSize_def setCacheSize_def)

definition curValues :: "env \<Rightarrow> storage \<Rightarrow> Id list \<Rightarrow> (storage \<times> meas list) result" where
  "curValues env st ids = bind_r (writeCache env st) (\<lambda>st1.
     bind_r (wait_for env idle (st_sched st1) st1) (\<lambda>st2. Inr (st2, readCurValue (st_cur_values st2) ids)))"

text \<open>The end of a page object that was opened for reading: \<^verbatim>\<open>readComplete\<close>, then the destructor, which closes what is still open.\<close>

definition page_release :: "page \<Rightarrow> page result" where
  "page_release pg = bind_r (readComplete pg) page_close"

text \<open>The ids that were not found come from a \<^verbatim>\<open>std::set\<close>, in ascending order.\<close>

definition loadCurValues :: "env \<Rightarrow> storage \<Rightarrow> Id list \<Rightarrow> (storage \<times> Id list) result" where
  "loadCurValues env st ids =
     bind_r (pagesByTime (e_sort_pages env) (st_world st)) (\<lambda>(wd, pages).
       case filter (\<lambda>p. \<exists>i \<in> set ids. bloom_check (h_id_fltr (pi_header p)) i) pages of
         [] \<Rightarrow> Inl Undefined
       | p # _ \<Rightarrow>
           bind_r (page_Open (disk_get (wd_disk wd) (pi_name p)) True) (\<lambda>pg.
             let ww = getWriteWindow pg;
                 cur = foldl writeValue (st_cur_values st) ww;
                 id_set = foldl (\<lambda>s m. s - {m_id m}) (set ids) ww
             in bind_r (page_release pg) (\<lambda>pg'.
                  Inr (st\<lparr>st_cur_values := cur, st_world := wd\<lparr>wd_disk := disk_put (wd_disk wd) (pi_name p) (page_disk pg')\<rparr>\<rparr>,
                       sorted_list_of_set id_set))))"

section \<open>Times\<close>

definition paused_pages :: "env \<Rightarrow> storage \<Rightarrow> (storage \<times> PageInfo list) result" where
  "paused_pages env st =
     bind_r (flush_and_stop env st) (\<lambda>st1.
     bind_r (storage_pause env st1) (\<lambda>st2.
     bind_r (pagesByTime (e_sort_pages env) (st_world st2)) (\<lambda>(wd, pages).
       Inr (st2\<lparr>st_world := wd\<rparr>, pages))))"

definition storage_minTime :: "env \<Rightarrow> storage \<Rightarrow> (storage \<times> Time) result" where
  "storage_minTime env st = bind_r (paused_pages env st) (\<lambda>(st1, pages).
     if pages = [] then Inl Undefined else Inr (storage_continue st1, h_minTime (pi_header (last pages))))"

definition storage_maxTime :: "env \<Rightarrow> storage \<Rightarrow> (storage \<times> Time) result" where
  "storage_maxTime env st = bind_r (paused_pages env st) (\<lambda>(st1, pages).
     if pages = [] then Inl Undefined else Inr (storage_continue st1, h_maxTime (pi_header (hd pages))))"

end
