(* ===== verification/Storage_Correct.thy ===== *)
theory Storage_Correct
  imports Storage
begin

text \<open>
  The write side of the storage is correct: whatever the scheduler does, no measurement that a storage has
  accepted is lost or stored twice. The measurements are on the pages, in caches handed over to the writer thread, or in the
  current cache; the thread only moves them, and appending only adds to them.
\<close>

section \<open>Where the measurements are\<close>

text \<open>The caches handed over: the one being written and those in the queue.\<close>

definition served :: "'a AsyncWorker \<Rightarrow> 'a list" where
  "served w = in_flight w @ w_data w"

definition pending :: "storage \<Rightarrow> meas list" where
  "pending st = concat (map (\<lambda>b. cache_held (st_heap st ! b)) (served (st_writer st)))"

definition cur_held :: "storage \<Rightarrow> meas list" where
  "cur_held st = (case st_cache st of None \<Rightarrow> [] | Some a \<Rightarrow> cache_held (st_heap st ! a))"

definition st_total :: "storage \<Rightarrow> meas multiset" where
  "st_total st = mset (disk_log (wd_disk (st_world st))) + mset (map meas_stored (pending st @ cur_held st))"

section \<open>The invariant\<close>

definition heap_inv :: "storage \<Rightarrow> bool" where
  "heap_inv st \<longleftrightarrow> (let h = st_heap st; sv = served (st_writer st) in
     worker_inv (st_writer st) \<and> pool_inv h (st_pool st) \<and> \<not> cp_dynamic_size (st_pool st) \<and>
     (\<forall>b < length h. cache_inv (h ! b) \<and> 0 < c_max_size (h ! b)) \<and>
     distinct sv \<and> set sv \<subseteq> {..<length h} \<and> (\<forall>b < length h. c_sync (h ! b) \<longleftrightarrow> b \<in> set sv) \<and>
     (\<forall>b \<in> set sv. c_size (h ! b) \<noteq> 0) \<and>
     (\<forall>b \<in> set (cp_caches (st_pool st)). \<not> c_sync (h ! b) \<longrightarrow> st_cache st \<noteq> Some b \<longrightarrow> cache_held (h ! b) = []) \<and>
     (\<forall>a. st_cache st = Some a \<longrightarrow> a < length h \<and> \<not> c_sync (h ! a) \<and> c_attached (h ! a)) \<and>
     cp_recalc_period (st_pool st) - int (length (st_sched st)) > - (2 ^ 31))"

text \<open>The index records that writing a cache needs at most.\<close>

definition cost :: "Cache \<Rightarrow> nat" where
  "cost c = Suc (c_size c div 100)"

definition budget :: "storage \<Rightarrow> meas list \<Rightarrow> nat" where
  "budget st extra = sum_list (map (\<lambda>b. cost (st_heap st ! b)) (served (st_writer st))) + length (cur_held st @ extra)"

text \<open>
  The data: everything that still has to be written, \<open>extra\<close> included, has 8-byte values and times that are
  pairwise different and new to the index of the current page, and this page as well as a new one has room for the index records.
\<close>

definition data_inv :: "nat \<Rightarrow> storage \<Rightarrow> meas list \<Rightarrow> bool" where
  "data_inv n st extra \<longleftrightarrow> (let all = pending st @ cur_held st @ extra in
     1500 \<le> n \<and> n < 2 ^ 50 \<and> (\<forall>m \<in> set all. meas8 m) \<and> distinct (map m_time all) \<and> length all < indexCacheSize \<and>
     length (d_files (wd_disk (st_world st))) + 2 * length all + 2 < 2 ^ 32 \<and> budget st extra \<le> new_room n \<and>
     (\<exists>pm name pg. writer_ok n (st_world st) pm name pg \<and> budget st extra \<le> index_room (pg_index pg) \<and>
        m_time ` set all \<inter> r_minTime ` records (pg_index pg) = {}))"

definition st_inv :: "nat \<Rightarrow> storage \<Rightarrow> meas list \<Rightarrow> bool" where
  "st_inv n st extra \<longleftrightarrow> heap_inv st \<and> data_inv n st extra"

text \<open>Fields that do not matter for what the storage holds.\<close>

lemma cur_held_upd [simp]:
  "cur_held (st\<lparr>st_sched := ks\<rparr>) = cur_held st" "cur_held (st\<lparr>st_pool := cp\<rparr>) = cur_held st"
  "cur_held (st\<lparr>st_cur_values := cv\<rparr>) = cur_held st" "cur_held (st\<lparr>st_writer := w\<rparr>) = cur_held st"
  by (simp_all add: cur_held_def split: option.split)

lemma pending_upd [simp]:
  "pending (st\<lparr>st_sched := ks\<rparr>) = pending st" "pending (st\<lparr>st_pool := cp\<rparr>) = pending st"
  "pending (st\<lparr>st_cur_values := cv\<rparr>) = pending st" "pending (st\<lparr>st_cache := c\<rparr>) = pending st"
  by (simp_all add: pending_def)

lemma budget_upd [simp]:
  "budget (st\<lparr>st_sched := ks\<rparr>) extra = budget st extra" "budget (st\<lparr>st_pool := cp\<rparr>) extra = budget st extra"
  "budget (st\<lparr>st_cur_values := cv\<rparr>) extra = budget st extra"
  by (simp_all add: budget_def)

lemma data_inv_upd [simp]:
  "data_inv n (st\<lparr>st_sched := ks\<rparr>) extra = data_inv n st extra" "data_inv n (st\<lparr>st_pool := cp\<rparr>) extra = data_inv n st extra"
  "data_inv n (st\<lparr>st_cur_values := cv\<rparr>) extra = data_inv n st extra"
  by (simp_all add: data_inv_def)

lemma total_upd [simp]:
  "st_total (st\<lparr>st_sched := ks\<rparr>) = st_total st" "st_total (st\<lparr>st_pool := cp\<rparr>) = st_total st" "st_total (st\<lparr>st_cur_values := cv\<rparr>) = st_total st"
  by (simp_all add: st_total_def)

lemma writer_upd:
  assumes "served w' = served (st_writer st)"
  shows "pending (st\<lparr>st_writer := w'\<rparr>) = pending st" "budget (st\<lparr>st_writer := w'\<rparr>) extra = budget st extra"
    "data_inv n (st\<lparr>st_writer := w'\<rparr>) extra = data_inv n st extra" "st_total (st\<lparr>st_writer := w'\<rparr>) = st_total st"
proof -
  show p: "pending (st\<lparr>st_writer := w'\<rparr>) = pending st" "budget (st\<lparr>st_writer := w'\<rparr>) extra = budget st extra" for extra
    using assms by (simp_all add: pending_def budget_def)
  show "data_inv n (st\<lparr>st_writer := w'\<rparr>) extra = data_inv n st extra" "st_total (st\<lparr>st_writer := w'\<rparr>) = st_total st"
    using p by (simp_all add: data_inv_def st_total_def)
qed

lemma heap_invD:
  assumes "heap_inv st"
  shows "worker_inv (st_writer st)" "pool_inv (st_heap st) (st_pool st)" "\<not> cp_dynamic_size (st_pool st)"
    "\<And>b. b < length (st_heap st) \<Longrightarrow> cache_inv (st_heap st ! b) \<and> 0 < c_max_size (st_heap st ! b)" "distinct (served (st_writer st))"
    "set (served (st_writer st)) \<subseteq> {..<length (st_heap st)}"
    "\<And>b. b < length (st_heap st) \<Longrightarrow> c_sync (st_heap st ! b) \<longleftrightarrow> b \<in> set (served (st_writer st))"
    "\<And>b. b \<in> set (served (st_writer st)) \<Longrightarrow> c_size (st_heap st ! b) \<noteq> 0"
    "\<And>b. b \<in> set (cp_caches (st_pool st)) \<Longrightarrow> \<not> c_sync (st_heap st ! b) \<Longrightarrow> st_cache st \<noteq> Some b \<Longrightarrow> cache_held (st_heap st ! b) = []"
    "\<And>a. st_cache st = Some a \<Longrightarrow> a < length (st_heap st) \<and> \<not> c_sync (st_heap st ! a) \<and> c_attached (st_heap st ! a)"
    "cp_recalc_period (st_pool st) - int (length (st_sched st)) > - (2 ^ 31)"
  using assms unfolding heap_inv_def Let_def by blast+

text \<open>Every step of the thread and of the client changes one cache; this is what it has to respect.\<close>

lemma heap_inv_upd:
  assumes hi: "heap_inv st" and a: "a < length (st_heap st)" and heap: "st_heap st' = (st_heap st)[a := c]"
    and c: "cache_inv c" "0 < c_max_size c" "c_sync c \<longleftrightarrow> a \<in> set (served (st_writer st'))" "c_sync c \<Longrightarrow> c_size c \<noteq> 0"
      "a \<in> set (cp_caches (st_pool st)) \<Longrightarrow> \<not> c_sync c \<Longrightarrow> st_cache st' \<noteq> Some a \<Longrightarrow> cache_held c = []"
    and w: "worker_inv (st_writer st')" "distinct (served (st_writer st'))"
      "set (served (st_writer st')) - {a} = set (served (st_writer st)) - {a}"
    and cur: "\<And>b. b \<noteq> a \<Longrightarrow> st_cache st' = Some b \<longleftrightarrow> st_cache st = Some b" "st_cache st' = Some a \<Longrightarrow> \<not> c_sync c \<and> c_attached c"
    and pool: "cp_caches (st_pool st') = cp_caches (st_pool st)" "cp_pool_size (st_pool st') = cp_pool_size (st_pool st)"
      "\<not> cp_dynamic_size (st_pool st')" "cp_recalc_period (st_pool st') - int (length (st_sched st')) > - (2 ^ 31)"
  shows "heap_inv st'"
  unfolding heap_inv_def Let_def
proof (intro conjI allI ballI impI)
  note h = heap_invD [OF hi]
  have ca: "st_heap st' ! a = c" "length (st_heap st') = length (st_heap st)" using a by (simp_all add: heap)
  have same: "st_heap st' ! b = st_heap st ! b" if "b \<noteq> a" for b using that by (simp add: heap)
  have sv: "b \<in> set (served (st_writer st')) \<longleftrightarrow> b \<in> set (served (st_writer st))" if "b \<noteq> a" for b using w(3) that by blast
  show "worker_inv (st_writer st')" "pool_inv (st_heap st') (st_pool st')" "\<not> cp_dynamic_size (st_pool st')"
    "distinct (served (st_writer st'))" "- (2 ^ 31) < cp_recalc_period (st_pool st') - int (length (st_sched st'))"
    using w h(2) pool ca(2) by (simp_all add: pool_inv_def)
  show "set (served (st_writer st')) \<subseteq> {..<length (st_heap st')}"
  proof
    fix b assume "b \<in> set (served (st_writer st'))"
    then show "b \<in> {..<length (st_heap st')}" using h(6) sv a ca(2) by (cases "b = a") auto
  qed
  fix b
  show "cache_inv (st_heap st' ! b)" "0 < c_max_size (st_heap st' ! b)" if "b < length (st_heap st')"
    using that h(4) [of b] c(1,2) ca same by (cases "b = a"; simp)+
  show "c_sync (st_heap st' ! b) \<longleftrightarrow> b \<in> set (served (st_writer st'))" if "b < length (st_heap st')"
    using that h(7) [of b] c(3) ca same sv by (cases "b = a") simp_all
  show "c_size (st_heap st' ! b) \<noteq> 0" if "b \<in> set (served (st_writer st'))"
    using that h(8) [of b] c(3,4) ca same sv by (cases "b = a") simp_all
  show "cache_held (st_heap st' ! b) = []" if "b \<in> set (cp_caches (st_pool st'))" "\<not> c_sync (st_heap st' ! b)" "st_cache st' \<noteq> Some b"
    using that h(9) [of b] c(5) ca same cur(1) pool(1) by (cases "b = a") simp_all
next
  fix b assume b: "st_cache st' = Some b"
  have ca: "st_heap st' ! a = c" "length (st_heap st') = length (st_heap st)" using a by (simp_all add: heap)
  have "b < length (st_heap st') \<and> \<not> c_sync (st_heap st' ! b) \<and> c_attached (st_heap st' ! b)"
  proof (cases "b = a")
    case True
    then show ?thesis using a b cur(2) ca by simp
  next
    case False
    then show ?thesis using heap_invD(10) [OF hi, of b] b cur(1) ca(2) by (simp add: heap)
  qed
  then show "b < length (st_heap st')" "\<not> c_sync (st_heap st' ! b)" "c_attached (st_heap st' ! b)" by simp_all
qed

lemma times_still_new:
  assumes "R' \<subseteq> R \<union> f ` set xs" and "f ` set (xs @ ys) \<inter> R = {}" and "distinct (map f (xs @ ys))"
  shows "f ` set ys \<inter> R' = {}"
proof -
  have "f ` set xs \<inter> f ` set ys = {}" using assms(3) by simp
  moreover have "f ` set ys \<inter> R = {}" using assms(2) by auto
  ultimately show ?thesis using assms(1) by blast
qed

lemma cost_le: "cache_inv c \<Longrightarrow> c_size c \<noteq> 0 \<Longrightarrow> cost c \<le> length (cache_held c)"
proof -
  assume c: "cache_inv c" "c_size c \<noteq> 0"
  have "c_size c div 100 < c_size c" using c(2) by simp
  then show ?thesis using length_cache_held [OF c(1)] by (simp add: cost_def)
qed

section \<open>Steps of the writer thread\<close>

text \<open>What a step of the thread leaves alone.\<close>

definition same_client :: "storage \<Rightarrow> storage \<Rightarrow> bool" where
  "same_client st st' \<longleftrightarrow> st_cache st' = st_cache st \<and> st_pool st' = st_pool st \<and> st_sched st' = st_sched st \<and>
     st_cur_values st' = st_cur_values st \<and> st_past_time st' = st_past_time st \<and>
     length (st_heap st') = length (st_heap st) \<and>
     (\<forall>b < length (st_heap st). b \<notin> set (served (st_writer st)) \<longrightarrow> st_heap st' ! b = st_heap st ! b) \<and>
     (\<forall>b < length (st_heap st). c_max_size (st_heap st' ! b) = c_max_size (st_heap st ! b) \<and>
        (c_sync (st_heap st' ! b) \<longrightarrow> c_sync (st_heap st ! b))) \<and>
     set (served (st_writer st')) \<subseteq> set (served (st_writer st))"

lemma same_client_refl [simp]: "same_client st st"
  by (simp add: same_client_def)

lemma same_client_trans:
  assumes "same_client st st1" and "same_client st1 st2"
  shows "same_client st st2"
  using assms unfolding same_client_def by (metis subsetD subset_trans)

lemma served_next:
  assumes "worker_next w = Some w'"
  shows "served w = (case w_pc w of Calling a \<Rightarrow> a # served w' | _ \<Rightarrow> served w')"
  using assms
  by (cases "w_pc w") (auto simp: served_def worker_next_def in_flight_def split: if_splits list.splits)

text \<open>A finished call takes the measurements of its cache out of those that are pending.\<close>

lemma call_held:
  assumes hi: "heap_inv st" and sv: "served (st_writer st) = a # served w'"
    and st': "st' = st\<lparr>st_world := wd, st_heap := (st_heap st)[a := c], st_writer := w'\<rparr>"
  shows "pending st = cache_held (st_heap st ! a) @ pending st'" "cur_held st' = cur_held st"
    "budget st extra = cost (st_heap st ! a) + budget st' extra"
proof -
  note h = heap_invD [OF hi]
  have a: "a \<notin> set (served w')" "c_sync (st_heap st ! a)" using h(5,6,7) sv by auto
  then have na: "st_cache st \<noteq> Some a" using h(10) by blast
  have same: "\<forall>b \<in> set (served w'). st_heap st' ! b = st_heap st ! b" using a(1) by (auto simp: st' intro!: nth_list_update_neq)
  then have held: "map (\<lambda>b. cache_held (st_heap st' ! b)) (served w') = map (\<lambda>b. cache_held (st_heap st ! b)) (served w')"
    "map (\<lambda>b. cost (st_heap st' ! b)) (served w') = map (\<lambda>b. cost (st_heap st ! b)) (served w')" by simp_all
  have w: "st_writer st' = w'" by (simp add: st')
  show "pending st = cache_held (st_heap st ! a) @ pending st'" unfolding pending_def w held(1) sv by simp
  show cur: "cur_held st' = cur_held st" using na by (auto simp: cur_held_def st' split: option.split)
  show "budget st extra = cost (st_heap st ! a) + budget st' extra" unfolding budget_def w held(2) sv cur by simp
qed

text \<open>The effect of a finished call on the state, as far as the invariant is concerned.\<close>

lemma call_step:
  assumes srt: "std_sort MeasCmpByTime (e_sort env)" and inv: "st_inv n st extra"
    and sv: "served (st_writer st) = a # served w'" and w': "worker_inv w'"
  obtains wd c where "AsyncWriter_call (e_sort env) (e_time env) (st_heap st ! a) (st_world st) = Inr (wd, c)"
    "st_inv n (st\<lparr>st_world := wd, st_heap := (st_heap st)[a := c], st_writer := w'\<rparr>) extra"
    "st_total (st\<lparr>st_world := wd, st_heap := (st_heap st)[a := c], st_writer := w'\<rparr>) = st_total st"
    "same_client st (st\<lparr>st_world := wd, st_heap := (st_heap st)[a := c], st_writer := w'\<rparr>)"
proof -
  have hi: "heap_inv st" and di: "data_inv n st extra" using inv by (simp_all add: st_inv_def)
  note h = heap_invD [OF hi]
  let ?c = "st_heap st ! a" and ?all = "pending st @ cur_held st @ extra"
  have a: "a < length (st_heap st)" "a \<notin> set (served w')" "c_sync ?c" using h(5,6,7) sv by auto
  obtain rest k where pend: "pending st = cache_held ?c @ rest" and bud: "budget st extra = cost ?c + k"
    using call_held(1,3) [OF hi sv refl] by blast
  have ci: "cache_inv ?c" using h(4) [OF a(1)] by blast
  obtain pm name pg where d: "1500 \<le> n" "n < 2 ^ 50" "\<forall>m \<in> set ?all. meas8 m" "distinct (map m_time ?all)"
      "length ?all < indexCacheSize" "length (d_files (wd_disk (st_world st))) + 2 * length ?all + 2 < 2 ^ 32"
      "budget st extra \<le> new_room n" "writer_ok n (st_world st) pm name pg" "budget st extra \<le> index_room (pg_index pg)"
      "m_time ` set ?all \<inter> r_minTime ` records (pg_index pg) = {}"
    using di unfolding data_inv_def Let_def by blast
  have sz: "length (cache_held ?c) = c_size ?c" by (rule length_cache_held [OF ci])
  have fits: "cache_fits n pg ?c"
    using ci d(3-5,7,9,10) sz bud pend by (auto simp: cache_fits_def cost_def)
  have fl: "length (d_files (wd_disk (st_world st))) + c_size ?c + 2 < 2 ^ 32" using d(6) pend sz by simp
  from AsyncWriter_call_ok [OF srt d(8,1,2) fits fl, of "e_time env"] obtain wd c pm' name' pg' where
    r: "AsyncWriter_call (e_sort env) (e_time env) ?c (st_world st) = Inr (wd, c)" "writer_ok n wd pm' name' pg'"
      "mset (disk_log (wd_disk wd)) = mset (disk_log (wd_disk (st_world st))) + mset (map meas_stored (cache_held ?c))"
      "cache_inv c" "cache_held c = []" "\<not> c_sync c" "c_max_size c = c_max_size ?c"
      "r_minTime ` records (pg_index pg') \<subseteq> r_minTime ` records (pg_index pg) \<union> m_time ` set (cache_held ?c)"
      "min (index_room (pg_index pg)) (new_room n) \<le> index_room (pg_index pg') + Suc (c_size ?c div 100)"
      "length (d_files (wd_disk wd)) \<le> length (d_files (wd_disk (st_world st))) + Suc (c_size ?c)" by metis
  define st' where "st' = st\<lparr>st_world := wd, st_heap := (st_heap st)[a := c], st_writer := w'\<rparr>"
  have na: "st_cache st \<noteq> Some a" using h(10) a(3) by blast
  have same: "st_heap st' ! b = st_heap st ! b" if "b \<noteq> a" for b using that by (simp add: st'_def)
  have p': "pending st = cache_held ?c @ pending st'" "cur_held st' = cur_held st" and b': "budget st extra = cost ?c + budget st' extra"
    by (rule call_held [OF hi sv st'_def])+
  have ca: "st_heap st' ! a = c" using a(1) by (simp add: st'_def)
  have "heap_inv st'"
    by (rule heap_inv_upd [OF hi a(1), of st' c]) (use w' h(3,5,11) sv a(2) na r(4-7) h(4) [OF a(1)] in \<open>auto simp: st'_def\<close>)
  moreover have "data_inv n st' extra"
  proof -
    let ?all' = "pending st' @ cur_held st' @ extra"
    have all: "?all = cache_held ?c @ ?all'" using p' by simp
    have "m_time ` set ?all' \<inter> r_minTime ` records (pg_index pg') = {}"
      by (rule times_still_new [OF r(8)]) (use d(4,10) in \<open>simp_all only: all\<close>)
    moreover have "budget st' extra \<le> index_room (pg_index pg')" using r(9) b' d(7,9) by (simp add: cost_def)
    moreover have "length (d_files (wd_disk (st_world st'))) + 2 * length ?all' + 2 < 2 ^ 32"
    proof -
      have "0 < c_size ?c" using h(8) [of a] sv by simp
      moreover have "st_world st' = wd" by (simp add: st'_def)
      ultimately show ?thesis using d(6) r(10) sz unfolding all by simp
    qed
    ultimately show ?thesis
      using d(1-5,7) r(2) b' unfolding data_inv_def Let_def all by (auto simp: st'_def)
  qed
  moreover have "st_total st' = st_total st" using r(3) p' by (simp add: st_total_def) (simp add: st'_def)
  moreover have "same_client st st'"
    using a same r(7) ca sv r(6) by (auto simp: same_client_def st'_def nth_list_update)
  ultimately show ?thesis using that r(1) unfolding st'_def st_inv_def by blast
qed

lemma writer_step_ok:
  assumes srt: "std_sort MeasCmpByTime (e_sort env)" and inv: "st_inv n st extra"
  shows "case worker_next (st_writer st) of
      None \<Rightarrow> writer_step env st = Inr None
    | Some w' \<Rightarrow> \<exists>st'. writer_step env st = Inr (Some st') \<and> st_writer st' = w' \<and> st_inv n st' extra \<and>
        st_total st' = st_total st \<and> same_client st st'"
proof (cases "worker_next (st_writer st)")
  case None
  then show ?thesis by (simp add: writer_step_def)
next
  case (Some w')
  have wi: "worker_inv w'" using worker_inv_next [OF _ Some] inv by (simp add: st_inv_def heap_inv_def Let_def)
  note sv = served_next [OF Some]
  show ?thesis
  proof (cases "\<exists>a. w_pc (st_writer st) = Calling a")
    case True
    then obtain a where pc: "w_pc (st_writer st) = Calling a" by blast
    then have "served (st_writer st) = a # served w'" using sv by simp
    from call_step [OF srt inv this wi] obtain wd c where
      c: "AsyncWriter_call (e_sort env) (e_time env) (st_heap st ! a) (st_world st) = Inr (wd, c)"
        "st_inv n (st\<lparr>st_world := wd, st_heap := (st_heap st)[a := c], st_writer := w'\<rparr>) extra"
        "st_total (st\<lparr>st_world := wd, st_heap := (st_heap st)[a := c], st_writer := w'\<rparr>) = st_total st"
        "same_client st (st\<lparr>st_world := wd, st_heap := (st_heap st)[a := c], st_writer := w'\<rparr>)" by blast
    then show ?thesis using Some pc by (auto simp: writer_step_def)
  next
    case False
    then have e: "served w' = served (st_writer st)" and
      st: "writer_step env st = Inr (Some (st\<lparr>st_writer := w'\<rparr>))"
      using sv Some by (auto simp: writer_step_def split: thread_pc.splits)
    have "st_inv n (st\<lparr>st_writer := w'\<rparr>) extra"
      using inv wi e by (auto simp: st_inv_def heap_inv_def Let_def writer_upd)
    moreover have "st_total (st\<lparr>st_writer := w'\<rparr>) = st_total st" using e by (simp add: writer_upd)
    moreover have "same_client st (st\<lparr>st_writer := w'\<rparr>)" using e by (simp add: same_client_def)
    ultimately show ?thesis using st Some by auto
  qed
qed

lemma writer_run_ok:
  assumes srt: "std_sort MeasCmpByTime (e_sort env)"
  shows "st_inv n st extra \<Longrightarrow> \<exists>st'. writer_run env k st = Inr st' \<and> st_writer st' = worker_run k (st_writer st) \<and>
    st_inv n st' extra \<and> st_total st' = st_total st \<and> same_client st st'"
proof (induction k arbitrary: st)
  case 0
  then show ?case by simp
next
  case (Suc k)
  show ?case
  proof (cases "worker_next (st_writer st)")
    case None
    then show ?thesis using writer_step_ok [OF srt Suc.prems] Suc.prems by simp
  next
    case (Some w')
    then obtain st1 where s: "writer_step env st = Inr (Some st1)" "st_writer st1 = w'" "st_inv n st1 extra"
      "st_total st1 = st_total st" "same_client st st1" using writer_step_ok [OF srt Suc.prems] by auto
    from Suc.IH [OF s(3)] s Some show ?thesis using same_client_trans [OF s(5)] by auto
  qed
qed

lemma st_inv_sched: "st_inv n st extra \<Longrightarrow> length ks \<le> length (st_sched st) \<Longrightarrow> st_inv n (st\<lparr>st_sched := ks\<rparr>) extra"
  by (auto simp: st_inv_def heap_inv_def Let_def)

lemma same_client_cur_held:
  assumes "heap_inv st" and "same_client st st'"
  shows "cur_held st' = cur_held st"
proof (cases "st_cache st")
  case None
  then show ?thesis using assms(2) by (simp add: cur_held_def same_client_def)
next
  case (Some a)
  have "a < length (st_heap st)" "a \<notin> set (served (st_writer st))"
    using heap_invD(7,10) [OF assms(1)] Some by auto
  then show ?thesis using assms(2) Some by (simp add: cur_held_def same_client_def)
qed

lemma worker_run_add: "worker_run (j + k) w = worker_run k (worker_run j w)"
proof (induction j arbitrary: w)
  case 0
  then show ?case by simp
next
  case (Suc j)
  show ?case
  proof (cases "worker_next w")
    case None
    moreover have "worker_run i w = w" for i using None by (cases i) simp_all
    ultimately show ?thesis by simp
  next
    case (Some w')
    then show ?thesis using Suc by simp
  qed
qed

text \<open>A wait ends in a state the thread has reached by itself, or it is still waiting.\<close>

lemma wait_for_ok:
  assumes srt: "std_sort MeasCmpByTime (e_sort env)"
  shows "st_inv n st extra \<Longrightarrow> st_sched st = ks \<Longrightarrow> wait_for env act ks st = Inr st2 \<Longrightarrow>
    \<exists>st1 j. act st1 = Some st2 \<and> st_inv n st1 extra \<and> st_total st1 = st_total st \<and>
      st_cache st1 = st_cache st \<and> cur_held st1 = cur_held st \<and> st_writer st1 = worker_run j (st_writer st)"
proof (induction ks arbitrary: st)
  case Nil
  then show ?case by simp
next
  case (Cons k ks)
  define st0 where "st0 = st\<lparr>st_sched := ks\<rparr>"
  have i0: "st_inv n st0 extra" unfolding st0_def by (rule st_inv_sched [OF Cons.prems(1)]) (simp add: Cons.prems(2))
  from writer_run_ok [OF srt i0, of k] obtain st1 where
    s: "writer_run env k st0 = Inr st1" "st_writer st1 = worker_run k (st_writer st)" "st_inv n st1 extra"
      "st_total st1 = st_total st" "same_client st0 st1" by (auto simp: st0_def)
  have f: "st_cache st1 = st_cache st" "st_sched st1 = ks" using s(5) by (simp_all add: same_client_def st0_def)
  have "cur_held st1 = cur_held st"
    using same_client_cur_held [OF _ s(5)] i0 by (simp add: st_inv_def st0_def)
  note g = f(1) this
  show ?case
  proof (cases "act st1")
    case None
    then have "wait_for env act ks st1 = Inr st2" using Cons.prems(3) s(1) by (simp add: st0_def)
    from Cons.IH [OF s(3) f(2) this] s(2,4) g show ?thesis by (metis worker_run_add)
  next
    case (Some st')
    then have "st' = st2" using Cons.prems(3) s(1) by (simp add: st0_def)
    then show ?thesis using Some s(2-4) g by (intro exI [of _ st1] exI [of _ k]) simp
  qed
qed

section \<open>Handing a cache over\<close>

lemma getCache_static:
  assumes "\<not> cp_dynamic_size cp" and "cp_recalc_period cp > - (2 ^ 31)"
  shows "getCache (Suc f) h cp = Inr (h, cp\<lparr>cp_recalc_period := cp_recalc_period cp - 1\<rparr>, fst (scan_pool h (cp_caches cp)))"
  using assms by (simp add: getCache.simps(2) dec_period_def case_prod_beta)

lemma served_add [simp]: "served (worker_add a w) = served w @ [a]"
  by (simp add: served_def worker_add_def notify_one_def in_flight_def)

definition handed_over :: "nat \<Rightarrow> storage \<Rightarrow> storage" where
  "handed_over a st = st\<lparr>st_heap := (st_heap st)[a := sync_begin (st_heap st ! a)],
     st_writer := worker_add a (st_writer st), st_cache := None\<rparr>"

text \<open>The caches of the pool that can be taken.\<close>

definition free_set :: "storage \<Rightarrow> nat set" where
  "free_set st = {b \<in> set (cp_caches (st_pool st)). \<not> c_sync (st_heap st ! b) \<and> st_cache st \<noteq> Some b}"

lemma finite_free_set [simp]: "finite (free_set st)"
  by (simp add: free_set_def)

lemma sync_begin_fields [simp]:
  "c_sync (sync_begin c)" "c_size (sync_begin c) = c_size c" "c_max_size (sync_begin c) = c_max_size c"
  "c_sync (cache_setStorage c) = c_sync c" "c_size (cache_setStorage c) = c_size c"
  "c_max_size (cache_setStorage c) = c_max_size c" "c_attached (cache_setStorage c)"
  by (simp_all add: sync_begin_def cache_setStorage_def)

lemma handed_over_ok:
  assumes inv: "st_inv n st extra" and a: "st_cache st = Some a" and sz: "c_size (st_heap st ! a) \<noteq> 0"
  shows "st_inv n (handed_over a st) extra" "st_total (handed_over a st) = st_total st" "free_set (handed_over a st) = free_set st"
proof -
  have hi: "heap_inv st" and di: "data_inv n st extra" using inv by (simp_all add: st_inv_def)
  note h = heap_invD [OF hi]
  let ?st = "handed_over a st" and ?c = "st_heap st ! a"
  have al: "a < length (st_heap st)" "\<not> c_sync ?c" "a \<notin> set (served (st_writer st))" using h(7,10) a by auto
  have f: "st_writer ?st = worker_add a (st_writer st)" "st_cache ?st = None" "st_pool ?st = st_pool st"
    "st_sched ?st = st_sched st" "st_world ?st = st_world st" "length (st_heap ?st) = length (st_heap st)"
    "st_heap ?st ! a = sync_begin ?c" "\<And>b. b \<noteq> a \<Longrightarrow> st_heap ?st ! b = st_heap st ! b"
    using al(1) by (simp_all add: handed_over_def)
  have held: "map (\<lambda>b. cache_held (st_heap ?st ! b)) (served (st_writer st)) = map (\<lambda>b. cache_held (st_heap st ! b)) (served (st_writer st))"
    "map (\<lambda>b. cost (st_heap ?st ! b)) (served (st_writer st)) = map (\<lambda>b. cost (st_heap st ! b)) (served (st_writer st))"
    using al(3) f(8) by (force intro!: map_cong)+
  have "pending ?st = concat (map (\<lambda>b. cache_held (st_heap ?st ! b)) (served (st_writer st))) @ cache_held ?c"
    by (simp add: pending_def f(1,7))
  then have p: "pending ?st = pending st @ cur_held st" "cur_held ?st = []"
    unfolding held(1) using a by (simp_all add: pending_def cur_held_def f(2))
  have "cost ?c \<le> length (cur_held st)" using cost_le [of ?c] h(4) [OF al(1)] sz a by (simp add: cur_held_def)
  moreover have "budget ?st extra = sum_list (map (\<lambda>b. cost (st_heap st ! b)) (served (st_writer st))) + cost ?c + length extra"
    unfolding budget_def f(1) served_add map_append sum_list_append held(2) p(2) by (simp add: f(7) cost_def)
  ultimately have bud: "budget ?st extra \<le> budget st extra" by (simp add: budget_def)
  have "heap_inv ?st"
    by (rule heap_inv_upd [OF hi al(1), of ?st "sync_begin ?c"])
      (use worker_inv_add [OF h(1)] h(3,5,11) h(4) [OF al(1)] al(3) a sz in \<open>auto simp: handed_over_def cache_flags_inv\<close>)
  moreover have "data_inv n ?st extra"
    using di bud unfolding data_inv_def Let_def p f(5) by (auto intro: order_trans)
  ultimately show "st_inv n ?st extra" by (simp add: st_inv_def)
  show "st_total ?st = st_total st" by (simp add: st_total_def p f(5))
  show "free_set ?st = free_set st"
  proof -
    have "\<not> c_sync (st_heap ?st ! b) \<longleftrightarrow> \<not> c_sync (st_heap st ! b) \<and> b \<noteq> a" for b using f(7,8) by (cases "b = a") auto
    then show ?thesis using a by (auto simp: free_set_def f)
  qed
qed

text \<open>Taking a free cache.\<close>

lemma take_cache_ok:
  assumes inv: "st_inv n st extra" and none: "st_cache st = None" and b: "b \<in> free_set st"
    and cp: "cp = (st_pool st)\<lparr>cp_recalc_period := p\<rparr>" "p - int (length (st_sched st)) > - (2 ^ 31)"
  defines "st' \<equiv> st\<lparr>st_pool := cp, st_cache := Some b, st_heap := (st_heap st)[b := cache_setStorage (st_heap st ! b)]\<rparr>"
  shows "st_inv n st' extra" "st_total st' = st_total st" "cur_held st' = []" "free_set st' = free_set st - {b}"
proof -
  have hi: "heap_inv st" and di: "data_inv n st extra" using inv by (simp_all add: st_inv_def)
  note h = heap_invD [OF hi]
  have bl: "b < length (st_heap st)" "\<not> c_sync (st_heap st ! b)" "cache_held (st_heap st ! b) = []" "b \<notin> set (served (st_writer st))"
    using b h(2,7,9) by (auto simp: free_set_def pool_inv_def subset_iff)
  have f: "st_writer st' = st_writer st" "st_cache st' = Some b" "st_pool st' = cp" "st_sched st' = st_sched st"
    "st_world st' = st_world st" "length (st_heap st') = length (st_heap st)"
    "st_heap st' ! b = cache_setStorage (st_heap st ! b)" "\<And>c. c \<noteq> b \<Longrightarrow> st_heap st' ! c = st_heap st ! c"
    using bl(1) by (simp_all add: st'_def)
  have held: "map (\<lambda>c. cache_held (st_heap st' ! c)) (served (st_writer st)) = map (\<lambda>c. cache_held (st_heap st ! c)) (served (st_writer st))"
    "map (\<lambda>c. cost (st_heap st' ! c)) (served (st_writer st)) = map (\<lambda>c. cost (st_heap st ! c)) (served (st_writer st))"
    using bl(4) f(8) by (force intro!: map_cong)+
  have p: "pending st' = pending st" "cur_held st' = []" "cur_held st = []"
    unfolding pending_def f(1) held(1) using bl(3) none by (simp_all add: f cur_held_def)
  have bud: "budget st' extra = budget st extra" unfolding budget_def f(1) held(2) p(2,3) ..
  show "cur_held st' = []" by (rule p(2))
  show "st_total st' = st_total st" by (simp add: st_total_def p f)
  have "heap_inv st'"
    by (rule heap_inv_upd [OF hi bl(1), of st' "cache_setStorage (st_heap st ! b)"])
      (use h(1,3,5) h(4) [OF bl(1)] bl none cp in \<open>auto simp: st'_def cache_flags_inv\<close>)
  moreover have "data_inv n st' extra" using di unfolding data_inv_def Let_def p f bud .
  ultimately show "st_inv n st' extra" by (simp add: st_inv_def)
  have "\<not> c_sync (st_heap st' ! c) \<longleftrightarrow> \<not> c_sync (st_heap st ! c)" for c using f(7,8) by (cases "c = b") auto
  then show "free_set st' = free_set st - {b}" using none cp(1) by (auto simp: free_set_def f)
qed

lemma nth_upd: "b < length xs \<Longrightarrow> xs[i := x] ! b = (if i = b then x else xs ! b)"
  by simp

text \<open>What an operation of the client leaves alone, and one round of the loop that looks for a free cache.\<close>

definition kept :: "storage \<Rightarrow> storage \<Rightarrow> bool" where
  "kept st st' \<longleftrightarrow> cp_caches (st_pool st') = cp_caches (st_pool st) \<and> st_past_time st' = st_past_time st \<and>
     st_cur_values st' = st_cur_values st \<and> length (st_heap st') = length (st_heap st) \<and>
     (\<forall>b < length (st_heap st). c_max_size (st_heap st' ! b) = c_max_size (st_heap st ! b))"

lemma kept_trans: "kept st st1 \<Longrightarrow> kept st1 st2 \<Longrightarrow> kept st st2"
  by (simp add: kept_def)

lemma same_client_kept: "same_client st st' \<Longrightarrow> kept st st'"
  by (simp add: kept_def same_client_def)

lemma same_client_free:
  assumes "heap_inv st" and "same_client st st'"
  shows "free_set st \<subseteq> free_set st'"
  using assms(2) heap_invD(2) [OF assms(1)]
  by (auto simp: free_set_def same_client_def pool_inv_def subset_iff)

lemma wait_cache_round:
  assumes srt: "std_sort MeasCmpByTime (e_sort env)" and inv: "st_inv n st extra" and none: "st_cache st = None"
    and ks: "st_sched st = k # ks"
  obtains st1 where "st_inv n st1 extra" "st_total st1 = st_total st" "st_writer st1 = worker_run k (st_writer st)" "st_cache st1 = None"
    "st_sched st1 = ks" "kept st st1" "free_set st \<subseteq> free_set st1"
    "free_set st1 = {} \<Longrightarrow> wait_cache env (k # ks) st = wait_cache env ks st1"
    "free_set st1 \<noteq> {} \<Longrightarrow> \<exists>b st2. wait_cache env (k # ks) st = Inr st2 \<and> st_inv n st2 extra \<and> st_total st2 = st_total st \<and>
      cur_held st2 = [] \<and> st_cache st2 = Some b \<and> free_set st2 = free_set st1 - {b} \<and> st_sched st2 = ks \<and> kept st st2 \<and>
      st_writer st2 = worker_run k (st_writer st)"
proof -
  define st0 where "st0 = st\<lparr>st_sched := ks\<rparr>"
  have i0: "st_inv n st0 extra" unfolding st0_def by (rule st_inv_sched [OF inv]) (simp add: ks)
  from writer_run_ok [OF srt i0, of k] obtain st1 where
    s: "writer_run env k st0 = Inr st1" "st_writer st1 = worker_run k (st_writer st)" "st_inv n st1 extra"
      "st_total st1 = st_total st" "same_client st0 st1" by (auto simp: st0_def)
  have f: "st_cache st1 = None" "st_sched st1 = ks" "st_pool st1 = st_pool st" using s(5) none by (simp_all add: same_client_def st0_def)
  have k1: "kept st st1" using same_client_kept [OF s(5)] by (simp add: kept_def st0_def)
  have fr: "free_set st \<subseteq> free_set st1"
    using same_client_free [OF _ s(5)] i0 by (simp add: st_inv_def) (simp add: st0_def free_set_def)
  define cp where "cp = (st_pool st1)\<lparr>cp_recalc_period := cp_recalc_period (st_pool st1) - 1\<rparr>"
  have per: "cp_recalc_period (st_pool st1) - 1 - int (length ks) > - (2 ^ 31)" "\<not> cp_dynamic_size (st_pool st1)"
    using inv ks f(3) by (simp_all add: st_inv_def heap_inv_def Let_def)
  have g: "getCache (Suc (Suc 0)) (st_heap st1) (st_pool st1) = Inr (st_heap st1, cp, fst (scan_pool (st_heap st1) (cp_caches (st_pool st1))))"
    using getCache_static [of "st_pool st1"] per by (simp add: cp_def)
  have scan: "fst (scan_pool (st_heap st1) (cp_caches (st_pool st1))) = None \<longleftrightarrow> free_set st1 = {}"
    by (auto simp: scan_pool_None free_set_def f(1))
  define st1' where "st1' = st1\<lparr>st_pool := cp\<rparr>"
  have i1: "st_inv n st1' extra"
    using s(3) per f(2) by (auto simp: st1'_def st_inv_def heap_inv_def Let_def cp_def pool_inv_def)
  have e: "free_set st1' = free_set st1" by (simp add: st1'_def free_set_def cp_def)
  show ?thesis
  proof (rule that [OF i1])
    show "st_total st1' = st_total st" "st_writer st1' = worker_run k (st_writer st)" "st_cache st1' = None" "st_sched st1' = ks"
      "kept st st1'" "free_set st \<subseteq> free_set st1'"
      using s f k1 fr e by (auto simp: st1'_def kept_def cp_def)
    show "wait_cache env (k # ks) st = wait_cache env ks st1'" if "free_set st1' = {}"
      using that s(1) g scan e by (simp add: st0_def st1'_def)
    show "\<exists>b st2. wait_cache env (k # ks) st = Inr st2 \<and> st_inv n st2 extra \<and> st_total st2 = st_total st \<and>
      cur_held st2 = [] \<and> st_cache st2 = Some b \<and> free_set st2 = free_set st1' - {b} \<and> st_sched st2 = ks \<and> kept st st2 \<and>
      st_writer st2 = worker_run k (st_writer st)" if ne: "free_set st1' \<noteq> {}"
    proof -
      obtain b where b: "fst (scan_pool (st_heap st1) (cp_caches (st_pool st1))) = Some b" using ne scan e by fastforce
      then have bf: "b \<in> free_set st1" using scan_pool_Some [OF b] by (simp add: free_set_def f(1))
      define st2 where "st2 = st1\<lparr>st_pool := cp, st_cache := Some b, st_heap := (st_heap st1)[b := cache_setStorage (st_heap st1 ! b)]\<rparr>"
      have "wait_cache env (k # ks) st = Inr st2" using s(1) g b by (simp add: st0_def st2_def)
      moreover have "st_inv n st2 extra" "st_total st2 = st_total st1" "cur_held st2 = []" "free_set st2 = free_set st1 - {b}"
        unfolding st2_def using take_cache_ok [OF s(3) f(1) bf cp_def] per f(2) by simp_all
      moreover have "kept st st2" using k1 by (auto simp: kept_def st2_def cp_def nth_upd)
      ultimately show ?thesis using s e f by (intro exI [of _ b] exI [of _ st2]) (auto simp: st2_def)
    qed
  qed
qed

text \<open>The loop as a whole: what it has done when it returns, and that it returns when a cache is free.\<close>

lemma wait_cache_ok:
  assumes srt: "std_sort MeasCmpByTime (e_sort env)"
  shows "st_inv n st extra \<Longrightarrow> st_cache st = None \<Longrightarrow> st_sched st = ks \<Longrightarrow> wait_cache env ks st = Inr st' \<Longrightarrow>
    \<exists>b j. st_inv n st' extra \<and> st_total st' = st_total st \<and> cur_held st' = [] \<and> st_cache st' = Some b \<and> kept st st' \<and>
      st_writer st' = worker_run j (st_writer st)"
proof (induction ks arbitrary: st)
  case Nil
  then show ?case by simp
next
  case (Cons k ks)
  from wait_cache_round [OF srt Cons.prems(1-3)] obtain st1 where
    r: "st_inv n st1 extra" "st_total st1 = st_total st" "st_writer st1 = worker_run k (st_writer st)" "st_cache st1 = None"
      "st_sched st1 = ks" "kept st st1"
      "free_set st1 = {} \<Longrightarrow> wait_cache env (k # ks) st = wait_cache env ks st1"
      "free_set st1 \<noteq> {} \<Longrightarrow> \<exists>b st2. wait_cache env (k # ks) st = Inr st2 \<and> st_inv n st2 extra \<and> st_total st2 = st_total st \<and>
        cur_held st2 = [] \<and> st_cache st2 = Some b \<and> free_set st2 = free_set st1 - {b} \<and> st_sched st2 = ks \<and> kept st st2 \<and>
        st_writer st2 = worker_run k (st_writer st)" by metis
  show ?case
  proof (cases "free_set st1 = {}")
    case True
    then have "wait_cache env ks st1 = Inr st'" using r(7) Cons.prems(4) by simp
    from Cons.IH [OF r(1,4,5) this] r(2,3,6) show ?thesis by (metis kept_trans worker_run_add)
  next
    case False
    from r(8) [OF False] Cons.prems(4) show ?thesis by auto
  qed
qed

lemma handed_over_kept: "st_inv n st extra \<Longrightarrow> st_cache st = Some a \<Longrightarrow> kept st (handed_over a st)"
  by (auto simp: kept_def handed_over_def nth_upd)

lemma writeCache_handed:
  "st_cache st = Some a \<Longrightarrow> c_size (st_heap st ! a) \<noteq> 0 \<Longrightarrow>
   writeCache env st = wait_cache env (st_sched st) (handed_over a st)"
  by (simp add: writeCache_def handed_over_def)

lemma empty_cur_held:
  assumes "st_inv n st extra" and "st_cache st = Some a" and "c_size (st_heap st ! a) = 0"
  shows "cur_held st = []"
  using assms heap_invD(4,10) [of st] by (auto simp: st_inv_def cur_held_def cache_inv_def cache_held_def)

lemma writeCache_ok:
  assumes srt: "std_sort MeasCmpByTime (e_sort env)" and inv: "st_inv n st extra" and ok: "writeCache env st = Inr st'"
  shows "\<exists>b. st_inv n st' extra \<and> st_total st' = st_total st \<and> cur_held st' = [] \<and> st_cache st' = Some b \<and> kept st st'"
proof -
  obtain a where a: "st_cache st = Some a" using ok by (auto simp: writeCache_def split: option.splits)
  show ?thesis
  proof (cases "c_size (st_heap st ! a) = 0")
    case True
    then show ?thesis using ok a inv empty_cur_held [OF inv a] by (simp add: writeCache_def kept_def)
  next
    case False
    have "st_cache (handed_over a st) = None" "st_sched (handed_over a st) = st_sched st" by (simp_all add: handed_over_def)
    from wait_cache_ok [OF srt handed_over_ok(1) [OF inv a False] this, of st'] ok
    show ?thesis using kept_trans [OF handed_over_kept [OF inv a]]
      by (auto simp: writeCache_handed [OF a False] handed_over_ok(2) [OF inv a False])
  qed
qed

lemma writeCache_returns:
  assumes srt: "std_sort MeasCmpByTime (e_sort env)" and inv: "st_inv n st extra" and a: "st_cache st = Some a"
    and fr: "free_set st \<noteq> {}" and ks: "st_sched st = k # ks"
  obtains st' where "writeCache env st = Inr st'" "card (free_set st) \<le> Suc (card (free_set st'))"
    "st_sched st' = ks \<and> st_writer st' = worker_run k (worker_add a (st_writer st)) \<or> st' = st"
proof (cases "c_size (st_heap st ! a) = 0")
  case True
  then show ?thesis using that [of st] a by (simp add: writeCache_def)
next
  case False
  note h = handed_over_ok [OF inv a False]
  have f: "st_cache (handed_over a st) = None" "st_sched (handed_over a st) = k # ks"
    "st_writer (handed_over a st) = worker_add a (st_writer st)"
    by (simp_all add: handed_over_def ks)
  from wait_cache_round [OF srt h(1) f(1,2)] obtain st1 where
    r: "free_set (handed_over a st) \<subseteq> free_set st1"
      "free_set st1 \<noteq> {} \<Longrightarrow> \<exists>b st2. wait_cache env (k # ks) (handed_over a st) = Inr st2 \<and> free_set st2 = free_set st1 - {b} \<and>
        st_sched st2 = ks \<and> st_writer st2 = worker_run k (st_writer (handed_over a st))" by metis
  then obtain b st2 where s: "wait_cache env (k # ks) (handed_over a st) = Inr st2" "free_set st2 = free_set st1 - {b}"
    "st_sched st2 = ks" "st_writer st2 = worker_run k (worker_add a (st_writer st))"
    using fr h(3) f(3) by auto
  have "card (free_set st) \<le> card (free_set st1)" using r(1) h(3) by (simp add: card_mono)
  also have "\<dots> \<le> Suc (card (free_set st2))"
    using card_Suc_Diff1 [of "free_set st1" b] by (cases "b \<in> free_set st1") (simp_all add: s(2))
  finally show ?thesis using that s by (simp add: writeCache_handed [OF a False] ks)
qed

section \<open>Appending\<close>

text \<open>Filling the current cache moves measurements from \<open>extra\<close> into it.\<close>

lemma filled_ok:
  fixes cur :: cur_values
  assumes inv: "st_inv n st (acc @ extra)" and a: "st_cache st = Some a" and c: "cache_inv c"
    "cache_held c = cache_held (st_heap st ! a) @ acc" "c_attached c = c_attached (st_heap st ! a)"
    "c_sync c = c_sync (st_heap st ! a)" "c_max_size c = c_max_size (st_heap st ! a)"
  defines "st' \<equiv> st\<lparr>st_heap := (st_heap st)[a := c], st_cur_values := cur\<rparr>"
  shows "st_inv n st' extra" "st_total st' = st_total st + mset (map meas_stored acc)" "free_set st' = free_set st"
proof -
  have hi: "heap_inv st" and di: "data_inv n st (acc @ extra)" using inv by (simp_all add: st_inv_def)
  note h = heap_invD [OF hi]
  have al: "a < length (st_heap st)" "a \<notin> set (served (st_writer st))" using h(7,10) a by auto
  have f: "st_writer st' = st_writer st" "st_cache st' = Some a" "st_pool st' = st_pool st" "st_sched st' = st_sched st"
    "st_world st' = st_world st" "length (st_heap st') = length (st_heap st)"
    "st_heap st' ! a = c" "\<And>b. b \<noteq> a \<Longrightarrow> st_heap st' ! b = st_heap st ! b"
    using al(1) a by (simp_all add: st'_def)
  have held: "map (\<lambda>c. cache_held (st_heap st' ! c)) (served (st_writer st)) = map (\<lambda>c. cache_held (st_heap st ! c)) (served (st_writer st))"
    "map (\<lambda>c. cost (st_heap st' ! c)) (served (st_writer st)) = map (\<lambda>c. cost (st_heap st ! c)) (served (st_writer st))"
    using al(2) f(8) by (force intro!: map_cong)+
  have p: "pending st' = pending st" unfolding pending_def f(1) held(1) ..
  have q: "cur_held st' = cur_held st @ acc" using c(2) a f(2,7) by (simp add: cur_held_def)
  have bud: "budget st' extra = budget st (acc @ extra)" unfolding budget_def f(1) held(2) q by simp
  have sync: "c_sync (st_heap st' ! b) = c_sync (st_heap st ! b)" for b using f(7,8) c(4) by (cases "b = a") auto
  have "heap_inv st'"
    by (rule heap_inv_upd [OF hi al(1), of st' c])
      (use h(1,3,5,11) h(4) [OF al(1)] h(7) [OF al(1)] h(10) [OF a] al(2) a c in \<open>auto simp: st'_def\<close>)
  moreover have "data_inv n st' extra"
    using di unfolding data_inv_def Let_def p q f(5) bud by simp
  ultimately show "st_inv n st' extra" by (simp add: st_inv_def)
  show "st_total st' = st_total st + mset (map meas_stored acc)" by (simp add: st_total_def p q f(5))
  show "free_set st' = free_set st" using sync a by (simp add: free_set_def f)
qed

text \<open>Room in the current cache; a cache that has just been taken, or has nothing in it, has all of it.\<close>

definition cur_room :: "storage \<Rightarrow> nat" where
  "cur_room st = (case st_cache st of None \<Rightarrow> 0 | Some a \<Rightarrow> cache_room (st_heap st ! a))"

lemma empty_cur_room:
  assumes "st_inv n st extra" and "st_cache st = Some a" and "cur_held st = []"
  shows "cur_room st = c_max_size (st_heap st ! a)"
proof -
  have "cache_inv (st_heap st ! a)" using assms(1,2) heap_invD(4,10) [of st] by (auto simp: st_inv_def)
  then show ?thesis using length_cache_held [of "st_heap st ! a"] assms(2,3) by (simp add: cur_room_def cache_room_def cur_held_def)
qed

text \<open>What the append needs: caches of at least \<open>S\<close> measurements, \<open>k\<close> of them free, and \<open>k\<close> looks at the pool.\<close>

definition stocked :: "nat \<Rightarrow> nat \<Rightarrow> storage \<Rightarrow> bool" where
  "stocked S k st \<longleftrightarrow> (\<forall>b < length (st_heap st). S \<le> c_max_size (st_heap st ! b)) \<and> k \<le> card (free_set st) \<and> k \<le> length (st_sched st)"

text \<open>
  A storage whose thread is at rest and gets at least eleven steps at every look. What an operation with at most \<open>k\<close> looks
  leaves alone: the pool, the sizes, the past time, the rest of the schedule, and that the storage is calm.
\<close>

definition calm :: "storage \<Rightarrow> bool" where
  "calm st \<longleftrightarrow> rested (st_writer st) \<and> (\<forall>q \<in> set (st_sched st). 11 \<le> q)"

definition moved_on :: "nat \<Rightarrow> storage \<Rightarrow> storage \<Rightarrow> bool" where
  "moved_on k st st' \<longleftrightarrow> cp_caches (st_pool st') = cp_caches (st_pool st) \<and> st_past_time st' = st_past_time st \<and>
     length (st_heap st') = length (st_heap st) \<and>
     (\<forall>b < length (st_heap st). c_max_size (st_heap st' ! b) = c_max_size (st_heap st ! b)) \<and>
     length (st_sched st) \<le> length (st_sched st') + k \<and> (calm st \<longrightarrow> calm st')"

lemma moved_on_trans: "moved_on j st st1 \<Longrightarrow> moved_on k st1 st2 \<Longrightarrow> moved_on (j + k) st st2"
  by (auto simp: moved_on_def)

lemma moved_on_mono: "moved_on j st st' \<Longrightarrow> j \<le> k \<Longrightarrow> moved_on k st st'"
  by (auto simp: moved_on_def)

lemma writeCache_moved_on:
  assumes "kept st st'" and "st_sched st = q # ks"
    and "st_sched st' = ks \<and> st_writer st' = worker_run q (worker_add a (st_writer st)) \<or> st' = st"
  shows "moved_on 1 st st'"
  using assms rested_add_run [of "st_writer st" q a] by (auto simp: moved_on_def kept_def calm_def)

lemma stocked_writeCache:
  assumes srt: "std_sort MeasCmpByTime (e_sort env)" and inv: "st_inv n st extra" and a: "st_cache st = Some a"
    and sup: "stocked S (Suc k) st"
  obtains st' b where "writeCache env st = Inr st'" "st_inv n st' extra" "st_total st' = st_total st" "st_cache st' = Some b"
    "kept st st'" "stocked S k st'" "S \<le> cur_room st'" "moved_on 1 st st'"
proof -
  obtain k0 ks where ks: "st_sched st = k0 # ks" using sup by (cases "st_sched st") (auto simp: stocked_def)
  have "free_set st \<noteq> {}" using sup by (auto simp: stocked_def)
  from writeCache_returns [OF srt inv a this ks] obtain st' where
    w: "writeCache env st = Inr st'" "card (free_set st) \<le> Suc (card (free_set st'))"
      "st_sched st' = ks \<and> st_writer st' = worker_run k0 (worker_add a (st_writer st)) \<or> st' = st" by metis
  from writeCache_ok [OF srt inv w(1)] obtain b where
    q: "st_inv n st' extra" "st_total st' = st_total st" "cur_held st' = []" "st_cache st' = Some b" "kept st st'" by blast
  have "stocked S k st'" using sup w(2,3) q(5) ks by (auto simp: stocked_def kept_def)
  moreover have "S \<le> cur_room st'"
    using empty_cur_room [OF q(1,4,3)] sup q(5) heap_invD(10) [of st' b] q(1,4) by (auto simp: stocked_def kept_def st_inv_def)
  ultimately show ?thesis using that w(1) q writeCache_moved_on [OF q(5) ks w(3)] by blast
qed

text \<open>The outcome of an append of the last \<open>w\<close> elements of \<open>ms\<close>.\<close>

definition appended ::
    "nat \<Rightarrow> meas list \<Rightarrow> nat \<Rightarrow> (nat \<Rightarrow> Time) \<Rightarrow> meas list \<Rightarrow> nat \<Rightarrow> storage \<Rightarrow> append_result \<Rightarrow> (storage \<times> append_result) result \<Rightarrow> bool" where
  "appended n extra k clock ms w st res r \<longleftrightarrow> (let d = length ms - w; acc = accepted clock (st_past_time st) d (drop d ms) in
     \<exists>st' b. r = Inr (st', \<lparr>writed = writed res + w, ignored = ignored res + (w - length acc)\<rparr>) \<and> st_inv n st' extra \<and>
       st_total st' = st_total st + mset (map meas_stored acc) \<and> st_cur_values st' = foldl writeValue (st_cur_values st) acc \<and>
       st_cache st' = Some b \<and> moved_on k st st')"

lemma accepted_split:
  assumes "d + m \<le> length ms"
  shows "accepted clock past d (drop d ms) = accepted clock past d (take m (drop d ms)) @ accepted clock past (d + m) (drop (d + m) ms)"
proof -
  have "drop d ms = take m (drop d ms) @ drop (d + m) ms" by (metis append_take_drop_id drop_drop add.commute)
  moreover have "length (take m (drop d ms)) = m" using assms by simp
  ultimately show ?thesis by (metis accepted_append)
qed

lemma appended_step:
  assumes r: "appended n extra k clock ms (w - m) st2 \<lparr>writed = writed res + m, ignored = ignored res + (m - length acc)\<rparr> r"
    and m: "m \<le> w" "w \<le> length ms" and mv: "moved_on j st st2"
    and acc: "acc = accepted clock (st_past_time st) (length ms - w) (take m (drop (length ms - w) ms))"
    and total: "st_total st2 = st_total st + mset (map meas_stored acc)"
    and cur: "st_cur_values st2 = foldl writeValue (st_cur_values st) acc"
  shows "appended n extra (j + k) clock ms w st res r"
proof -
  have past: "st_past_time st2 = st_past_time st" using mv by (simp add: moved_on_def)
  let ?d = "length ms - w" and ?rest = "drop (length ms - (w - m)) ms"
  define acc2 where "acc2 = accepted clock (st_past_time st) (length ms - (w - m)) ?rest"
  have d: "length ms - (w - m) = ?d + m" using m by simp
  have lt: "length (take m (drop ?d ms)) = m" using m by simp
  have e: "accepted clock (st_past_time st) ?d (drop ?d ms) = acc @ acc2"
    unfolding acc acc2_def d using m by (intro accepted_split) simp
  have "length acc \<le> length (take m (drop ?d ms))" "length acc2 \<le> length ?rest"
    unfolding acc acc2_def by (rule length_accepted)+
  then have l: "length acc \<le> m" "length acc2 \<le> w - m" using lt m by simp_all
  show ?thesis
    using r l m(1) total cur moved_on_trans [OF mv] unfolding appended_def Let_def e past acc2_def [symmetric] by auto
qed

text \<open>One round of the loop, up to handing the cache over.\<close>

lemma fill_round:
  assumes inv: "st_inv n st (accepted clock (st_past_time st) (length ms - w) (drop (length ms - w) ms) @ extra)"
    and w: "w \<le> length ms" "w \<noteq> 0" and a: "st_cache st = Some a" and m: "m = min w (cur_room st)"
    and acc: "acc = accepted clock (st_past_time st) (length ms - w) (take m (drop (length ms - w) ms))"
  obtains st1 where
    "append_loop (Suc f) env clock ms w res st = bind_r (if m \<noteq> w then writeCache env st1 else Inr st1)
       (append_loop f env clock ms (w - m) \<lparr>writed = writed res + m, ignored = ignored res + (m - length acc)\<rparr>)"
    "st_inv n st1 (accepted clock (st_past_time st) (length ms - (w - m)) (drop (length ms - (w - m)) ms) @ extra)"
    "st_total st1 = st_total st + mset (map meas_stored acc)" "st_cur_values st1 = foldl writeValue (st_cur_values st) acc"
    "moved_on 0 st st1" "st_cache st1 = Some a" "stocked S k st \<Longrightarrow> stocked S k st1"
proof -
  let ?d = "length ms - w" and ?c = "st_heap st ! a"
  have hi: "heap_inv st" using inv by (simp add: st_inv_def)
  have al: "a < length (st_heap st)" "cache_inv ?c" "c_attached ?c" using heap_invD(4,10) [OF hi] a by auto
  have d: "length ms - (w - m) = ?d + m" using w(1) m by simp
  have mm: "m = min (length (drop ?d ms)) (cache_room ?c)" using m w(1) a by (simp add: cur_room_def)
  have acc0: "acc = accepted (\<lambda>i. clock (?d + i)) (st_past_time st) 0 (take m (drop ?d ms))" by (simp add: acc accepted_shift)
  from cache_append_many_ok [OF al(2) mm acc0, of "st_cur_values st"] obtain c where
    c: "cache_append_many (\<lambda>i. clock (?d + i)) ?c (st_cur_values st) (drop ?d ms) (st_past_time st) =
        Inr (c, foldl writeValue (st_cur_values st) acc, \<lparr>writed = m, ignored = m - length acc\<rparr>)"
      "cache_inv c" "cache_held c = cache_held ?c @ acc" "c_attached c = c_attached ?c" "c_sync c = c_sync ?c"
      "c_max_size c = c_max_size ?c" using al(3) by auto
  have "accepted clock (st_past_time st) ?d (drop ?d ms) = acc @ accepted clock (st_past_time st) (?d + m) (drop (?d + m) ms)"
    unfolding acc using w(1) m by (intro accepted_split) simp
  then have inv': "st_inv n st (acc @ accepted clock (st_past_time st) (?d + m) (drop (?d + m) ms) @ extra)" using inv by simp
  define st1 where "st1 = st\<lparr>st_heap := (st_heap st)[a := c], st_cur_values := foldl writeValue (st_cur_values st) acc\<rparr>"
  note f = filled_ok [OF inv' a c(2-6), of "foldl writeValue (st_cur_values st) acc", folded st1_def]
  show ?thesis
  proof (rule that [of st1])
    show "append_loop (Suc f) env clock ms w res st = bind_r (if m \<noteq> w then writeCache env st1 else Inr st1)
       (append_loop f env clock ms (w - m) \<lparr>writed = writed res + m, ignored = ignored res + (m - length acc)\<rparr>)"
      using w(2) a c(1) by (simp add: append_loop.simps [of "Suc f"] st1_def add_result_def Let_def)
    show "stocked S k st1" if "stocked S k st"
      using that c(6) f(3) by (auto simp: stocked_def st1_def nth_upd)
    show "moved_on 0 st st1" using c(6) by (auto simp: moved_on_def calm_def st1_def nth_upd)
  qed (use f d a in \<open>simp_all add: st1_def\<close>)
qed

lemma append_loop_ok:
  assumes srt: "std_sort MeasCmpByTime (e_sort env)"
  shows "w \<le> length ms \<Longrightarrow> st_inv n st (accepted clock (st_past_time st) (length ms - w) (drop (length ms - w) ms) @ extra) \<Longrightarrow>
    st_cache st = Some a \<Longrightarrow> stocked S k st \<Longrightarrow> w \<le> cur_room st + S * k \<Longrightarrow> k < fuel \<Longrightarrow>
    appended n extra k clock ms w st res (append_loop fuel env clock ms w res st)"
proof (induction k arbitrary: st a w fuel res rule: less_induct)
  case (less k)
  obtain f where f: "fuel = Suc f" "k \<le> f" using less.prems(6) by (cases fuel) auto
  have none: "appended n extra k clock ms 0 st' res' (append_loop g env clock ms 0 res' st')"
    if "st_inv n st' extra" "st_cache st' = Some b" for st' g res' b
    using that by (simp add: appended_def append_loop.simps moved_on_def)
  show ?case
  proof (cases "w = 0")
    case True
    then show ?thesis using none less.prems(2,3) by simp
  next
    case False
    define m where "m = min w (cur_room st)"
    define acc where "acc = accepted clock (st_past_time st) (length ms - w) (take m (drop (length ms - w) ms))"
    let ?res = "\<lparr>writed = writed res + m, ignored = ignored res + (m - length acc)\<rparr>"
    from fill_round [OF less.prems(2,1) False less.prems(3) m_def acc_def, of f env res S k] obtain st1 where
      r: "append_loop fuel env clock ms w res st = bind_r (if m \<noteq> w then writeCache env st1 else Inr st1) (append_loop f env clock ms (w - m) ?res)"
        "st_inv n st1 (accepted clock (st_past_time st) (length ms - (w - m)) (drop (length ms - (w - m)) ms) @ extra)"
        "st_total st1 = st_total st + mset (map meas_stored acc)" "st_cur_values st1 = foldl writeValue (st_cur_values st) acc"
        "moved_on 0 st st1" "st_cache st1 = Some a" "stocked S k st1"
      using less.prems(4) f(1) by metis
    have mw: "m \<le> w" by (simp add: m_def)
    show ?thesis
    proof (cases "m = w")
      case True
      then have "appended n extra k clock ms (w - m) st1 ?res (append_loop fuel env clock ms w res st)"
        using none [of st1 a ?res f] r(1,2,6) by simp
      from appended_step [OF this mw less.prems(1) r(5) acc_def r(3,4)] show ?thesis by simp
    next
      case False
      then have k: "m = cur_room st" "k \<noteq> 0" using less.prems(5) by (cases "k = 0"; simp add: m_def min_def split: if_splits)+
      then obtain k' where k': "k = Suc k'" by (cases k) auto
      from stocked_writeCache [OF srt r(2,6), of S k'] r(7) k' obtain st2 b where
        s: "writeCache env st1 = Inr st2" "st_inv n st2 (accepted clock (st_past_time st) (length ms - (w - m)) (drop (length ms - (w - m)) ms) @ extra)"
          "st_total st2 = st_total st1" "st_cache st2 = Some b" "kept st1 st2" "stocked S k' st2" "S \<le> cur_room st2" "moved_on 1 st1 st2" by metis
      have cur: "st_cur_values st2 = st_cur_values st1" using s(5) by (simp add: kept_def)
      have mv: "moved_on 1 st st2" using moved_on_trans [OF r(5) s(8)] by simp
      then have past: "st_past_time st2 = st_past_time st" by (simp add: moved_on_def)
      have "appended n extra k' clock ms (w - m) st2 ?res (append_loop f env clock ms (w - m) ?res st2)"
      proof (rule less.IH [of k'])
        show "k' < k" "k' < f" using k' f(2) by simp_all
        show "w - m \<le> length ms" "w - m \<le> cur_room st2 + S * k'" using less.prems(1,5) k k' s(7) by auto
      qed (use s past in simp_all)
      then have "appended n extra k' clock ms (w - m) st2 ?res (append_loop fuel env clock ms w res st)" using r(1) s(1) False by simp
      from appended_step [OF this mw less.prems(1) mv acc_def] show ?thesis by (simp add: s(3) r(3,4) cur k')
    qed
  qed
qed

text \<open>
  The single append: one round when the check refuses the element or the cache has room. Otherwise the cache is handed over and the
  check is made again, at a later time, for the cache taken instead.
\<close>

definition taken :: "(nat \<Rightarrow> Time) \<Rightarrow> storage \<Rightarrow> meas \<Rightarrow> meas list" where
  "taken clock st m =
     (if checkPastTime (clock 0) (m_time m) (st_past_time st) \<and>
         (cur_room st \<noteq> 0 \<or> checkPastTime (clock 1) (m_time m) (st_past_time st)) then [m] else [])"

lemma append_one_round:
  assumes a: "st_cache st = Some a" and inv: "st_inv n st (acc @ extra)" and room: "cur_room st \<noteq> 0"
    and acc: "acc = (if checkPastTime (clock k) (m_time m) (st_past_time st) then [m] else [])"
  obtains st' where "append_one_loop (Suc f) env clock k m st = Inr (st', \<lparr>writed = 1, ignored = 1 - length acc\<rparr>)" "st_inv n st' extra"
    "st_total st' = st_total st + mset (map meas_stored acc)" "st_cur_values st' = st_cur_values st" "st_cache st' = Some a" "moved_on 0 st st'"
proof (cases "checkPastTime (clock k) (m_time m) (st_past_time st)")
  case True
  have hi: "heap_inv st" using inv by (simp add: st_inv_def)
  have al: "a < length (st_heap st)" "cache_inv (st_heap st ! a)" using heap_invD(4,10) [OF hi] a by auto
  have "0 < cache_room (st_heap st ! a)" using room a by (simp add: cur_room_def)
  from cache_append_ok [OF al(2) this True] obtain c where
    c: "cache_append (clock k) (st_heap st ! a) m (st_past_time st) = Inr (c, \<lparr>writed = 1, ignored = 0\<rparr>)" "cache_inv c"
      "cache_held c = cache_held (st_heap st ! a) @ [m]" "c_attached c = c_attached (st_heap st ! a)" "c_sync c = c_sync (st_heap st ! a)"
      "c_max_size c = c_max_size (st_heap st ! a)" by blast
  have inv': "st_inv n st ([m] @ extra)" using inv acc True by simp
  define st' where "st' = st\<lparr>st_heap := (st_heap st)[a := c]\<rparr>"
  have e: "st' = st\<lparr>st_heap := (st_heap st)[a := c], st_cur_values := st_cur_values st\<rparr>" by (simp add: st'_def)
  note f = filled_ok [OF inv' a c(2-6), of "st_cur_values st", folded e]
  have "moved_on 0 st st'" using c(6) by (auto simp: moved_on_def calm_def st'_def nth_upd)
  then show ?thesis using that [of st'] f c(1) a acc True by (simp add: Let_def) (simp add: st'_def)
next
  case False
  have "st\<lparr>st_heap := (st_heap st)[a := st_heap st ! a]\<rparr> = st" by simp
  then show ?thesis using that [of st] inv a acc False by (simp add: cache_append_refused Let_def moved_on_def)
qed

lemma storage_append_ok:
  assumes srt: "std_sort MeasCmpByTime (e_sort env)" and a: "st_cache st = Some a" and inv: "st_inv n st (acc @ extra)"
    and acc: "acc = taken clock st m" and sup: "stocked 1 1 st" and f: "2 \<le> fuel"
  shows "\<exists>st' b. storage_append fuel env clock st m = Inr (st', \<lparr>writed = 1, ignored = 1 - length acc\<rparr>) \<and> st_inv n st' extra \<and>
    st_total st' = st_total st + mset (map meas_stored acc) \<and> st_cur_values st' = st_cur_values st \<and> st_cache st' = Some b \<and> moved_on 1 st st'"
proof -
  obtain g where g: "fuel = Suc (Suc g)" using f by (metis Suc_le_D numeral_2_eq_2 Suc_le_mono)
  consider (room) "cur_room st \<noteq> 0" | (refused) "cur_room st = 0" "\<not> checkPastTime (clock 0) (m_time m) (st_past_time st)"
    | (full) "cur_room st = 0" "checkPastTime (clock 0) (m_time m) (st_past_time st)" by blast
  then show ?thesis
  proof cases
    case room
    have acc': "acc = (if checkPastTime (clock 0) (m_time m) (st_past_time st) then [m] else [])" using acc room by (simp add: taken_def)
    obtain st' where "append_one_loop (Suc (Suc g)) env clock 0 m st = Inr (st', \<lparr>writed = 1, ignored = 1 - length acc\<rparr>)" "st_inv n st' extra"
      "st_total st' = st_total st + mset (map meas_stored acc)" "st_cur_values st' = st_cur_values st" "st_cache st' = Some a" "moved_on 0 st st'"
      by (rule append_one_round [OF a inv room, of clock 0 m]) (use acc' in auto)
    then show ?thesis using moved_on_mono [of 0 st st' 1] by (auto simp: storage_append_def g)
  next
    case refused
    have "st\<lparr>st_heap := (st_heap st)[a := st_heap st ! a]\<rparr> = st" by simp
    then show ?thesis using refused inv acc a
      by (simp add: storage_append_def g cache_append_refused taken_def Let_def moved_on_def)
  next
    case full
    have hi: "heap_inv st" using inv by (simp add: st_inv_def)
    have ci: "cache_inv (st_heap st ! a)" using heap_invD(4,10) [OF hi] a by auto
    have "cache_isFull (st_heap st ! a)" using full(1) a cache_isFull_room [OF ci] by (simp add: cur_room_def)
    moreover have "st\<lparr>st_heap := (st_heap st)[a := st_heap st ! a]\<rparr> = st" by simp
    ultimately have step: "storage_append fuel env clock st m = bind_r (writeCache env st) (append_one_loop (Suc g) env clock 1 m)"
      using full(2) a by (simp add: storage_append_def g cache_append_refused Let_def)
    from stocked_writeCache [OF srt inv a, of 1 0] sup obtain st1 b where
      s: "writeCache env st = Inr st1" "st_inv n st1 (acc @ extra)" "st_total st1 = st_total st" "st_cache st1 = Some b"
        "kept st st1" "1 \<le> cur_room st1" "moved_on 1 st st1" by (metis One_nat_def)
    have past: "st_past_time st1 = st_past_time st" "st_cur_values st1 = st_cur_values st" using s(5) by (simp_all add: kept_def)
    have acc': "acc = (if checkPastTime (clock 1) (m_time m) (st_past_time st1) then [m] else [])"
      using acc full by (simp add: taken_def past)
    have room: "cur_room st1 \<noteq> 0" using s(6) by simp
    obtain st' where r: "append_one_loop (Suc g) env clock 1 m st1 = Inr (st', \<lparr>writed = 1, ignored = 1 - length acc\<rparr>)" "st_inv n st' extra"
      "st_total st' = st_total st1 + mset (map meas_stored acc)" "st_cur_values st' = st_cur_values st1" "st_cache st' = Some b" "moved_on 0 st1 st'"
      by (rule append_one_round [OF s(4,2) room, of clock 1 m]) (use acc' in auto)
    from moved_on_trans [OF s(7) r(6)] show ?thesis using step s(1,3) r(1-5) past(2) by auto
  qed
qed

section \<open>Flushing and pausing\<close>

lemma run_keeps_empty: "w_data w = [] \<Longrightarrow> w_data (worker_run j w) = []"
proof (induction j arbitrary: w)
  case (Suc j)
  have "w_data w' = []" if "worker_next w = Some w'" for w'
    using that Suc.prems by (cases "w_pc w") (auto simp: worker_next_def split: if_splits)
  then show ?case using Suc by (auto split: option.split)
qed simp

lemma unlocked_idle: "worker_inv w \<Longrightarrow> w_thread_lock w = Nobody \<Longrightarrow> in_flight w = []"
  by (auto simp: worker_inv_def in_flight_def holds_lock_def split: thread_pc.splits)

text \<open>A storage that is flushed and paused has everything on the pages.\<close>

lemma flush_pause_ok:
  assumes srt: "std_sort MeasCmpByTime (e_sort env)" and inv: "st_inv n st extra"
    and fl: "flush_and_stop env st = Inr st1" and pa: "storage_pause env st1 = Inr st2"
  shows "mset (disk_log (wd_disk (st_world st2))) = st_total st" "served (st_writer st2) = []" "cur_held st2 = []"
    "w_thread_lock (st_writer st2) = Client" "st_inv n st2 extra"
proof -
  obtain st0 where w: "writeCache env st = Inr st0" "wait_for env idle (st_sched st0) st0 = Inr st1"
    using fl by (auto simp: flush_and_stop_def bind_r_eq_Inr)
  from writeCache_ok [OF srt inv w(1)] have i0: "st_inv n st0 extra" "st_total st0 = st_total st" "cur_held st0 = []" by auto
  from wait_for_ok [OF srt i0(1) refl w(2)] obtain sti where
    "idle sti = Some st1" "st_inv n sti extra" "st_total sti = st_total st0" "cur_held sti = cur_held st0" by blast
  then have i1: "st_inv n st1 extra" "st_total st1 = st_total st" "cur_held st1 = []" "w_data (st_writer st1) = []"
    using i0 by (auto simp: idle_def isBusy_def split: if_splits)
  from wait_for_ok [OF srt i1(1) refl pa [unfolded storage_pause_def]] obtain st3 j where
    p: "try_pause st3 = Some st2" "st_inv n st3 extra" "st_total st3 = st_total st1" "cur_held st3 = cur_held st1"
      "st_writer st3 = worker_run j (st_writer st1)" by blast
  then obtain w2 where w2: "pause_work (st_writer st3) = Some w2" "st2 = st3\<lparr>st_writer := w2\<rparr>" by (auto simp: try_pause_def)
  have wi: "worker_inv (st_writer st3)" using p(2) by (simp add: st_inv_def heap_inv_def Let_def)
  have lock: "w_thread_lock (st_writer st3) = Nobody" "w2 = (st_writer st3)\<lparr>w_thread_lock := Client\<rparr>"
    using w2(1) by (auto simp: pause_work_def split: if_splits)
  have sv: "served (st_writer st3) = []"
    using unlocked_idle [OF wi lock(1)] run_keeps_empty [OF i1(4)] p(5) by (simp add: served_def)
  have sw: "served w2 = served (st_writer st3)" using lock(2) by (simp add: served_def in_flight_def)
  show "served (st_writer st2) = []" "w_thread_lock (st_writer st2) = Client" using sv sw w2(2) lock(2) by simp_all
  show "cur_held st2 = []" using w2(2) p(4) i1(3) by simp
  show "mset (disk_log (wd_disk (st_world st2))) = st_total st"
    using p(3) i1(2) sv p(4) i1(3) by (simp add: st_total_def pending_def w2(2))
  show "st_inv n st2 extra"
    using p(2) sw worker_inv_pause(1) [OF wi w2(1)] by (auto simp: st_inv_def heap_inv_def Let_def w2(2) writer_upd)
qed

lemma wait_for_returns:
  assumes srt: "std_sort MeasCmpByTime (e_sort env)"
    and act: "\<And>st. awake (st_writer st) \<Longrightarrow> w_pc (st_writer st) = Waiting \<Longrightarrow> act st \<noteq> None"
  shows "st_inv n st extra \<Longrightarrow> awake (st_writer st) \<Longrightarrow> st_sched st = ks @ rest \<Longrightarrow> ks \<noteq> [] \<Longrightarrow>
    steps_left (st_writer st) \<le> sum_list ks \<Longrightarrow>
    \<exists>st1 st2 ks'. wait_for env act (ks @ rest) st = Inr st2 \<and> act st1 = Some st2 \<and> st_inv n st1 extra \<and> awake (st_writer st1) \<and>
      st_sched st1 = ks' @ rest \<and> steps_left (st_writer st1) \<le> sum_list ks'"
proof (induction ks arbitrary: st)
  case (Cons k ks)
  define st0 where "st0 = st\<lparr>st_sched := ks @ rest\<rparr>"
  have i0: "st_inv n st0 extra" unfolding st0_def by (rule st_inv_sched [OF Cons.prems(1)]) (simp add: Cons.prems(3))
  from writer_run_ok [OF srt i0, of k] obtain st1 where
    s: "writer_run env k st0 = Inr st1" "st_writer st1 = worker_run k (st_writer st)" "st_inv n st1 extra" "same_client st0 st1"
    by (auto simp: st0_def)
  have f: "st_sched st1 = ks @ rest" using s(4) by (simp add: same_client_def st0_def)
  have w: "awake (st_writer st1)" "steps_left (st_writer st1) \<le> sum_list ks"
    using awake_progress [OF Cons.prems(2), of k] s(2) Cons.prems(5) by auto
  show ?case
  proof (cases "act st1")
    case None
    then have "ks \<noteq> []" using act [OF w(1)] awake_done [OF w(1)] w(2) by auto
    from Cons.IH [OF s(3) w(1) f this w(2)] show ?thesis using None s(1) by (simp add: st0_def)
  next
    case (Some st2)
    then show ?thesis using s w f by (intro exI [of _ st1] exI [of _ st2] exI [of _ ks]) (simp add: st0_def)
  qed
qed simp

lemma flush_pause_returns:
  assumes srt: "std_sort MeasCmpByTime (e_sort env)" and inv: "st_inv n st extra" and a: "st_cache st = Some a" and fr: "free_set st \<noteq> {}"
    and w: "awake (st_writer st)" "w_pc (st_writer st) \<noteq> Enter_wait"
    and ks: "st_sched st = ks @ [k]" "2 \<le> length ks" "steps_left (st_writer st) + 8 \<le> sum_list ks"
  obtains st1 st2 where "flush_and_stop env st = Inr st1" "storage_pause env st1 = Inr st2"
proof -
  obtain k1 k2 ks2 where "ks = k1 # k2 # ks2" using ks(2) by (auto simp: Suc_le_length_iff numeral_2_eq_2)
  then obtain ks1 where k1: "ks = k1 # ks1" "ks1 \<noteq> []" by blast
  have sched: "st_sched st = k1 # ks1 @ [k]" using ks(1) k1(1) by simp
  from writeCache_returns [OF srt inv a fr sched] obtain st0 where
    c: "writeCache env st = Inr st0" "st_sched st0 = ks1 @ [k] \<and> st_writer st0 = worker_run k1 (worker_add a (st_writer st)) \<or> st0 = st" by metis
  from writeCache_ok [OF srt inv c(1)] have i0: "st_inv n st0 extra" by blast
  have "\<exists>ks0. ks0 \<noteq> [] \<and> st_sched st0 = ks0 @ [k] \<and> awake (st_writer st0) \<and> steps_left (st_writer st0) \<le> sum_list ks0"
    using c(2)
  proof
    assume "st0 = st"
    then show ?thesis using ks w k1 by (intro exI [of _ ks]) auto
  next
    assume "st_sched st0 = ks1 @ [k] \<and> st_writer st0 = worker_run k1 (worker_add a (st_writer st))"
    then show ?thesis using k1 awake_progress [OF awake_add(1) [OF w], of k1 a] awake_add(2) [OF w, of a] ks(3)
      by (intro exI [of _ ks1]) auto
  qed
  then obtain ks0 where s0: "ks0 \<noteq> []" "st_sched st0 = ks0 @ [k]" "awake (st_writer st0)" "steps_left (st_writer st0) \<le> sum_list ks0" by blast
  have "idle s \<noteq> None" if "awake (st_writer s)" "w_pc (st_writer s) = Waiting" for s
    using that by (simp add: idle_def isBusy_def awake_def)
  from wait_for_returns [where act = idle, OF srt this i0 s0(3,2,1,4)] obtain sti st1 ks2 where
    r: "wait_for env idle (ks0 @ [k]) st0 = Inr st1" "idle sti = Some st1" "st_inv n sti extra" "awake (st_writer sti)"
      "st_sched sti = ks2 @ [k]" "steps_left (st_writer sti) \<le> sum_list ks2" by blast
  have e: "st1 = sti" using r(2) by (simp add: idle_def split: if_splits)
  have pause: "try_pause s \<noteq> None" if "awake (st_writer s)" "w_pc (st_writer s) = Waiting" for s
    using awake_lock [OF that(1)] that(2) by (simp add: try_pause_def pause_work_def holds_lock_def)
  have "st_sched sti = (ks2 @ [k]) @ []" "ks2 @ [k] \<noteq> []" "steps_left (st_writer sti) \<le> sum_list (ks2 @ [k])"
    using r(5,6) by simp_all
  from wait_for_returns [where act = try_pause, OF srt pause r(3,4) this] obtain st2 where "wait_for env try_pause ((ks2 @ [k]) @ []) sti = Inr st2" by blast
  then show ?thesis using that [of st1 st2] c(1) r(1,5) s0(2) e by (simp add: flush_and_stop_def storage_pause_def)
qed

lemma storage_append_many_ok:
  assumes "std_sort MeasCmpByTime (e_sort env)" and "st_cache st = Some a"
    and "acc = accepted clock (st_past_time st) 0 ms" and "st_inv n st (acc @ extra)"
    and "\<forall>b < length (st_heap st). S \<le> c_max_size (st_heap st ! b)"
    and "length ms \<le> S * k" and "k < card (free_set st)" and "k < length (st_sched st)" and "k < fuel"
  shows "\<exists>st' b. storage_append_many fuel env clock st ms = Inr (st', \<lparr>writed = length ms, ignored = length ms - length acc\<rparr>) \<and>
    st_total st' = st_total st + mset (map meas_stored acc) \<and> st_cur_values st' = foldl writeValue (st_cur_values st) acc \<and>
    st_inv n st' extra \<and> st_cache st' = Some b \<and> moved_on (Suc k) st st'"
proof -
  have sup: "stocked S (Suc k) st" "stocked S k st" using assms(5,7,8) by (auto simp: stocked_def)
  obtain st1 b where w: "(if cache_isFull (st_heap st ! a) then writeCache env st else Inr st) = Inr st1" "st_inv n st1 (acc @ extra)"
      "st_total st1 = st_total st" "st_cache st1 = Some b" "st_cur_values st1 = st_cur_values st" "stocked S k st1" "moved_on 1 st st1"
  proof (cases "cache_isFull (st_heap st ! a)")
    case True
    obtain st1 b where "writeCache env st = Inr st1" "st_inv n st1 (acc @ extra)" "st_total st1 = st_total st" "st_cache st1 = Some b"
      "kept st st1" "stocked S k st1" "moved_on 1 st st1"
      by (rule stocked_writeCache [OF assms(1,4,2) sup(1)])
    then show ?thesis using that [of st1 b] True by (simp add: kept_def)
  next
    case False
    then show ?thesis using that [of st a] sup(2) assms(2,4) by (simp add: moved_on_def)
  qed
  have past: "st_past_time st1 = st_past_time st" using w(7) by (simp add: moved_on_def)
  have "appended n extra k clock ms (length ms) st1 empty_result (append_loop fuel env clock ms (length ms) empty_result st1)"
    by (rule append_loop_ok [OF assms(1) _ _ w(4,6)]) (use w(2) past assms(3,6,9) in simp_all)
  then obtain st' b' where r: "append_loop fuel env clock ms (length ms) empty_result st1 =
      Inr (st', \<lparr>writed = length ms, ignored = length ms - length acc\<rparr>)" "st_inv n st' extra"
      "st_total st' = st_total st1 + mset (map meas_stored acc)" "st_cur_values st' = foldl writeValue (st_cur_values st1) acc"
      "st_cache st' = Some b'" "moved_on k st1 st'"
    by (auto simp: appended_def empty_result_def past assms(3) Let_def)
  from moved_on_trans [OF w(7) r(6)] have "moved_on (Suc k) st st'" by simp
  then show ?thesis using r w(1,3,5) assms(2) by (simp add: storage_append_many_def)
qed

section \<open>Properties\<close>

text \<open>
  C5. Appending an array to a storage returns, whatever the writer thread does meanwhile, and reports every element as
  written and those that fail the past-time check as ignored. The storage (its pages, the caches handed over and the current cache
  taken together, as a multiset) gains exactly the accepted measurements, the current values are updated by
  exactly those in their order, and the invariant holds again. The pool needs a free cache for every \<open>S\<close> elements and
  one more.
\<close>

theorem storage_append_many_total:
  assumes "std_sort MeasCmpByTime (e_sort env)" and "st_cache st = Some a"
    and "acc = accepted clock (st_past_time st) 0 ms" and "st_inv n st (acc @ extra)"
    and "\<forall>b < length (st_heap st). S \<le> c_max_size (st_heap st ! b)"
    and "length ms \<le> S * k" and "k < card (free_set st)" and "k < length (st_sched st)" and "k < fuel"
  shows "\<exists>st'. storage_append_many fuel env clock st ms = Inr (st', \<lparr>writed = length ms, ignored = length ms - length acc\<rparr>) \<and>
    st_total st' = st_total st + mset (map meas_stored acc) \<and> st_cur_values st' = foldl writeValue (st_cur_values st) acc \<and>
    st_inv n st' extra"
  using storage_append_many_ok [OF assms] by blast

text \<open>A storage with four caches for two measurements each, over the pages of \<open>wd\<close>.\<close>

definition small_storage :: "nat list \<Rightarrow> world \<Rightarrow> storage" where
  "small_storage sched wd = \<lparr>st_path = ''db'', st_heap = replicate 3 (new_Cache 2) @ [cache_setStorage (new_Cache 2)], st_cache = Some 3,
     st_writer = worker_start (new_worker False False), st_pool = snd (new_CachePool [] 4 2), st_cur_values = (\<lambda>_. None),
     st_past_time = 0, st_closed = False, st_world = wd, st_sched = sched\<rparr>"

lemma new_Cache_max: "c_max_size (new_Cache n) = n" "\<not> c_sync (new_Cache n)"
  by (simp_all add: new_Cache_def)

lemma small_heap: "b < 4 \<Longrightarrow> (replicate 3 (new_Cache 2) @ [cache_setStorage (new_Cache 2)]) ! b = (if b = 3 then cache_setStorage (new_Cache 2) else new_Cache 2)"
  by (auto simp: nth_append)

lemma small_storage_fields:
  "cur_held (small_storage sched wd) = []" "pending (small_storage sched wd) = []" "served (st_writer (small_storage sched wd)) = []"
  "free_set (small_storage sched wd) = {0, 1, 2}" "awake (st_writer (small_storage sched wd))"
  "steps_left (st_writer (small_storage sched wd)) = 3" "w_pc (st_writer (small_storage sched wd)) = At_entry"
proof -
  show s: "served (st_writer (small_storage sched wd)) = []" "w_pc (st_writer (small_storage sched wd)) = At_entry"
    by (simp_all add: small_storage_def served_def in_flight_def worker_start_def new_worker_def)
  show "pending (small_storage sched wd) = []" by (simp add: pending_def s)
  show "cur_held (small_storage sched wd) = []" by (simp add: small_storage_def cur_held_def small_heap)
  have "[0..<4] = [0, 1, 2, 3 :: nat]" by (simp add: eval_nat_numeral)
  then show "free_set (small_storage sched wd) = {0, 1, 2}"
    by (auto simp: free_set_def small_storage_def new_CachePool_def init_pool_def small_heap new_Cache_max)
  show "awake (st_writer (small_storage sched wd))" "steps_left (st_writer (small_storage sched wd)) = 3"
    by (simp_all add: small_storage_def awake_def steps_left_def worker_start_def new_worker_def worker_inv_def in_flight_def holds_lock_def)
qed

lemma small_storage_inv:
  assumes "writer_ok 10000 wd pm name pg" and "length ms \<le> index_room (pg_index pg)"
    and "m_time ` set ms \<inter> r_minTime ` records (pg_index pg) = {}" and "length (d_files (wd_disk wd)) < 100" and "\<forall>m \<in> set ms. meas8 m" and "distinct (map m_time ms)" and "length ms \<le> 4"
    and "length sched < 1000"
  shows "st_inv 10000 (small_storage sched wd) ms"
proof -
  let ?st = "small_storage sched wd"
  note f = small_storage_fields [of sched wd]
  have "heap_inv ?st"
    unfolding heap_inv_def Let_def f(3)
  proof (intro conjI allI ballI impI)
    show "worker_inv (st_writer ?st)" using f(5) by (simp add: awake_def)
    show "pool_inv (st_heap ?st) (st_pool ?st)" "\<not> cp_dynamic_size (st_pool ?st)"
      "- (2 ^ 31) < cp_recalc_period (st_pool ?st) - int (length (st_sched ?st))"
      using assms(8) by (simp_all add: small_storage_def new_CachePool_def init_pool_def pool_inv_def to_int_def atLeast0LessThan)
    fix b assume "b < length (st_heap ?st)"
    then show "cache_inv (st_heap ?st ! b)" "0 < c_max_size (st_heap ?st ! b)" "c_sync (st_heap ?st ! b) \<longleftrightarrow> b \<in> set []"
      by (simp_all add: small_storage_def small_heap cache_flags_inv new_Cache_inv new_Cache_max)
  next
    fix b assume "b \<in> set (cp_caches (st_pool ?st))"
    then show "cache_held (st_heap ?st ! b) = []"
      by (simp add: small_storage_def new_CachePool_def init_pool_def small_heap)
  next
    fix b assume "st_cache ?st = Some b"
    then show "b < length (st_heap ?st)" "\<not> c_sync (st_heap ?st ! b)" "c_attached (st_heap ?st ! b)"
      by (auto simp: small_storage_def small_heap new_Cache_max)
  qed simp_all
  moreover have "budget ?st ms = length ms" "st_world ?st = wd" by (simp_all add: budget_def f) (simp add: small_storage_def)
  then have "data_inv 10000 ?st ms"
    using assms unfolding data_inv_def Let_def f
    by (simp add: new_room_10000 indexCacheSize_def) (intro exI conjI, assumption, simp_all)
  ultimately show ?thesis by (simp add: st_inv_def)
qed

lemma small_storage_client:
  "st_past_time (small_storage sched wd) = 0" "st_cache (small_storage sched wd) = Some 3"
  "st_sched (small_storage sched wd) = sched"
  "\<forall>b < length (st_heap (small_storage sched wd)). 2 \<le> c_max_size (st_heap (small_storage sched wd) ! b)"
  "st_world (small_storage sched wd) = wd"
  by (auto simp: small_storage_def small_heap new_Cache_max)

lemma small_storage_start:
  assumes "\<forall>m \<in> set ms. meas8 m" and "distinct (map m_time ms)" and "length ms \<le> 4" and "length sched < 1000"
  obtains wd where "st_inv 10000 (small_storage sched wd) ms" "st_total (small_storage sched wd) = {#}"
proof -
  obtain wd pm pg where w: "writer_ok 10000 wd pm ''a'' pg" "index_room (pg_index pg) = new_room 10000" "records (pg_index pg) = {}"
      "disk_log (wd_disk wd) = []" "length (d_files (wd_disk wd)) = 1"
    by (rule fresh_writer [of 10000]) auto
  have "st_inv 10000 (small_storage sched wd) ms"
    by (rule small_storage_inv [OF w(1) _ _ _ assms]) (use w(2,3,5) assms(3) in \<open>simp_all add: new_room_10000\<close>)
  moreover have "st_total (small_storage sched wd) = {#}"
    using w(4) small_storage_fields(1,2) [of sched wd] by (simp add: st_total_def small_storage_client(5))
  ultimately show ?thesis by (rule that)
qed

text \<open>The same storage over a page with one measurement.\<close>

lemma small_storage_one:
  assumes "meas8 m" and "length sched < 1000"
  obtains wd where "st_inv 10000 (small_storage sched wd) []" "st_total (small_storage sched wd) = {#meas_stored m#}"
proof -
  let ?c = "new_Cache 1\<lparr>c_size := 1, c_index := 1, c_meases := [m]\<rparr>"
  obtain wd pm pg where w: "writer_ok 10000 wd pm ''a'' pg" "index_room (pg_index pg) = new_room 10000" "records (pg_index pg) = {}"
      "disk_log (wd_disk wd) = []" "length (d_files (wd_disk wd)) = 1"
    by (rule fresh_writer [of 10000]) auto
  have "cache_fits 10000 pg ?c"
    using w(2,3) assms(1) by (simp add: cache_fits_def cache_inv_def cache_held_def new_Cache_def new_room_10000 indexCacheSize_def)
  from AsyncWriter_call_ok [OF std_sort_exists w(1) _ _ this, of "\<lambda>_ _. 7"] w(4,5) obtain wd' pm' name' pg' where
    r: "writer_ok 10000 wd' pm' name' pg'" "mset (disk_log (wd_disk wd')) = {#meas_stored m#}" "length (d_files (wd_disk wd')) \<le> 3"
    by (auto simp: cache_held_def)
  have "st_inv 10000 (small_storage sched wd') []" by (rule small_storage_inv [OF r(1)]) (use r(3) assms(2) in simp_all)
  moreover have "st_total (small_storage sched wd') = {#meas_stored m#}"
    using r(2) small_storage_fields(1,2) [of sched wd'] by (simp add: st_total_def small_storage_client(5))
  ultimately show ?thesis by (rule that)
qed

theorem storage_append_many_total_witness:
  "\<exists>env wd st'. storage_append_many 3 env (\<lambda>_. 9) (small_storage [0, 5, 0] wd)
      (map (\<lambda>t. empty_meas\<lparr>m_size := 8, m_time := t, m_id := 7\<rparr>) [3, 1, 2]) = Inr (st', \<lparr>writed = 3, ignored = 0\<rparr>) \<and>
    st_total st' = mset (map (\<lambda>t. meas_stored (empty_meas\<lparr>m_size := 8, m_time := t, m_id := 7\<rparr>)) [3, 1, 2])"
proof -
  let ?m = "\<lambda>t. empty_meas\<lparr>m_size := 8, m_time := t, m_id := 7\<rparr>" and ?sched = "[0, 5, 0]"
  let ?env = "\<lparr>e_sort = sort_key m_time, e_sort_pages = id, e_time = \<lambda>_ _. 7\<rparr>" and ?ms = "map ?m [3, 1, 2]"
  obtain wd where w: "st_inv 10000 (small_storage ?sched wd) ?ms" "st_total (small_storage ?sched wd) = {#}"
    by (rule small_storage_start [of ?ms ?sched]) (simp_all add: sample_meas8)
  let ?st = "small_storage ?sched wd"
  note f = small_storage_client [of ?sched wd]
  have srt: "std_sort MeasCmpByTime (e_sort ?env)" by (simp add: std_sort_exists)
  have acc: "?ms = accepted (\<lambda>_. 9) (st_past_time ?st) 0 ?ms" unfolding f(1) by (rule accepted_all [symmetric])
  have "\<exists>st'. storage_append_many 3 ?env (\<lambda>_. 9) ?st ?ms = Inr (st', \<lparr>writed = length ?ms, ignored = length ?ms - length ?ms\<rparr>) \<and>
    st_total st' = st_total ?st + mset (map meas_stored ?ms) \<and> st_cur_values st' = foldl writeValue (st_cur_values ?st) ?ms \<and>
    st_inv 10000 st' []"
    by (rule storage_append_many_total [OF srt f(2) acc _ f(4), of _ _ 2 3]) (use w(1) in \<open>simp_all add: small_storage_fields(4) f(3)\<close>)
  then show ?thesis unfolding w(2) by (intro exI [of _ ?env] exI [of _ wd]) (auto simp: numeral_3_eq_3)
qed

text \<open>
  C6. Appending a single measurement returns, whatever the writer thread does meanwhile, when one cache of the pool is free. The storage gains the
  measurement exactly if the past-time check accepts it, at the first attempt or, if the current cache was full and had to be handed over,
  at both; otherwise it is reported as ignored. Unlike the append of an array it leaves the current values as they are.
\<close>

theorem storage_append_total:
  assumes "std_sort MeasCmpByTime (e_sort env)" and "st_cache st = Some a" and "st_inv n st (taken clock st m @ extra)"
    and "stocked 1 1 st" and "2 \<le> fuel"
  shows "\<exists>st'. storage_append fuel env clock st m = Inr (st', \<lparr>writed = 1, ignored = 1 - length (taken clock st m)\<rparr>) \<and>
    st_total st' = st_total st + mset (map meas_stored (taken clock st m)) \<and> st_cur_values st' = st_cur_values st \<and> st_inv n st' extra"
  using storage_append_ok [OF assms(1-3) refl assms(4,5)] by blast

theorem storage_append_total_witness:
  "\<exists>env wd st'. storage_append 2 env (\<lambda>_. 9) (small_storage [4] wd) (empty_meas\<lparr>m_size := 8, m_time := 3, m_id := 7\<rparr>) =
      Inr (st', \<lparr>writed = 1, ignored = 0\<rparr>) \<and>
    st_total st' = {#meas_stored (empty_meas\<lparr>m_size := 8, m_time := 3, m_id := 7\<rparr>)#} \<and> st_cur_values st' 7 = None"
proof -
  let ?m = "empty_meas\<lparr>m_size := 8, m_time := 3, m_id := 7\<rparr>"
  let ?env = "\<lparr>e_sort = sort_key m_time, e_sort_pages = id, e_time = \<lambda>_ _. 7\<rparr>"
  obtain wd where w: "st_inv 10000 (small_storage [4] wd) [?m]" "st_total (small_storage [4] wd) = {#}"
    by (rule small_storage_start [of "[?m]" "[4]"]) (simp_all add: sample_meas8)
  let ?st = "small_storage [4] wd"
  note f = small_storage_client [of "[4]" wd]
  have srt: "std_sort MeasCmpByTime (e_sort ?env)" by (simp add: std_sort_exists)
  have t: "taken (\<lambda>_. 9) ?st ?m = [?m]" by (simp add: taken_def f(1) checkPastTime_def)
  have "stocked 1 1 ?st" using f(4) by (auto simp: stocked_def small_storage_fields(4) f(3) intro: order_trans [of 1 2])
  then have "\<exists>st'. storage_append 2 ?env (\<lambda>_. 9) ?st ?m = Inr (st', \<lparr>writed = 1, ignored = 1 - length (taken (\<lambda>_. 9) ?st ?m)\<rparr>) \<and>
    st_total st' = st_total ?st + mset (map meas_stored (taken (\<lambda>_. 9) ?st ?m)) \<and> st_cur_values st' = st_cur_values ?st \<and> st_inv 10000 st' []"
    by (intro storage_append_total [OF srt f(2)]) (use w(1) in \<open>simp_all add: t\<close>)
  moreover have "st_cur_values ?st 7 = None" by (simp add: small_storage_def)
  ultimately show ?thesis unfolding t w(2) by (intro exI [of _ ?env] exI [of _ wd]) auto
qed

text \<open>
  C8. The writer thread cannot go wrong: from a well-formed state of the storage any number of its steps, calls that sort a cache and write it over
  several pages included, ends without an exception, a failed assertion or undefined behaviour in a well-formed state again. The
  steps neither lose nor invent a measurement and do not touch the client's cache, its pool, the current values or the past time.
\<close>

theorem writer_thread_sound:
  assumes "std_sort MeasCmpByTime (e_sort env)" and "st_inv n st extra"
  shows "\<exists>st'. writer_run env k st = Inr st' \<and> st_inv n st' extra \<and> st_total st' = st_total st \<and> cur_held st' = cur_held st \<and>
    st_cache st' = st_cache st \<and> st_pool st' = st_pool st \<and> st_cur_values st' = st_cur_values st \<and> st_past_time st' = st_past_time st"
proof -
  from writer_run_ok [OF assms, of k] obtain st' where
    s: "writer_run env k st = Inr st'" "st_inv n st' extra" "st_total st' = st_total st" "same_client st st'" by blast
  moreover have "cur_held st' = cur_held st" using same_client_cur_held [OF _ s(4)] assms(2) by (simp add: st_inv_def)
  ultimately show ?thesis by (auto simp: same_client_def)
qed

theorem writer_thread_sound_witness:
  "\<exists>env wd st'. writer_run env 9 (small_storage [] wd) = Inr st' \<and> st_total st' = {#meas_stored (empty_meas\<lparr>m_size := 8, m_time := 3, m_id := 7\<rparr>)#} \<and>
    st_cache st' = Some 3"
proof -
  let ?m = "empty_meas\<lparr>m_size := 8, m_time := 3, m_id := 7\<rparr>" and ?env = "\<lparr>e_sort = sort_key m_time, e_sort_pages = id, e_time = \<lambda>_ _. 7\<rparr>"
  obtain wd where w: "st_inv 10000 (small_storage [] wd) []" "st_total (small_storage [] wd) = {#meas_stored ?m#}"
    by (rule small_storage_one [of ?m "[]"]) (simp_all add: sample_meas8)
  have srt: "std_sort MeasCmpByTime (e_sort ?env)" by (simp add: std_sort_exists)
  from writer_thread_sound [OF srt w(1), of 9] w(2) small_storage_client(2) [of "[]" wd] show ?thesis
    by (intro exI [of _ ?env] exI [of _ wd]) auto
qed

text \<open>
  C7. Nothing is lost or duplicated on the way to the pages: when \<^verbatim>\<open>flush_and_stop\<close> and \<^verbatim>\<open>pause_work\<close> have returned, under any schedule, the
  measurements on the pages are exactly those the storage held before, wherever they were, and the queue, the call
  in progress and the current cache are empty.
\<close>

theorem flush_pause_on_disk:
  assumes "std_sort MeasCmpByTime (e_sort env)" and "st_inv n st []"
    and "flush_and_stop env st = Inr st1" and "storage_pause env st1 = Inr st2"
  shows "mset (disk_log (wd_disk (st_world st2))) = st_total st \<and> served (st_writer st2) = [] \<and> cur_held st2 = [] \<and> st_inv n st2 []"
  using flush_pause_ok [OF assms] by blast

theorem flush_pause_on_disk_witness:
  "\<exists>env wd st1 st2. flush_and_stop env (small_storage [20, 0, 0] wd) = Inr st1 \<and> storage_pause env st1 = Inr st2 \<and>
    mset (disk_log (wd_disk (st_world st2))) = {#} \<and> served (st_writer st2) = []"
proof -
  let ?env = "\<lparr>e_sort = sort_key m_time, e_sort_pages = id, e_time = \<lambda>_ _. 7\<rparr>"
  obtain wd where w: "st_inv 10000 (small_storage [20, 0, 0] wd) []" "st_total (small_storage [20, 0, 0] wd) = {#}"
    by (rule small_storage_start [of "[]" "[20, 0, 0]"]) simp_all
  note f = small_storage_fields [of "[20, 0, 0]" wd] and c = small_storage_client [of "[20, 0, 0]" wd]
  have srt: "std_sort MeasCmpByTime (e_sort ?env)" by (simp add: std_sort_exists)
  obtain st1 st2 where r: "flush_and_stop ?env (small_storage [20, 0, 0] wd) = Inr st1" "storage_pause ?env st1 = Inr st2"
    by (rule flush_pause_returns [OF srt w(1) c(2) _ f(5), of "[20, 0]" 0]) (simp_all add: f(4,6,7) c(3))
  show ?thesis using flush_pause_on_disk [OF srt w(1) r] r w(2)
    by (intro exI [of _ ?env] exI [of _ wd] exI [of _ st1] exI [of _ st2]) simp
qed

text \<open>
  C14. A flush ends: a writer thread that is awake and not about to wait finishes all its work when the
  scheduler grants it that many steps, in whatever portions, between the looks of the client, provided the pool has a free cache. Then
  \<^verbatim>\<open>flush_and_stop\<close> and \<^verbatim>\<open>pause_work\<close> return.
\<close>

theorem flush_completes:
  assumes "std_sort MeasCmpByTime (e_sort env)" and "st_inv n st []" and "st_cache st = Some a" and "free_set st \<noteq> {}"
    and "awake (st_writer st)" and "w_pc (st_writer st) \<noteq> Enter_wait"
    and "st_sched st = ks @ [k]" and "2 \<le> length ks" and "steps_left (st_writer st) + 8 \<le> sum_list ks"
  shows "\<exists>st1 st2. flush_and_stop env st = Inr st1 \<and> storage_pause env st1 = Inr st2 \<and>
    mset (disk_log (wd_disk (st_world st2))) = st_total st"
  using flush_pause_returns [OF assms] flush_pause_ok(1) [OF assms(1,2)] by metis

theorem flush_completes_witness:
  "\<exists>env wd st1 st2. flush_and_stop env (small_storage [2, 2, 30, 0] wd) = Inr st1 \<and> storage_pause env st1 = Inr st2"
proof -
  let ?env = "\<lparr>e_sort = sort_key m_time, e_sort_pages = id, e_time = \<lambda>_ _. 7\<rparr>"
  obtain wd where w: "st_inv 10000 (small_storage [2, 2, 30, 0] wd) []" by (rule small_storage_start [of "[]" "[2, 2, 30, 0]"]) simp_all
  note f = small_storage_fields [of "[2, 2, 30, 0]" wd] and c = small_storage_client [of "[2, 2, 30, 0]" wd]
  have srt: "std_sort MeasCmpByTime (e_sort ?env)" by (simp add: std_sort_exists)
  have "\<exists>st1 st2. flush_and_stop ?env (small_storage [2, 2, 30, 0] wd) = Inr st1 \<and> storage_pause ?env st1 = Inr st2 \<and>
      mset (disk_log (wd_disk (st_world st2))) = st_total (small_storage [2, 2, 30, 0] wd)"
    by (rule flush_completes [OF srt w c(2) _ f(5), of "[2, 2, 30]" 0]) (simp_all add: f(4,6,7) c(3))
  then show ?thesis by blast
qed

end
