(* ===== verification/Readers.thy ===== *)
theory Readers
  imports Page
begin

text \<open>
  Reading from a page: the readers of \<^verbatim>\<open>libnkvdb/readers.cpp\<close>, their base class \<^verbatim>\<open>PageReader\<close> and the
  operations of \<^verbatim>\<open>libnkvdb/page.cpp\<close> that create readers or search backwards in time. A reader
  shares its page; the state of a read is the pair of both.
\<close>

section \<open>Reader state\<close>

record page_reader =
  rd_ids :: "Id list"
  rd_source :: Flag
  rd_flag :: Flag
  rd_prev_ww :: write_window
  rd_from :: Time
  rd_to :: Time
  rd_isWindowReader :: bool
  rd_pos_list :: "(nat \<times> nat) list"
  rd_begin :: nat
  rd_end :: nat
  rd_ww_end :: bool
  rd_in_point :: bool

definition PageReaderInterval :: page_reader where
  "PageReaderInterval = \<lparr>rd_ids = [], rd_source = 0, rd_flag = 0, rd_prev_ww = [], rd_from = 0, rd_to = 0,
     rd_isWindowReader = False, rd_pos_list = [], rd_begin = 0, rd_end = 0, rd_ww_end = False, rd_in_point = False\<rparr>"

definition addReadPos :: "page_reader \<Rightarrow> nat \<Rightarrow> nat \<Rightarrow> page_reader" where
  "addReadPos rd b e = rd\<lparr>rd_pos_list := rd_pos_list rd @ [(b, e)]\<rparr>"

definition checkValueFlags :: "page_reader \<Rightarrow> meas \<Rightarrow> bool" where
  "checkValueFlags rd m \<longleftrightarrow>
     (rd_flag rd \<noteq> 0 \<longrightarrow> m_flag m = rd_flag rd) \<and> (rd_source rd \<noteq> 0 \<longrightarrow> m_source m = rd_source rd) \<and>
     (rd_ids rd \<noteq> [] \<longrightarrow> m_id m \<in> set (rd_ids rd))"

definition checkValueInterval :: "page_reader \<Rightarrow> meas \<Rightarrow> bool" where
  "checkValueInterval rd m \<longleftrightarrow> inInterval (rd_from rd) (rd_to rd) (m_time m)"

section \<open>The backward search\<close>

text \<open>A \<^verbatim>\<open>std::map\<close> from ids to measurements, as its entries in ascending order.\<close>

primrec map_put :: "Id \<Rightarrow> meas \<Rightarrow> (Id \<times> meas) list \<Rightarrow> (Id \<times> meas) list" where
  "map_put k v [] = [(k, v)]"
| "map_put k v (x # xs) =
     (if k < fst x then (k, v) # x # xs else if k = fst x then (k, v) # xs else x # map_put k v xs)"

text \<open>The positions of a record from its last to its first; \<open>pos + count - 1\<close> wraps around for an empty one.\<close>

definition back_positions :: "IndexRecord \<Rightarrow> nat list" where
  "back_positions ir = (let last = unat (r_pos ir + r_count ir - 1) in
     if unat (r_pos ir) \<le> last then rev [unat (r_pos ir)..<Suc last] else [])"

definition back_accept :: "Id list \<Rightarrow> Flag \<Rightarrow> Flag \<Rightarrow> meas \<Rightarrow> bool" where
  "back_accept ids source flag m \<longleftrightarrow>
     (let flag_check = (flag \<noteq> 0 \<longrightarrow> m_flag m = flag);
          source_check = (source \<noteq> 0 \<longrightarrow> m_source m = source);
          ids_check = (ids \<noteq> [] \<longrightarrow> m_id m \<notin> set ids)
      in flag_check \<and> source_check \<and> ids_check)"

definition back_step :: "page \<Rightarrow> Id list \<Rightarrow> Flag \<Rightarrow> Flag \<Rightarrow> Time \<Rightarrow> (Id \<times> meas) list \<Rightarrow> nat \<Rightarrow>
    (Id \<times> meas) list result" where
  "back_step pg ids source flag time_point readed pos =
     bind_r (page_read pg empty_meas pos) (\<lambda>r. case r of
       None \<Rightarrow> Inl (Exception ''Page::backwardRead read error'')
     | Some m \<Rightarrow> Inr (
         if m_time m < time_point
         then case map_of readed (m_id m) of
             None \<Rightarrow> if back_accept ids source flag m then map_put (m_id m) m readed else readed
           | Some old \<Rightarrow> if m_time old < m_time m then map_put (m_id m) m readed else readed
         else readed))"

definition backwardRead :: "page \<Rightarrow> Id list \<Rightarrow> Flag \<Rightarrow> Flag \<Rightarrow> Time \<Rightarrow> (page \<times> meas list) result" where
  "backwardRead pg ids source flag time_point =
     bind_r (if time_point = h_minTime (pg_header pg)
             then Inr (pg, [zero_record\<lparr>r_count := of_nat (h_write_pos (pg_header pg)), r_pos := 0\<rparr>])
             else bind_r (findInIndex (pg_index pg) ids time_point (h_maxTime (pg_header pg)) flag source)
                    (\<lambda>(ix, rs). Inr (pg\<lparr>pg_index := ix\<rparr>, rev rs))) (\<lambda>(pg1, irecords).
     bind_r (fold_r (back_step pg1 ids source flag time_point) [] (concat (map back_positions irecords)))
       (\<lambda>readed. Inr (pg1, map snd readed)))"

definition timePointRead :: "page_reader \<Rightarrow> Time \<Rightarrow> page \<Rightarrow> (page \<times> meas list) result" where
  "timePointRead rd tp pg =
     (if tp > h_maxTime (pg_header pg)
      then Inr (pg, filter (\<lambda>m. m_time m \<noteq> 0 \<and> checkValueFlags rd m) (getWriteWindow pg))
      else bind_r (backwardRead pg (rd_ids rd) (rd_source rd) (rd_flag rd) tp) (\<lambda>(pg1, sub_result).
        Inr (pg1, filter (\<lambda>m. m_time m \<noteq> 0 \<and> m_id m \<notin> m_id ` set sub_result \<and> checkValueFlags rd m) (rd_prev_ww rd)
               @ sub_result)))"

section \<open>The interval reader\<close>

type_synonym page_read_state = "page \<times> page_reader"

definition pri_isEnd :: "page_read_state \<Rightarrow> bool" where
  "pri_isEnd s = (let rd = snd s in
     if rd_isWindowReader rd then rd_ww_end rd
     else if rd_pos_list rd = [] then rd_begin rd = rd_end rd else False)"

text \<open>Reading from position \<open>i\<close> on, at most \<open>n\<close> measurements, up to the end of the current range.\<close>

fun read_range :: "page \<Rightarrow> page_reader \<Rightarrow> nat \<Rightarrow> nat \<Rightarrow> meas list \<Rightarrow> (nat \<times> meas list) result" where
  "read_range pg rd i 0 out = Inr (i, out)"
| "read_range pg rd i (Suc n) out =
     (if i = rd_end rd then Inr (i, out)
      else bind_r (page_read pg empty_meas i) (\<lambda>r. case r of
          None \<Rightarrow> Inl (Exception ''PageReader::readNext'')
        | Some m \<Rightarrow> read_range pg rd (i + 1) n
            (if checkValueInterval rd m \<and> checkValueFlags rd m then out @ [m] else out)))"

text \<open>\<open>rs\<close> is the static variable \<^verbatim>\<open>PageReader::ReadSize\<close>.\<close>

definition defaultReadSize :: nat where
  "defaultReadSize = 1024"

definition pri_readNext :: "nat \<Rightarrow> page_read_state \<Rightarrow> (page_read_state \<times> meas list) result" where
  "pri_readNext rs s = (case s of (pg, rd) \<Rightarrow>
     if pri_isEnd s then Inr (s, [])
     else if rd_from rd > h_maxTime (pg_header pg)
     then Inr ((pg, rd\<lparr>rd_ww_end := True\<rparr>), filter (checkValueFlags rd) (getWriteWindow pg))
     else bind_r (if rd_from rd \<ge> h_minTime (pg_header pg) \<and> \<not> rd_in_point rd
                  then bind_r (timePointRead rd (rd_from rd) pg) (\<lambda>(pg1, out).
                         Inr (pg1, rd\<lparr>rd_in_point := True\<rparr>, out))
                  else Inr (pg, rd, [])) (\<lambda>(pg1, rd1, out).
          bind_r (if rd_begin rd1 = rd_end rd1
                  then case rd_pos_list rd1 of
                      [] \<Rightarrow> Inl Undefined
                    | (b, e) # rest \<Rightarrow> Inr (rd1\<lparr>rd_pos_list := rest, rd_begin := b, rd_end := e\<rparr>)
                  else Inr rd1) (\<lambda>rd2.
          bind_r (read_range pg1 rd2 (rd_begin rd2) rs out) (\<lambda>(i, out').
            Inr ((pg1, rd2\<lparr>rd_begin := i\<rparr>), out')))))"

section \<open>The time-point reader\<close>

record tp_reader =
  tp_reader :: page_reader
  tp_time_point :: Time
  tp_end :: bool

definition tpr_isEnd :: "page \<times> tp_reader \<Rightarrow> bool" where
  "tpr_isEnd s = tp_end (snd s)"

definition tpr_readNext :: "page \<times> tp_reader \<Rightarrow> ((page \<times> tp_reader) \<times> meas list) result" where
  "tpr_readNext s = (case s of (pg, tr) \<Rightarrow>
     if tpr_isEnd s then Inr (s, [])
     else bind_r (timePointRead (tp_reader tr) (tp_time_point tr) pg) (\<lambda>(pg1, out).
            Inr ((pg1, tr\<lparr>tp_end := True\<rparr>), out)))"

section \<open>Queries of a page\<close>

definition query_reader :: "Id list \<Rightarrow> Flag \<Rightarrow> Flag \<Rightarrow> Time \<Rightarrow> Time \<Rightarrow> page_reader" where
  "query_reader ids source flag from to =
     PageReaderInterval\<lparr>rd_ids := ids, rd_source := source, rd_flag := flag, rd_from := from, rd_to := to\<rparr>"

definition page_readAll :: "page \<Rightarrow> page_reader option" where
  "page_readAll pg =
     (if h_write_pos (pg_header pg) = 0 then None
      else Some (addReadPos PageReaderInterval 0 (h_write_pos (pg_header pg))))"

definition readFromToPos :: "page \<Rightarrow> Id list \<Rightarrow> Flag \<Rightarrow> Flag \<Rightarrow> Time \<Rightarrow> Time \<Rightarrow> nat \<Rightarrow> nat \<Rightarrow> page_reader option" where
  "readFromToPos pg ids source flag from to b e =
     (if h_write_pos (pg_header pg) = 0 then None
      else Some ((addReadPos PageReaderInterval b e)\<lparr>rd_ids := ids, rd_source := source, rd_flag := flag,
             rd_from := from, rd_to := to\<rparr>))"

text \<open>\<open>None\<close> is the null reader of an empty page.\<close>

definition page_readInterval :: "page \<Rightarrow> Id list \<Rightarrow> Flag \<Rightarrow> Flag \<Rightarrow> Time \<Rightarrow> Time \<Rightarrow>
    (page \<times> page_reader option) result" where
  "page_readInterval pg ids source flag from to =
     (let hdr = pg_header pg in
      if h_write_pos hdr = 0 then Inr (pg, None)
      else if from > h_maxTime hdr
      then Inr (pg, Some ((query_reader ids source flag from to)\<lparr>rd_isWindowReader := True\<rparr>))
      else if from \<le> h_minTime hdr \<and> to \<ge> h_maxTime hdr
      then (if ids = [] \<and> source = 0 \<and> flag = 0
            then case page_readAll pg of
                None \<Rightarrow> Inl Undefined
              | Some rd \<Rightarrow> Inr (pg, Some (rd\<lparr>rd_from := from, rd_to := to\<rparr>))
            else Inr (pg, readFromToPos pg ids source flag from to 0 (h_write_pos hdr)))
      else bind_r (findInIndex (pg_index pg) ids from to flag source) (\<lambda>(ix, irecords).
        Inr (pg\<lparr>pg_index := ix\<rparr>,
             Some (foldl (\<lambda>rd rec. addReadPos rd (unat (r_pos rec)) (unat (r_pos rec + r_count rec)))
                    (query_reader ids source flag from to) irecords))))"

definition page_readInTimePoint :: "page \<Rightarrow> Id list \<Rightarrow> Flag \<Rightarrow> Flag \<Rightarrow> Time \<Rightarrow> tp_reader option" where
  "page_readInTimePoint pg ids source flag time_point =
     (if h_write_pos (pg_header pg) = 0 then None
      else Some \<lparr>tp_reader = PageReaderInterval\<lparr>rd_ids := ids, rd_source := source, rd_flag := flag\<rparr>,
             tp_time_point = time_point, tp_end = False\<rparr>)"

section \<open>What an interval reader delivers\<close>

definition wanted :: "page_reader \<Rightarrow> meas \<Rightarrow> bool" where
  "wanted rd m \<longleftrightarrow> checkValueInterval rd m \<and> checkValueFlags rd m"

definition slice :: "'a list \<Rightarrow> nat \<Rightarrow> nat \<Rightarrow> 'a list" where
  "slice xs b e = take (e - b) (drop b xs)"

lemma slice_simps [simp]: "slice xs b b = []" "e \<le> b \<Longrightarrow> slice xs b e = []"
  by (simp_all add: slice_def)

lemma slice_split: "b \<le> m \<Longrightarrow> m \<le> e \<Longrightarrow> slice xs b e = slice xs b m @ slice xs m e"
proof -
  assume "b \<le> m" "m \<le> e"
  then obtain k j where kj: "m = b + k" "e = b + (k + j)" by (metis le_Suc_ex add.assoc)
  have "take (k + j) (drop b xs) = take k (drop b xs) @ take j (drop (b + k) xs)"
    unfolding take_add drop_drop by (simp add: add.commute)
  then show ?thesis using kj by (simp add: slice_def)
qed

lemma slice_Suc: "b < e \<Longrightarrow> e \<le> length xs \<Longrightarrow> slice xs b e = xs ! b # slice xs (Suc b) e"
proof -
  assume "b < e" "e \<le> length xs"
  then have "e - b = Suc (e - Suc b)" "b < length xs" by linarith+
  then show ?thesis by (simp add: slice_def Cons_nth_drop_Suc [symmetric])
qed

lemma log_read:
  "page_inv pg \<Longrightarrow> i < length (page_log pg) \<Longrightarrow> page_read pg empty_meas i = Inr (Some (page_log pg ! i))"
  using page_read_ok [of pg i] by (simp add: page_log_def)

definition range_ok :: "page \<Rightarrow> nat \<Rightarrow> nat \<Rightarrow> bool" where
  "range_ok pg b e \<longleftrightarrow> b \<le> e \<and> (b < e \<longrightarrow> e \<le> length (page_log pg))"

lemma read_range_ok:
  assumes inv: "page_inv pg" and "range_ok pg i (rd_end rd)"
  shows "\<exists>j. read_range pg rd i n out = Inr (j, out @ filter (wanted rd) (slice (page_log pg) i j)) \<and>
    i \<le> j \<and> range_ok pg j (rd_end rd) \<and> j \<le> rd_end rd \<and> (0 < n \<longrightarrow> i < rd_end rd \<longrightarrow> i < j)"
  using assms(2)
proof (induction n arbitrary: i out)
  case 0
  then show ?case by (auto simp: range_ok_def)
next
  case (Suc n)
  show ?case
  proof (cases "i = rd_end rd")
    case True
    then show ?thesis by (auto simp: range_ok_def)
  next
    case False
    with Suc.prems have lt: "i < rd_end rd" "rd_end rd \<le> length (page_log pg)" by (auto simp: range_ok_def)
    let ?out = "if wanted rd (page_log pg ! i) then out @ [page_log pg ! i] else out"
    have "range_ok pg (Suc i) (rd_end rd)" using lt by (simp add: range_ok_def)
    from Suc.IH [OF this, of ?out] obtain j where
      j: "read_range pg rd (Suc i) n ?out = Inr (j, ?out @ filter (wanted rd) (slice (page_log pg) (Suc i) j))"
        "Suc i \<le> j" "range_ok pg j (rd_end rd)" "j \<le> rd_end rd" by blast
    have "read_range pg rd i (Suc n) out = read_range pg rd (Suc i) n ?out"
      using False log_read [OF inv, of i] lt by (simp add: wanted_def)
    moreover have "?out @ filter (wanted rd) (slice (page_log pg) (Suc i) j) = out @ filter (wanted rd) (slice (page_log pg) i j)"
      using slice_Suc [of i j "page_log pg"] j(2,4) lt by simp
    ultimately show ?thesis using j by (intro exI [of _ j]) auto
  qed
qed

text \<open>At the first time of the page the backward search looks at everything and finds nothing earlier.\<close>

lemma back_step_keep:
  assumes "page_inv pg" "in_times pg" "pos < length (page_log pg)" "tp \<le> h_minTime (pg_header pg)"
  shows "back_step pg ids source flag tp readed pos = Inr readed"
proof -
  have "page_log pg ! pos \<in> set (page_log pg)" using assms(3) by simp
  then have "tp \<le> m_time (page_log pg ! pos)" using assms(2,4) by (auto simp: in_times_def intro: order_trans)
  then show ?thesis using log_read [OF assms(1,3)] by (simp add: back_step_def not_less [symmetric])
qed

lemma back_fold_keep:
  assumes "page_inv pg" "in_times pg" "tp \<le> h_minTime (pg_header pg)" "\<forall>p \<in> set ps. p < length (page_log pg)"
  shows "fold_r (back_step pg ids source flag tp) readed ps = Inr readed"
  using assms(4) by (induction ps) (simp_all add: back_step_keep [OF assms(1,2) _ assms(3)])

lemma backwardRead_first:
  assumes "page_inv pg" "in_times pg" "page_log pg \<noteq> []"
  shows "backwardRead pg ids source flag (h_minTime (pg_header pg)) = Inr (pg, [])"
proof -
  let ?wp = "h_write_pos (pg_header pg)"
  have len: "length (page_log pg) = ?wp" "0 < ?wp" using assms(3) by (auto simp: page_log_def)
  have w: "unat (of_nat ?wp - 1 :: u64) = ?wp - 1"
  proof -
    have "of_nat ?wp - 1 = (of_nat (?wp - 1) :: u64)" using len(2) by (simp add: of_nat_diff)
    then show ?thesis using page_pos_small [OF assms(1)] by (simp add: unat_of_nat)
  qed
  have "set (back_positions (zero_record\<lparr>r_count := of_nat ?wp, r_pos := 0\<rparr>)) \<subseteq> {..<?wp}"
    using w len(2) by (auto simp: back_positions_def Let_def)
  then have "fold_r (back_step pg ids source flag (h_minTime (pg_header pg))) []
      (back_positions (zero_record\<lparr>r_count := of_nat ?wp, r_pos := 0\<rparr>)) = Inr []"
    using len(1) by (intro back_fold_keep [OF assms(1,2)]) auto
  then show ?thesis by (simp add: backwardRead_def)
qed

text \<open>
  The states of a reader covered here: a window reader, or a reader of ranges that has already delivered
  the values at its begin, or has none to deliver there.
\<close>

definition pri_good :: "page_read_state \<Rightarrow> bool" where
  "pri_good s = (case s of (pg, rd) \<Rightarrow>
     page_inv pg \<and> in_times pg \<and> page_log pg \<noteq> [] \<and>
     (if rd_isWindowReader rd then rd_from rd > h_maxTime (pg_header pg)
      else rd_from rd \<le> h_maxTime (pg_header pg) \<and>
           (rd_in_point rd \<or> rd_from rd < h_minTime (pg_header pg) \<or>
            rd_from rd = h_minTime (pg_header pg) \<and> rd_prev_ww rd = []) \<and>
           range_ok pg (rd_begin rd) (rd_end rd) \<and> (\<forall>(b, e) \<in> set (rd_pos_list rd). range_ok pg b e)))"

definition pri_pending :: "page_read_state \<Rightarrow> meas list" where
  "pri_pending s = (case s of (pg, rd) \<Rightarrow>
     if rd_isWindowReader rd then (if rd_ww_end rd then [] else filter (checkValueFlags rd) (pg_window pg))
     else filter (wanted rd) (slice (page_log pg) (rd_begin rd) (rd_end rd)) @
          concat (map (\<lambda>(b, e). filter (wanted rd) (slice (page_log pg) b e)) (rd_pos_list rd)))"

definition pri_left :: "page_read_state \<Rightarrow> nat" where
  "pri_left s = (case s of (pg, rd) \<Rightarrow>
     if rd_isWindowReader rd then (if rd_ww_end rd then 0 else 1)
     else (rd_end rd - rd_begin rd) + sum_list (map (\<lambda>(b, e). Suc (e - b)) (rd_pos_list rd)))"

lemma pri_good_range:
  assumes "pri_good (pg, rd)" and "\<not> rd_isWindowReader rd"
  shows "page_inv pg" "in_times pg" "page_log pg \<noteq> []" "rd_from rd \<le> h_maxTime (pg_header pg)" "range_ok pg (rd_begin rd) (rd_end rd)"
    "\<forall>(b, e) \<in> set (rd_pos_list rd). range_ok pg b e"
    "rd_in_point rd \<or> rd_from rd < h_minTime (pg_header pg) \<or> rd_from rd = h_minTime (pg_header pg) \<and> rd_prev_ww rd = []"
  using assms by (simp_all add: pri_good_def)

lemma wanted_same [simp]:
  "wanted (rd\<lparr>rd_in_point := x\<rparr>) = wanted rd" "wanted (rd\<lparr>rd_begin := b\<rparr>) = wanted rd"
  "wanted (rd\<lparr>rd_pos_list := l, rd_begin := b, rd_end := e\<rparr>) = wanted rd"
  by (auto simp: wanted_def checkValueInterval_def checkValueFlags_def fun_eq_iff)

text \<open>The three stages of \<^verbatim>\<open>readNext\<close>: the values at the begin, the choice of a range, the reading of a portion of it.\<close>

lemma pri_point_stage:
  assumes good: "pri_good (pg, rd)" and win: "\<not> rd_isWindowReader rd"
  obtains rd1 where "(if rd_from rd \<ge> h_minTime (pg_header pg) \<and> \<not> rd_in_point rd
      then bind_r (timePointRead rd (rd_from rd) pg) (\<lambda>(pg1, out). Inr (pg1, rd\<lparr>rd_in_point := True\<rparr>, out))
      else Inr (pg, rd, [])) = Inr (pg, rd1, [])"
    "pri_good (pg, rd1)" "\<not> rd_isWindowReader rd1" "pri_isEnd (pg, rd1) = pri_isEnd (pg, rd)"
    "pri_pending (pg, rd1) = pri_pending (pg, rd)" "pri_left (pg, rd1) = pri_left (pg, rd)"
proof (cases "rd_from rd \<ge> h_minTime (pg_header pg) \<and> \<not> rd_in_point rd")
  case True
  note d = pri_good_range [OF good win]
  have "timePointRead rd (rd_from rd) pg = Inr (pg, [])"
    using True d(4,7) backwardRead_first [OF d(1-3)] by (auto simp: timePointRead_def)
  then show ?thesis using that [of "rd\<lparr>rd_in_point := True\<rparr>"] True win good
    by (simp add: pri_good_def pri_isEnd_def pri_pending_def pri_left_def)
next
  case False
  show ?thesis by (rule that [of rd]) (use False win good in auto)
qed

lemma pri_range_stage:
  assumes good: "pri_good (pg, rd)" and win: "\<not> rd_isWindowReader rd" and ne: "\<not> pri_isEnd (pg, rd)"
  obtains rd1 where "(if rd_begin rd = rd_end rd
      then case rd_pos_list rd of [] \<Rightarrow> Inl Undefined
        | (b, e) # rest \<Rightarrow> Inr (rd\<lparr>rd_pos_list := rest, rd_begin := b, rd_end := e\<rparr>)
      else Inr rd) = Inr rd1"
    "pri_good (pg, rd1)" "\<not> rd_isWindowReader rd1" "pri_pending (pg, rd1) = pri_pending (pg, rd)"
    "pri_left (pg, rd1) < pri_left (pg, rd) \<or> pri_left (pg, rd1) = pri_left (pg, rd) \<and> rd_begin rd1 < rd_end rd1"
proof (cases "rd_begin rd = rd_end rd")
  case True
  then obtain b e rest where l: "rd_pos_list rd = (b, e) # rest"
    using ne win by (cases "rd_pos_list rd") (auto simp: pri_isEnd_def)
  show ?thesis
    by (rule that [of "rd\<lparr>rd_pos_list := rest, rd_begin := b, rd_end := e\<rparr>"])
      (use True l good win in \<open>auto simp: pri_good_def pri_pending_def pri_left_def\<close>)
next
  case False
  then have "rd_begin rd < rd_end rd" using pri_good_range(5) [OF good win] by (simp add: range_ok_def)
  then show ?thesis by (intro that [of rd]) (use False good win in auto)
qed

lemma pri_read_stage:
  assumes rs: "0 < rs" and good: "pri_good (pg, rd)" and win: "\<not> rd_isWindowReader rd"
  obtains j out where "read_range pg rd (rd_begin rd) rs [] = Inr (j, out)" "pri_good (pg, rd\<lparr>rd_begin := j\<rparr>)"
    "pri_pending (pg, rd) = out @ pri_pending (pg, rd\<lparr>rd_begin := j\<rparr>)"
    "pri_left (pg, rd\<lparr>rd_begin := j\<rparr>) \<le> pri_left (pg, rd)"
    "rd_begin rd < rd_end rd \<longrightarrow> pri_left (pg, rd\<lparr>rd_begin := j\<rparr>) < pri_left (pg, rd)"
proof -
  note d = pri_good_range [OF good win]
  from read_range_ok [OF d(1,5), of rs "[]"] rs obtain j where
    j: "read_range pg rd (rd_begin rd) rs [] = Inr (j, filter (wanted rd) (slice (page_log pg) (rd_begin rd) j))"
      "rd_begin rd \<le> j" "range_ok pg j (rd_end rd)" "j \<le> rd_end rd" "rd_begin rd < rd_end rd \<Longrightarrow> rd_begin rd < j" by auto
  have "slice (page_log pg) (rd_begin rd) (rd_end rd) = slice (page_log pg) (rd_begin rd) j @ slice (page_log pg) j (rd_end rd)"
    by (rule slice_split [OF j(2,4)])
  moreover have "pri_good (pg, rd\<lparr>rd_begin := j\<rparr>)" using good win j(3) by (simp add: pri_good_def)
  ultimately show ?thesis by (intro that [OF j(1)]) (use win j(2,4,5) in \<open>auto simp: pri_pending_def pri_left_def\<close>)
qed

lemma pri_next_ok:
  assumes rs: "0 < rs" and good: "pri_good s" and ne: "\<not> pri_isEnd s"
  shows "\<exists>s' out. pri_readNext rs s = Inr (s', out) \<and> pri_good s' \<and> pri_left s' < pri_left s \<and>
    pri_pending s = out @ pri_pending s' \<and> fst s' = fst s"
proof -
  obtain pg rd where s: "s = (pg, rd)" by (cases s)
  show ?thesis
  proof (cases "rd_isWindowReader rd")
    case True
    then have "rd_from rd > h_maxTime (pg_header pg)" "\<not> rd_ww_end rd"
      using good ne by (simp_all add: s pri_good_def pri_isEnd_def)
    then show ?thesis using True good ne
      by (auto simp: s pri_readNext_def pri_good_def pri_left_def pri_pending_def getWriteWindow_def ww_copy_def)
  next
    case False
    note good = good [unfolded s] and ne = ne [unfolded s]
    obtain rd1 where rd1: "(if rd_from rd \<ge> h_minTime (pg_header pg) \<and> \<not> rd_in_point rd
        then bind_r (timePointRead rd (rd_from rd) pg) (\<lambda>(pg1, out). Inr (pg1, rd\<lparr>rd_in_point := True\<rparr>, out))
        else Inr (pg, rd, [])) = Inr (pg, rd1, [])"
      "pri_good (pg, rd1)" "\<not> rd_isWindowReader rd1" "pri_isEnd (pg, rd1) = pri_isEnd (pg, rd)"
      "pri_pending (pg, rd1) = pri_pending (pg, rd)" "pri_left (pg, rd1) = pri_left (pg, rd)"
      by (rule pri_point_stage [OF good False])
    obtain rd2 where rd2: "(if rd_begin rd1 = rd_end rd1
        then case rd_pos_list rd1 of [] \<Rightarrow> Inl Undefined
          | (b, e) # rest \<Rightarrow> Inr (rd1\<lparr>rd_pos_list := rest, rd_begin := b, rd_end := e\<rparr>)
        else Inr rd1) = Inr rd2"
      "pri_good (pg, rd2)" "\<not> rd_isWindowReader rd2" "pri_pending (pg, rd2) = pri_pending (pg, rd1)"
      "pri_left (pg, rd2) < pri_left (pg, rd1) \<or> pri_left (pg, rd2) = pri_left (pg, rd1) \<and> rd_begin rd2 < rd_end rd2"
      by (rule pri_range_stage [OF rd1(2,3)]) (use ne rd1(4) in simp)
    obtain j out where j: "read_range pg rd2 (rd_begin rd2) rs [] = Inr (j, out)" "pri_good (pg, rd2\<lparr>rd_begin := j\<rparr>)"
      "pri_pending (pg, rd2) = out @ pri_pending (pg, rd2\<lparr>rd_begin := j\<rparr>)"
      "pri_left (pg, rd2\<lparr>rd_begin := j\<rparr>) \<le> pri_left (pg, rd2)"
      "rd_begin rd2 < rd_end rd2 \<longrightarrow> pri_left (pg, rd2\<lparr>rd_begin := j\<rparr>) < pri_left (pg, rd2)"
      by (rule pri_read_stage [OF rs rd2(2,3)])
    have "\<not> rd_from rd > h_maxTime (pg_header pg)" using pri_good_range(4) [OF good False] by simp
    then have "pri_readNext rs s = Inr ((pg, rd2\<lparr>rd_begin := j\<rparr>), out)" using ne rd1(1) rd2(1) j(1) by (simp add: s pri_readNext_def)
    moreover have "pri_left (pg, rd2\<lparr>rd_begin := j\<rparr>) < pri_left (pg, rd)" using rd1(6) rd2(5) j(4,5) by linarith
    ultimately show ?thesis using j(2,3) rd1(5) rd2(4) by (auto simp: s)
  qed
qed

lemma pri_end_pending: "pri_good s \<Longrightarrow> pri_isEnd s \<Longrightarrow> pri_pending s = []"
  by (auto simp: pri_good_def pri_isEnd_def pri_pending_def Let_def split: prod.splits if_splits)

text \<open>Interval readers meet the contract of a reader, whatever the read size.\<close>

interpretation pri: reader pri_isEnd "pri_readNext (Suc rs)" pri_good pri_left pri_pending
  for rs
  by unfold_locales (use pri_next_ok [of "Suc rs"] pri_end_pending in blast)+

section \<open>Properties\<close>

text \<open>The measurements of a page that a query asks for.\<close>

definition matches :: "Id list \<Rightarrow> Flag \<Rightarrow> Flag \<Rightarrow> Time \<Rightarrow> Time \<Rightarrow> meas \<Rightarrow> bool" where
  "matches ids source flag from to m \<longleftrightarrow> from \<le> m_time m \<and> m_time m \<le> to \<and>
     (ids \<noteq> [] \<longrightarrow> m_id m \<in> set ids) \<and> (source \<noteq> 0 \<longrightarrow> m_source m = source) \<and> (flag \<noteq> 0 \<longrightarrow> m_flag m = flag)"

lemma wanted_query:
  "rd_ids rd = ids \<Longrightarrow> rd_source rd = source \<Longrightarrow> rd_flag rd = flag \<Longrightarrow> rd_from rd = from \<Longrightarrow> rd_to rd = to \<Longrightarrow>
   wanted rd = matches ids source flag from to"
  by (auto simp: wanted_def matches_def checkValueInterval_def checkValueFlags_def inInterval_def fun_eq_iff)

lemma whole_slice [simp]: "slice (page_log pg) 0 (h_write_pos (pg_header pg)) = page_log pg"
  by (simp add: slice_def page_log_def)

lemma before_max:
  assumes "in_times pg" and "page_log pg \<noteq> []" and "from \<le> h_minTime (pg_header pg)"
  shows "from \<le> h_maxTime (pg_header pg)"
proof -
  obtain m where "m \<in> set (page_log pg)" using assms(2) by (cases "page_log pg") auto
  then show ?thesis using assms(1,3) by (auto simp: in_times_def intro: order_trans)
qed

lemma whole_page_reader:
  assumes "page_inv pg" and "in_times pg" and "page_log pg \<noteq> []"
    and "from \<le> h_minTime (pg_header pg)" and "h_maxTime (pg_header pg) \<le> to"
  obtains rd where "page_readInterval pg ids source flag from to = Inr (pg, Some rd)" "pri_good (pg, rd)"
    "pri_pending (pg, rd) = filter (matches ids source flag from to) (page_log pg)"
    "\<not> pri_isEnd (pg, rd)" "pri_left (pg, rd) = Suc (h_write_pos (pg_header pg))" "rd_prev_ww rd = []"
proof -
  let ?wp = "h_write_pos (pg_header pg)"
  have wp: "?wp \<noteq> 0" "length (page_log pg) = ?wp" using assms(3) by (auto simp: page_log_def)
  note le = before_max [OF assms(2-4)]
  define rd where "rd = (addReadPos PageReaderInterval 0 ?wp)\<lparr>rd_ids := ids, rd_source := source, rd_flag := flag,
    rd_from := from, rd_to := to\<rparr>"
  have w: "wanted rd = matches ids source flag from to" by (rule wanted_query) (simp_all add: rd_def)
  show ?thesis
  proof (rule that [of rd])
    show "page_readInterval pg ids source flag from to = Inr (pg, Some rd)"
      using wp le assms(4,5)
      by (auto simp: page_readInterval_def Let_def page_readAll_def readFromToPos_def rd_def addReadPos_def PageReaderInterval_def)
    show "pri_good (pg, rd)"
      using assms(1-4) wp le by (auto simp: pri_good_def rd_def addReadPos_def PageReaderInterval_def range_ok_def)
    show "pri_pending (pg, rd) = filter (matches ids source flag from to) (page_log pg)"
      using w by (simp add: pri_pending_def rd_def addReadPos_def PageReaderInterval_def)
  qed (simp_all add: rd_def addReadPos_def PageReaderInterval_def pri_isEnd_def pri_left_def)
qed

lemma set_slice:
  assumes "e \<le> length xs"
  shows "set (slice xs b e) = {xs ! p | p. b \<le> p \<and> p < e}"
proof -
  have "slice xs b e = map ((!) xs) [b..<e]"
    using assms by (cases "b \<le> e") (simp_all add: slice_def map_nth_upt)
  then show ?thesis by auto
qed

text \<open>A page with two measurements, at times 3 and 9, used to instantiate the properties.\<close>

definition sample_im :: "Time \<Rightarrow> InternalMeas" where
  "sample_im t = \<lparr>im_id = 7, im_time = t, im_source = 0, im_flag = 0, im_size = 0, im_value_pos = 1000\<rparr>"

definition sample_page :: "index \<Rightarrow> page" where
  "sample_page ix = \<lparr>pg_header = zero_header\<lparr>h_version := page_version, h_minMaxInit := True, h_minTime := 3,
       h_maxTime := 9, h_write_pos := 2, h_write_value_pos := 1000, h_size := 1000, h_id_fltr := 7\<rparr>,
     pg_raw = mem_write (mem_write (\<lambda>_. 0) 224 (im_bytes (sample_im 3))) 272 (im_bytes (sample_im 9)),
     pg_index = ix, pg_window = [empty_meas, empty_meas\<lparr>m_id := 1, m_time := 9\<rparr>], pg_window_file = None, pg_mapped = True\<rparr>"

lemma sample_page_ok:
  "page_inv (sample_page ix)" "in_times (sample_page ix)" "filters_ok (sample_page ix)"
  "page_log (sample_page ix) = [empty_meas\<lparr>m_id := 7, m_time := 3\<rparr>, empty_meas\<lparr>m_id := 7, m_time := 9\<rparr>]"
proof -
  let ?r = "pg_raw (sample_page ix)"
  have im: "im_load ?r (im_off 0) = sample_im 3" "im_load ?r (im_off (Suc 0)) = sample_im 9"
    by (simp_all add: sample_page_def im_off_def sizeof_defs im_load_other im_load_same)
  have "entry_ok 1000 1000 ?r i" if "i < 2" for i
    using im that by (auto simp: entry_ok_def sample_im_def less_2_cases_iff)
  moreover have "h_write_pos (pg_header (sample_page ix)) = 2" "h_size (pg_header (sample_page ix)) = 1000"
    "h_write_value_pos (pg_header (sample_page ix)) = 1000" by (simp_all add: sample_page_def)
  ultimately show "page_inv (sample_page ix)" by (simp add: page_inv_def sizeof_defs)
  have "[0..<2] = [0, Suc 0]" by (simp add: upt_rec)
  then show lg: "page_log (sample_page ix) = [empty_meas\<lparr>m_id := 7, m_time := 3\<rparr>, empty_meas\<lparr>m_id := 7, m_time := 9\<rparr>]"
    using im by (simp add: page_log_def stored_at_def sample_im_def empty_meas_def mem_read_def)
      (simp add: sample_page_def stored_at_def sample_im_def mem_read_def im_load_other im_load_same)
  show "in_times (sample_page ix)" by (simp add: in_times_def lg) (simp add: sample_page_def)
  show "filters_ok (sample_page ix)"
    by (simp add: filters_ok_def lg) (simp add: sample_page_def bloom_check_def zero_header_def empty_meas_def)
qed

text \<open>
  C16. A query whose interval includes the time span of the page: the page hands out a reader, and draining it
  ends without an error and delivers exactly the stored measurements that match ids, source, flag and
  interval, in the order in which they were written.
\<close>

theorem readInterval_whole_page:
  assumes "page_inv pg" and "in_times pg" and "page_log pg \<noteq> []"
    and "from \<le> h_minTime (pg_header pg)" and "h_maxTime (pg_header pg) \<le> to" and "0 < rs"
  shows "\<exists>rd n s'. page_readInterval pg ids source flag from to = Inr (pg, Some rd) \<and>
    readAll pri_isEnd (pri_readNext rs) n (pg, rd) [] =
      Inr (s', filter (matches ids source flag from to) (page_log pg)) \<and> pri_isEnd s'"
proof -
  obtain rd where rd: "page_readInterval pg ids source flag from to = Inr (pg, Some rd)" "pri_good (pg, rd)"
      "pri_pending (pg, rd) = filter (matches ids source flag from to) (page_log pg)"
    by (rule whole_page_reader [OF assms(1-5)])
  from pri.readAll_delivers [OF rd(2) order_refl, of "rs - 1" "[]"] rd(1,3) assms(6) show ?thesis by auto
qed

theorem readInterval_whole_page_witness:
  "\<exists>rd n s'. page_readInterval (sample_page (pg_index tight_page)) [] 0 0 3 20 =
      Inr (sample_page (pg_index tight_page), Some rd) \<and>
    readAll pri_isEnd (pri_readNext 1) n (sample_page (pg_index tight_page), rd) [] =
      Inr (s', [empty_meas\<lparr>m_id := 7, m_time := 3\<rparr>, empty_meas\<lparr>m_id := 7, m_time := 9\<rparr>]) \<and> pri_isEnd s'"
  using readInterval_whole_page [of "sample_page (pg_index tight_page)" 3 20 1 "[]" 0 0]
    sample_page_ok [of "pg_index tight_page"]
  by (simp add: matches_def) (simp add: sample_page_def)



lemma foldl_addReadPos:
  "foldl (\<lambda>rd rec. addReadPos rd (f rec) (g rec)) rd rs =
   rd\<lparr>rd_pos_list := rd_pos_list rd @ map (\<lambda>rec. (f rec, g rec)) rs\<rparr>"
  by (induction rs arbitrary: rd) (simp_all add: addReadPos_def)


lemma sample_index:
  obtains ix where "index_inv ix" "records ix = {sample_rec 0, sample_rec 1}"
proof -
  obtain ix where ix: "index_inv ix" "records ix = {}" "index_room ix = 3"
    using index_open_new [of 1 1000] by auto
  from write_ok [OF ix(1), of "sample_rec 0"] ix(2,3) obtain ix1 where
    ix1: "index_inv ix1" "records ix1 = {sample_rec 0}" "2 \<le> index_room ix1" by auto
  have "r_minTime (sample_rec 1) \<notin> r_minTime ` records ix1" by (simp add: ix1(2) sample_rec_def)
  from write_ok [OF ix1(1) this] ix1(2,3) obtain ix2 where
    "index_inv ix2" "records ix2 = insert (sample_rec 1) {sample_rec 0}" by auto
  then show ?thesis using that by (simp add: insert_commute)
qed


end
