(* ===== verification/Storage_Reader.thy ===== *)
theory Storage_Reader
  imports Storage_Correct Readers
begin

text \<open>
  Queries of a storage: \<^verbatim>\<open>Storage::readInterval\<close>, \<^verbatim>\<open>Storage::readInTimePoint\<close> and the class \<^verbatim>\<open>StorageReader\<close> of
  \<^verbatim>\<open>libnkvdb/storage.cpp\<close>. A query flushes the storage, pauses the writer thread, selects pages by their headers and lets
  the thread go on. The reader opens the selected pages one after the other and reads each with a reader of the page.
\<close>

section \<open>The reader\<close>

text \<open>The two kinds of page reader behind the common interface.\<close>

datatype any_reader = Interval_reader page_reader | Time_point_reader tp_reader

fun any_isEnd :: "page \<times> any_reader \<Rightarrow> bool" where
  "any_isEnd (pg, Interval_reader rd) = pri_isEnd (pg, rd)"
| "any_isEnd (pg, Time_point_reader tr) = tpr_isEnd (pg, tr)"

fun any_readNext :: "nat \<Rightarrow> page \<times> any_reader \<Rightarrow> ((page \<times> any_reader) \<times> meas list) result" where
  "any_readNext rs (pg, Interval_reader rd) =
     bind_r (pri_readNext rs (pg, rd)) (\<lambda>((pg', rd'), out). Inr ((pg', Interval_reader rd'), out))"
| "any_readNext rs (pg, Time_point_reader tr) =
     bind_r (tpr_readNext (pg, tr)) (\<lambda>((pg', tr'), out). Inr ((pg', Time_point_reader tr'), out))"

text \<open>\<open>sr_interval\<close> are \<^verbatim>\<open>from\<close> and \<^verbatim>\<open>to\<close>, which the constructor leaves uninitialised; \<open>sr_current\<close> is the reader with its page object.\<close>

record StorageReader =
  sr_ids :: "Id list"
  sr_source :: Flag
  sr_flag :: Flag
  sr_interval :: "(Time \<times> Time) option"
  sr_time_point :: Time
  sr_prev_interval_page :: string
  sr_pages :: "string list"
  sr_current :: "(string \<times> page \<times> any_reader) option"

definition new_StorageReader :: "Id list \<Rightarrow> Flag \<Rightarrow> Flag \<Rightarrow> StorageReader" where
  "new_StorageReader ids source flag = \<lparr>sr_ids = ids, sr_source = source, sr_flag = flag, sr_interval = None, sr_time_point = 0,
     sr_prev_interval_page = [], sr_pages = [], sr_current = None\<rparr>"

definition addPage :: "StorageReader \<Rightarrow> string \<Rightarrow> StorageReader" where
  "addPage sr pname = sr\<lparr>sr_pages := sr_pages sr @ [pname]\<rparr>"

text \<open>The reader works on the directory that it shares with everybody else.\<close>

type_synonym sr_state = "disk \<times> StorageReader"

definition sr_isEnd :: "sr_state \<Rightarrow> bool" where
  "sr_isEnd s = (let sr = snd s in
     if sr_pages sr = [] then (case sr_current sr of None \<Rightarrow> True | Some (_, pg, rd) \<Rightarrow> any_isEnd (pg, rd)) else False)"

text \<open>The write window of the page before the interval.\<close>

definition prev_window :: "disk \<Rightarrow> string \<Rightarrow> (disk \<times> write_window) result" where
  "prev_window d prev =
     (if prev = [] then Inr (d, [])
      else bind_r (page_Open (disk_get d prev) True) (\<lambda>pp.
           bind_r (page_release pp) (\<lambda>pp'. Inr (disk_put d prev (page_disk pp'), getWriteWindow pp))))"

definition set_prev_ww :: "write_window \<Rightarrow> page_reader \<Rightarrow> page_reader" where
  "set_prev_ww ww rd = rd\<lparr>rd_prev_ww := ww_assign (rd_prev_ww rd) ww\<rparr>"

text \<open>Opening the next page; the null reader of an empty page is dereferenced.\<close>

definition sr_next_page :: "sr_state \<Rightarrow> sr_state result" where
  "sr_next_page s = (case s of (d, sr) \<Rightarrow> case sr_pages sr of
     [] \<Rightarrow> Inl Undefined
   | pname # rest \<Rightarrow>
       bind_r (page_Open (disk_get d pname) True) (\<lambda>pg.
       bind_r (prev_window (disk_put d pname (page_disk pg)) (sr_prev_interval_page sr)) (\<lambda>(d1, prev_ww).
       bind_r (page_view d1 pname pg) (\<lambda>pg1.
       bind_r (if sr_time_point sr \<noteq> 0
               then case page_readInTimePoint pg1 (sr_ids sr) (sr_source sr) (sr_flag sr) (sr_time_point sr) of
                   None \<Rightarrow> Inl Undefined
                 | Some tr \<Rightarrow> Inr (pg1, Time_point_reader (tr\<lparr>tp_reader := set_prev_ww prev_ww (tp_reader tr)\<rparr>))
               else case sr_interval sr of
                   None \<Rightarrow> Inl Undefined
                 | Some (from, to) \<Rightarrow>
                     bind_r (page_readInterval pg1 (sr_ids sr) (sr_source sr) (sr_flag sr) from to) (\<lambda>(pg2, r). case r of
                         None \<Rightarrow> Inl Undefined
                       | Some rd \<Rightarrow> Inr (pg2, Interval_reader (set_prev_ww prev_ww rd)))) (\<lambda>(pg2, rd).
         Inr (disk_put d1 pname (page_disk pg2), sr\<lparr>sr_pages := rest, sr_current := Some (pname, pg2, rd)\<rparr>))))))"

definition sr_readNext :: "nat \<Rightarrow> sr_state \<Rightarrow> (sr_state \<times> meas list) result" where
  "sr_readNext rs s =
     (if sr_isEnd s then Inr (s, [])
      else bind_r (if sr_current (snd s) = None then sr_next_page s else Inr s) (\<lambda>(d, sr).
        case sr_current sr of
          None \<Rightarrow> Inl Undefined
        | Some (name, pg, rd) \<Rightarrow>
            bind_r (page_view d name pg) (\<lambda>pg1.
            bind_r (any_readNext rs (pg1, rd)) (\<lambda>((pg2, rd2), out).
            let d2 = disk_put d name (page_disk pg2)
            in if any_isEnd (pg2, rd2)
               then bind_r (page_release pg2) (\<lambda>pg3. Inr ((disk_put d2 name (page_disk pg3), sr\<lparr>sr_current := None\<rparr>), out))
               else Inr ((d2, sr\<lparr>sr_current := Some (name, pg2, rd2)\<rparr>), out)))))"

section \<open>Selecting pages\<close>

text \<open>The tests on the filters of a header, which both queries make.\<close>

definition filters_pass :: "Id list \<Rightarrow> Flag \<Rightarrow> Flag \<Rightarrow> page_header \<Rightarrow> bool" where
  "filters_pass ids source flag hdr \<longleftrightarrow>
     \<not> (flag \<noteq> 0 \<and> h_flag_fltr hdr \<noteq> 0 \<and> \<not> bloom_check (h_flag_fltr hdr) flag) \<and>
     \<not> (source \<noteq> 0 \<and> h_src_fltr hdr \<noteq> 0 \<and> \<not> bloom_check (h_src_fltr hdr) source) \<and>
     \<not> (ids \<noteq> [] \<and> h_id_fltr hdr \<noteq> 0 \<and> \<not> (\<exists>i \<in> set ids. bloom_check (h_id_fltr hdr) i))"

text \<open>The body of the loop of \<^verbatim>\<open>readInterval\<close>: \<open>pages_to_read\<close> and \<open>prev_interval_page\<close> after page \<open>i\<close>.\<close>

definition interval_step :: "PageInfo list \<Rightarrow> Id list \<Rightarrow> Flag \<Rightarrow> Flag \<Rightarrow> Time \<Rightarrow> Time \<Rightarrow> string list \<times> string \<Rightarrow> nat \<Rightarrow>
    string list \<times> string" where
  "interval_step pages ids source flag from to s i = (case s of (to_read, prev) \<Rightarrow>
     let hdr = pi_header (pages ! i);
         pname = pi_name (pages ! i)
     in if \<not> filters_pass ids source flag hdr then s
        else if h_minTime hdr \<le> from \<and> h_maxTime hdr \<ge> to
        then (to_read @ [pname], if i > 0 \<and> prev = [] \<and> length (to_read @ [pname]) = 1 then pi_name (pages ! (i - 1)) else prev)
        else if h_minTime hdr \<le> from \<and> h_maxTime hdr > from
        then (to_read @ [pname], if i > 0 then pi_name (pages ! (i - 1)) else prev)
        else if h_minTime hdr > from \<and> i > 0 \<and> h_maxTime (pi_header (pages ! (i - 1))) \<le> from
        then (to_read @ [pi_name (pages ! (i - 1)), pname], prev)
        else if h_minTime hdr \<ge> from \<and> h_maxTime hdr \<ge> to \<and> h_minTime hdr \<le> to then (to_read @ [pname], prev)
        else if h_minTime hdr \<ge> from \<and> h_maxTime hdr \<le> to then (to_read @ [pname], prev)
        else s)"

definition interval_select :: "PageInfo list \<Rightarrow> Id list \<Rightarrow> Flag \<Rightarrow> Flag \<Rightarrow> Time \<Rightarrow> Time \<Rightarrow> string list \<times> string" where
  "interval_select pages ids source flag from to = foldl (interval_step pages ids source flag from to) ([], []) [0..<length pages]"

definition storage_readInterval :: "env \<Rightarrow> storage \<Rightarrow> Id list \<Rightarrow> Flag \<Rightarrow> Flag \<Rightarrow> Time \<Rightarrow> Time \<Rightarrow> (storage \<times> StorageReader) result" where
  "storage_readInterval env st ids source flag from to = bind_r (paused_pages env st) (\<lambda>(st1, pages).
     let (to_read, prev) = interval_select (rev pages) ids source flag from to;
         sr = (new_StorageReader ids source flag)\<lparr>sr_interval := Some (from, to), sr_prev_interval_page := prev\<rparr>
     in Inr (storage_continue st1, foldl addPage sr to_read))"

text \<open>The loop of \<^verbatim>\<open>readInTimePoint\<close>, which stops at the first page it takes.\<close>

fun point_loop :: "PageInfo list \<Rightarrow> Id list \<Rightarrow> Flag \<Rightarrow> Flag \<Rightarrow> Time \<Rightarrow> nat list \<Rightarrow> string list \<times> string" where
  "point_loop pages ids source flag time_point [] = ([], [])"
| "point_loop pages ids source flag time_point (i # is) =
     (let hdr = pi_header (pages ! i);
          pname = pi_name (pages ! i)
      in if \<not> filters_pass ids source flag hdr then point_loop pages ids source flag time_point is
         else if h_minTime hdr \<le> time_point \<and> h_maxTime hdr \<le> time_point \<and> (length pages = 1 \<or> i = length pages - 1)
         then ([pname], [])
         else if h_minTime hdr \<le> time_point \<and> h_maxTime hdr \<ge> time_point
         then ([pname], if i > 0 then pi_name (pages ! (i - 1)) else [])
         else if h_minTime hdr > time_point \<and> i > 0 \<and> h_maxTime (pi_header (pages ! (i - 1))) \<le> time_point
         then ([pi_name (pages ! (i - 1))], [])
         else point_loop pages ids source flag time_point is)"

definition storage_readInTimePoint :: "env \<Rightarrow> storage \<Rightarrow> Id list \<Rightarrow> Flag \<Rightarrow> Flag \<Rightarrow> Time \<Rightarrow> (storage \<times> StorageReader) result" where
  "storage_readInTimePoint env st ids source flag time_point = bind_r (paused_pages env st) (\<lambda>(st1, pages).
     let (to_read, prev) = point_loop (rev pages) ids source flag time_point [0..<length pages];
         sr = (new_StorageReader ids source flag)\<lparr>sr_time_point := time_point, sr_prev_interval_page := prev\<rparr>
     in Inr (storage_continue st1, foldl addPage sr to_read))"

section \<open>Which pages an interval query reads\<close>

text \<open>What one round of the loop adds to \<open>pages_to_read\<close>: it does not depend on earlier rounds.\<close>

definition hit :: "Time \<Rightarrow> Time \<Rightarrow> page_header \<Rightarrow> bool" where
  "hit from to hdr \<longleftrightarrow> h_minTime hdr \<le> to \<and> from \<le> h_maxTime hdr \<and>
     \<not> (h_minTime hdr < from \<and> h_maxTime hdr = from \<and> from < to)"

definition after_gap :: "PageInfo list \<Rightarrow> Time \<Rightarrow> nat \<Rightarrow> bool" where
  "after_gap pages from i \<longleftrightarrow> 0 < i \<and> from < h_minTime (pi_header (pages ! i)) \<and> h_maxTime (pi_header (pages ! (i - 1))) \<le> from"

definition picked :: "PageInfo list \<Rightarrow> Id list \<Rightarrow> Flag \<Rightarrow> Flag \<Rightarrow> Time \<Rightarrow> Time \<Rightarrow> nat \<Rightarrow> string list" where
  "picked pages ids source flag from to i =
     (if \<not> filters_pass ids source flag (pi_header (pages ! i)) then []
      else if after_gap pages from i then [pi_name (pages ! (i - 1)), pi_name (pages ! i)]
      else if hit from to (pi_header (pages ! i)) then [pi_name (pages ! i)] else [])"

lemma hit_early:
  assumes "from \<le> to" and "h_minTime hdr \<le> h_maxTime hdr" and "h_minTime hdr \<le> from"
  shows "hit from to hdr \<longleftrightarrow> from < h_maxTime hdr \<or> to \<le> h_maxTime hdr \<or> from \<le> h_minTime hdr"
proof -
  consider "from < h_maxTime hdr" | "h_maxTime hdr = from" | "h_maxTime hdr < from" by (meson linorder_cases)
  then show ?thesis
  proof cases
    case 2
    have "h_minTime hdr \<le> to" by (rule order_trans [OF assms(3,1)])
    then show ?thesis using 2 assms(1,3) by (auto simp: hit_def not_less)
  next
    case 3
    then have "\<not> from \<le> h_maxTime hdr" "\<not> to \<le> h_maxTime hdr" "\<not> from \<le> h_minTime hdr" "\<not> from < h_maxTime hdr"
      using assms(1,2) by (meson leD less_le_trans order_trans less_asym)+
    then show ?thesis by (simp add: hit_def)
  qed (use assms(1,3) in \<open>auto simp: hit_def\<close>)
qed

lemma interval_step_picked:
  assumes "from \<le> to" and "h_minTime (pi_header (pages ! i)) \<le> h_maxTime (pi_header (pages ! i))"
  shows "fst (interval_step pages ids source flag from to s i) = fst s @ picked pages ids source flag from to i"
proof (cases "filters_pass ids source flag (pi_header (pages ! i))")
  case pass: True
  let ?lo = "h_minTime (pi_header (pages ! i))" and ?hi = "h_maxTime (pi_header (pages ! i))"
  obtain to_read prev where s: "s = (to_read, prev)" by (cases s)
  note step = interval_step_def [of pages ids source flag "from" to s i, unfolded s prod.case Let_def]
  show ?thesis
  proof (cases "?lo \<le> from")
    case lo: True
    have gap: "\<not> after_gap pages from i" using leD [OF lo] by (simp add: after_gap_def)
    note hit = hit_early [OF assms lo]
    show ?thesis
      using lo leD [OF lo] gap pass assms s step hit by (cases "from < ?hi"; cases "to \<le> ?hi"; cases "from \<le> ?lo") (simp_all add: picked_def)
  next
    case lo: False
    have lt: "from < ?lo" "from \<le> ?lo" using lo by simp_all
    have "from \<le> ?hi" by (rule order_trans [OF lt(2) assms(2)])
    then have hit: "hit from to (pi_header (pages ! i)) \<longleftrightarrow> ?lo \<le> to" using lt(1) by (auto simp: hit_def)
    have "?hi \<le> to \<Longrightarrow> ?lo \<le> to" by (rule order_trans [OF assms(2)])
    then show ?thesis
      using lo lt pass s step hit
      by (cases "after_gap pages from i"; cases "?hi \<le> to"; cases "?lo \<le> to") (simp_all add: picked_def after_gap_def)
  qed
next
  case False
  then show ?thesis by (cases s) (simp add: interval_step_def picked_def)
qed

lemma interval_select_picked:
  assumes "from \<le> to" and "\<forall>p \<in> set pages. h_minTime (pi_header p) \<le> h_maxTime (pi_header p)"
  shows "fst (interval_select pages ids source flag from to) = concat (map (picked pages ids source flag from to) [0..<length pages])"
proof -
  have "fst (foldl (interval_step pages ids source flag from to) s is) = fst s @ concat (map (picked pages ids source flag from to) is)"
    if "set is \<subseteq> {..<length pages}" for s "is"
    using that by (induction "is" arbitrary: s) (simp_all add: interval_step_picked [OF assms(1)] assms(2))
  then show ?thesis by (simp add: interval_select_def atLeast0LessThan)
qed

text \<open>
  C17. The pages an interval query reads, characterised exactly: the pages that pass the filters and whose time span meets the
  interval, unless the span begins before the interval and ends in its first point; and for a page that passes the filters and
  begins after the interval does while the page before it ends by then, that page and the one before it.
\<close>

theorem interval_select_exact:
  assumes "from \<le> to" and "\<forall>p \<in> set pages. h_minTime (pi_header p) \<le> h_maxTime (pi_header p)"
  shows "set (fst (interval_select pages ids source flag from to)) =
    {pi_name (pages ! i) | i. i < length pages \<and> filters_pass ids source flag (pi_header (pages ! i)) \<and>
       (hit from to (pi_header (pages ! i)) \<or> after_gap pages from i)} \<union>
    {pi_name (pages ! (i - 1)) | i. i < length pages \<and> filters_pass ids source flag (pi_header (pages ! i)) \<and> after_gap pages from i}"
proof -
  have "set (picked pages ids source flag from to i) =
      {n. filters_pass ids source flag (pi_header (pages ! i)) \<and>
         (n = pi_name (pages ! i) \<and> (hit from to (pi_header (pages ! i)) \<or> after_gap pages from i) \<or>
          n = pi_name (pages ! (i - 1)) \<and> after_gap pages from i)}" for i
    by (auto simp: picked_def)
  then show ?thesis unfolding interval_select_picked [OF assms] set_concat set_map image_image by auto
qed

text \<open>Two pages, with the times 1 to 5 and 7 to 9.\<close>

definition info :: "string \<Rightarrow> Time \<Rightarrow> Time \<Rightarrow> PageInfo" where
  "info name t1 t2 = \<lparr>pi_header = zero_header\<lparr>h_minTime := t1, h_maxTime := t2\<rparr>, pi_name = name\<rparr>"

lemma info_simps [simp]:
  "pi_name (info name t1 t2) = name" "h_minTime (pi_header (info name t1 t2)) = t1" "h_maxTime (pi_header (info name t1 t2)) = t2"
  "filters_pass ids source flag (pi_header (info name t1 t2))"
  by (simp_all add: info_def filters_pass_def zero_header_def)

lemma two_cases: "{f i | i. (i = 0 \<or> i = (1 :: nat)) \<and> P i} = (if P 0 then {f 0} else {}) \<union> (if P 1 then {f 1} else {})"
  by (simp add: setcompr_eq_image conj_disj_distribR Collect_disj_eq image_Un Collect_conv_if)

theorem interval_select_exact_witness:
  "set (fst (interval_select [info ''a'' 1 5, info ''b'' 7 9] [] 0 0 3 6)) = {''a''}"
proof -
  let ?ps = "[info ''a'' 1 5, info ''b'' 7 9]"
  have two: "i < length ?ps \<longleftrightarrow> i = 0 \<or> i = 1" for i by auto
  have "set (fst (interval_select ?ps [] 0 0 3 6)) =
      {pi_name (?ps ! i) | i. i < length ?ps \<and> filters_pass [] 0 0 (pi_header (?ps ! i)) \<and>
        (hit 3 6 (pi_header (?ps ! i)) \<or> after_gap ?ps 3 i)} \<union>
      {pi_name (?ps ! (i - 1)) | i. i < length ?ps \<and> filters_pass [] 0 0 (pi_header (?ps ! i)) \<and> after_gap ?ps 3 i}"
    by (rule interval_select_exact) simp_all
  also have "\<dots> = {''a''}"
    unfolding two two_cases by (simp add: hit_def after_gap_def)
  finally show ?thesis .
qed

text \<open>
  A page that begins before the interval and ends exactly at its first point holds measurements the query asks for, yet it is
  not read unless a selected page follows it directly in time.
\<close>

lemma interval_select_misses:
  assumes "from < to" and "\<forall>p \<in> set pages. h_minTime (pi_header p) \<le> h_maxTime (pi_header p)" and "distinct (map pi_name pages)"
    and "i < length pages" and "h_minTime (pi_header (pages ! i)) < from" and "h_maxTime (pi_header (pages ! i)) = from"
    and "Suc i < length pages \<Longrightarrow> h_minTime (pi_header (pages ! Suc i)) \<le> from"
  shows "pi_name (pages ! i) \<notin> set (fst (interval_select pages ids source flag from to))"
proof
  have le: "from \<le> to" using assms(1) by simp
  have nth: "pi_name (pages ! j) = pi_name (pages ! i) \<longleftrightarrow> j = i" if "j < length pages" for j
    using assms(3,4) that nth_eq_iff_index_eq [of "map pi_name pages" j i] by simp
  assume "pi_name (pages ! i) \<in> set (fst (interval_select pages ids source flag from to))"
  then obtain j where j: "j < length pages" "pi_name (pages ! i) \<in> set (picked pages ids source flag from to j)"
    unfolding interval_select_picked [OF le assms(2)] by auto
  have "\<not> hit from to (pi_header (pages ! i))" "\<not> after_gap pages from i"
    using assms(1,5,6) by (auto simp: hit_def after_gap_def)
  then have "picked pages ids source flag from to i = []" by (simp add: picked_def)
  then have ji: "j \<noteq> i" using j(2) by auto
  then have "pi_name (pages ! j) \<noteq> pi_name (pages ! i)" using nth [OF j(1)] by simp
  then have "after_gap pages from j" "pi_name (pages ! (j - 1)) = pi_name (pages ! i)"
    using j(2) by (simp_all add: picked_def split: if_splits)
  then have "j - 1 = i \<and> after_gap pages from j" using nth [of "j - 1"] j(1) by simp
  then have "j = Suc i" "from < h_minTime (pi_header (pages ! j))" by (auto simp: after_gap_def)
  then show False using assms(7) j(1) by simp
qed

section \<open>Reading whole pages\<close>

text \<open>A page file that opens, holds something, and whose time span lies within the interval.\<close>

definition readable :: "Time \<Rightarrow> Time \<Rightarrow> page_files \<Rightarrow> bool" where
  "readable from to f \<longleftrightarrow> files_log f \<noteq> [] \<and> from \<le> h_minTime (pf_header f) \<and> h_maxTime (pf_header f) \<le> to \<and>
     (\<exists>pg. page_Open (Some f) True = Inr pg \<and> page_inv pg \<and> in_times pg)"

lemma page_Open_fields:
  assumes "page_Open (Some f) True = Inr pg"
  shows "page_log pg = files_log f" "h_minTime (pg_header pg) = h_minTime (pf_header f)" "h_maxTime (pg_header pg) = h_maxTime (pf_header f)"
    "pg_mapped pg" "ix_cache_pos (pg_index pg) = 0" "h_write_pos (pg_header pg) = h_write_pos (pf_header f)" "0 < h_readers (pg_header pg)"
  using assms
  by (auto simp: page_Open_def bind_r_eq_Inr Let_def files_log_def page_log_def index_open_def split: if_splits prod.splits)

lemma page_release_ok:
  assumes "ix_cache_pos (pg_index pg) = 0"
  obtains pg' where "page_release pg = Inr pg'"
proof -
  have cl: "\<exists>q'. page_close q = Inr q' \<and> ix_cache_pos (pg_index q') = 0" if "ix_cache_pos (pg_index q) = 0" for q
    using that by (simp add: page_close_def page_flushIndex_def index_flush_def page_flushWriteWindow_def)
  let ?p = "pg\<lparr>pg_header := (pg_header pg)\<lparr>h_readers := h_readers (pg_header pg) - 1\<rparr>\<rparr>"
  obtain q where "readComplete pg = Inr q" "ix_cache_pos (pg_index q) = 0"
    using assms cl [of ?p] that by (cases "h_readers (pg_header pg) = 0"; cases "h_readers (pg_header pg) = 1") (auto simp: readComplete_def Let_def)
  then show ?thesis using cl [of q] that by (auto simp: page_release_def)
qed

text \<open>The state of a reader of whole pages: the page being read is in step with its file.\<close>

definition sr_good :: "Time \<Rightarrow> Time \<Rightarrow> sr_state \<Rightarrow> bool" where
  "sr_good from to s = (case s of (d, sr) \<Rightarrow>
     sr_interval sr = Some (from, to) \<and> sr_time_point sr = 0 \<and> sr_prev_interval_page sr = [] \<and> distinct (sr_pages sr) \<and>
     (\<forall>p \<in> set (sr_pages sr). \<exists>f. disk_get d p = Some f \<and> readable from to f) \<and>
     (case sr_current sr of
        None \<Rightarrow> True
      | Some (name, pg, Interval_reader rd) \<Rightarrow> name \<notin> set (sr_pages sr) \<and> disk_get d name = Some (page_disk pg) \<and> pg_mapped pg \<and>
          ix_cache_pos (pg_index pg) = 0 \<and> pri_good (pg, rd) \<and> \<not> pri_isEnd (pg, rd)
      | Some (name, pg, Time_point_reader tr) \<Rightarrow> False))"

definition page_matches :: "StorageReader \<Rightarrow> Time \<Rightarrow> Time \<Rightarrow> disk \<Rightarrow> string \<Rightarrow> meas list" where
  "page_matches sr from to d p = (case disk_get d p of
     None \<Rightarrow> [] | Some f \<Rightarrow> filter (matches (sr_ids sr) (sr_source sr) (sr_flag sr) from to) (files_log f))"

definition page_weight :: "disk \<Rightarrow> string \<Rightarrow> nat" where
  "page_weight d p = (case disk_get d p of None \<Rightarrow> 0 | Some f \<Rightarrow> Suc (h_write_pos (pf_header f)))"

definition sr_pending :: "Time \<Rightarrow> Time \<Rightarrow> sr_state \<Rightarrow> meas list" where
  "sr_pending from to s = (case s of (d, sr) \<Rightarrow>
     (case sr_current sr of Some (_, pg, Interval_reader rd) \<Rightarrow> pri_pending (pg, rd) | _ \<Rightarrow> []) @
     concat (map (page_matches sr from to d) (sr_pages sr)))"

definition sr_left :: "sr_state \<Rightarrow> nat" where
  "sr_left s = (case s of (d, sr) \<Rightarrow>
     (case sr_current sr of Some (_, pg, Interval_reader rd) \<Rightarrow> pri_left (pg, rd) | _ \<Rightarrow> 0) +
     sum_list (map (page_weight d) (sr_pages sr)))"

text \<open>Changes to other files do not matter to what a list of pages has to deliver.\<close>

lemma page_frame:
  assumes "\<And>q. q \<in> set ps \<Longrightarrow> disk_get d' q = disk_get d q" and "sr_ids sr' = sr_ids sr" and "sr_source sr' = sr_source sr"
    and "sr_flag sr' = sr_flag sr"
  shows "concat (map (page_matches sr' from to d') ps) = concat (map (page_matches sr from to d) ps)"
    "sum_list (map (page_weight d') ps) = sum_list (map (page_weight d) ps)"
proof -
  have "map (page_matches sr' from to d') ps = map (page_matches sr from to d) ps" "map (page_weight d') ps = map (page_weight d) ps"
    using assms(1) by (auto simp: page_matches_def page_weight_def assms(2-4) split: option.split)
  then show "concat (map (page_matches sr' from to d') ps) = concat (map (page_matches sr from to d) ps)"
    "sum_list (map (page_weight d') ps) = sum_list (map (page_weight d) ps)" by (simp_all only:)
qed

text \<open>Opening the next page changes neither what is to be delivered nor the bound.\<close>

lemma sr_next_page_ok:
  assumes good: "sr_good from to (d, sr)" and ps: "sr_pages sr = p # ps" and none: "sr_current sr = None"
  obtains d' pg rd where "sr_next_page (d, sr) = Inr (d', sr\<lparr>sr_pages := ps, sr_current := Some (p, pg, Interval_reader rd)\<rparr>)"
    "sr_good from to (d', sr\<lparr>sr_pages := ps, sr_current := Some (p, pg, Interval_reader rd)\<rparr>)"
    "sr_pending from to (d', sr\<lparr>sr_pages := ps, sr_current := Some (p, pg, Interval_reader rd)\<rparr>) = sr_pending from to (d, sr)"
    "sr_left (d', sr\<lparr>sr_pages := ps, sr_current := Some (p, pg, Interval_reader rd)\<rparr>) = sr_left (d, sr)"
proof -
  have g: "sr_interval sr = Some (from, to)" "sr_time_point sr = 0" "sr_prev_interval_page sr = []" "p \<notin> set ps" "distinct ps"
    "\<forall>q \<in> set ps. \<exists>f. disk_get d q = Some f \<and> readable from to f"
    using good ps by (auto simp: sr_good_def)
  obtain f pg where f: "disk_get d p = Some f" "readable from to f" "page_Open (Some f) True = Inr pg" "page_inv pg" "in_times pg"
    using good ps by (auto simp: sr_good_def readable_def)
  note o = page_Open_fields [OF f(3)]
  have r: "page_log pg \<noteq> []" "from \<le> h_minTime (pg_header pg)" "h_maxTime (pg_header pg) \<le> to" using f(2) o by (auto simp: readable_def)
  obtain rd where rd: "page_readInterval pg (sr_ids sr) (sr_source sr) (sr_flag sr) from to = Inr (pg, Some rd)" "pri_good (pg, rd)"
      "pri_pending (pg, rd) = filter (matches (sr_ids sr) (sr_source sr) (sr_flag sr) from to) (page_log pg)"
      "\<not> pri_isEnd (pg, rd)" "pri_left (pg, rd) = Suc (h_write_pos (pg_header pg))" "rd_prev_ww rd = []"
    by (rule whole_page_reader [OF f(4,5) r])
  have "set_prev_ww [] rd = rd" using rd(6) by (simp add: set_prev_ww_def)
  define d1 where "d1 = disk_put d p (page_disk pg)"
  define d2 where "d2 = disk_put d1 p (page_disk pg)"
  have get: "disk_get d2 q = (if q = p then Some (page_disk pg) else disk_get d q)" for q
    by (simp add: d2_def d1_def disk_get_put)
  have view: "page_view d1 p pg = Inr pg" using o(4) by (simp add: page_view_def d1_def disk_get_put)
  let ?sr = "sr\<lparr>sr_pages := ps, sr_current := Some (p, pg, Interval_reader rd)\<rparr>"
  have same: "concat (map (page_matches ?sr from to d2) ps) = concat (map (page_matches sr from to d) ps)"
    "sum_list (map (page_weight d2) ps) = sum_list (map (page_weight d) ps)"
    by (rule page_frame; use g(4) get in auto)+
  have "sr_next_page (d, sr) = Inr (d2, ?sr)"
    using g(1-3) ps f(1,3) rd(1) view \<open>set_prev_ww [] rd = rd\<close>
    by (simp add: sr_next_page_def prev_window_def flip: d1_def) (simp add: d2_def)
  moreover have "sr_good from to (d2, ?sr)" using g o rd(2,4) get by (auto simp: sr_good_def)
  moreover have "sr_pending from to (d2, ?sr) = sr_pending from to (d, sr)"
    using same(1) rd(3) ps none f(1) o(1) by (simp add: sr_pending_def) (simp add: page_matches_def)
  moreover have "sr_left (d2, ?sr) = sr_left (d, sr)"
    using same(2) rd(5) ps none f(1) o(6) by (simp add: sr_left_def) (simp add: page_weight_def)
  ultimately show ?thesis using that by blast
qed

lemma sr_read_ok:
  assumes rs: "0 < rs" and good: "sr_good from to (d, sr)" and cur: "sr_current sr = Some (name, pg, Interval_reader rd)"
  shows "\<exists>s' out. sr_readNext rs (d, sr) = Inr (s', out) \<and> sr_good from to s' \<and> sr_left s' < sr_left (d, sr) \<and>
    sr_pending from to (d, sr) = out @ sr_pending from to s'"
proof -
  have g: "sr_interval sr = Some (from, to)" "sr_time_point sr = 0" "sr_prev_interval_page sr = []" "distinct (sr_pages sr)"
    "\<forall>p \<in> set (sr_pages sr). \<exists>f. disk_get d p = Some f \<and> readable from to f"
    "name \<notin> set (sr_pages sr)" "disk_get d name = Some (page_disk pg)" "pg_mapped pg" "ix_cache_pos (pg_index pg) = 0"
    "pri_good (pg, rd)" "\<not> pri_isEnd (pg, rd)"
    using good cur by (auto simp: sr_good_def)
  have view: "page_view d name pg = Inr pg" using g(7,8) by (simp add: page_view_def)
  from pri_next_ok [OF rs g(10,11)] obtain rd' out where
    n: "pri_readNext rs (pg, rd) = Inr ((pg, rd'), out)" "pri_good (pg, rd')" "pri_left (pg, rd') < pri_left (pg, rd)"
      "pri_pending (pg, rd) = out @ pri_pending (pg, rd')" by fastforce
  have ne: "\<not> sr_isEnd (d, sr)" using g(11) cur by (simp add: sr_isEnd_def)
  have frame: "concat (map (page_matches (sr\<lparr>sr_current := c\<rparr>) from to d') (sr_pages sr)) = concat (map (page_matches sr from to d) (sr_pages sr))"
      "sum_list (map (page_weight d') (sr_pages sr)) = sum_list (map (page_weight d) (sr_pages sr))"
    if "\<And>q. q \<noteq> name \<Longrightarrow> disk_get d' q = disk_get d q" for c d'
  proof -
    have eq: "disk_get d' q = disk_get d q" if "q \<in> set (sr_pages sr)" for q
      using g(6) that \<open>\<And>q. q \<noteq> name \<Longrightarrow> disk_get d' q = disk_get d q\<close> [of q] by blast
    show "concat (map (page_matches (sr\<lparr>sr_current := c\<rparr>) from to d') (sr_pages sr)) = concat (map (page_matches sr from to d) (sr_pages sr))"
      "sum_list (map (page_weight d') (sr_pages sr)) = sum_list (map (page_weight d) (sr_pages sr))"
      by (rule page_frame; simp add: eq)+
  qed
  define d2 where "d2 = disk_put d name (page_disk pg)"
  have get: "disk_get d2 q = disk_get d q" for q using g(7) by (simp add: d2_def disk_get_put)
  show ?thesis
  proof (cases "pri_isEnd (pg, rd')")
    case True
    obtain pg3 where pg3: "page_release pg = Inr pg3" by (rule page_release_ok [OF g(9)])
    define d3 where "d3 = disk_put d2 name (page_disk pg3)"
    have get3: "disk_get d3 q = disk_get d q" if "q \<noteq> name" for q using that get by (simp add: d3_def disk_get_put)
    let ?s = "(d3, sr\<lparr>sr_current := None\<rparr>)"
    have step: "sr_readNext rs (d, sr) = Inr (?s, out)"
      using ne cur view n(1) True pg3 by (simp add: sr_readNext_def Let_def d2_def d3_def)
    have "\<forall>p \<in> set (sr_pages sr). \<exists>f. disk_get d3 p = Some f \<and> readable from to f"
      using g(5,6) get3 by (metis (no_types))
    then have "sr_good from to ?s" using g(1-4) by (simp add: sr_good_def)
    moreover have "sr_pending from to (d, sr) = out @ sr_pending from to ?s"
      using n(4) pri_end_pending [OF n(2) True] frame(1) [OF get3, of None] cur by (simp add: sr_pending_def)
    moreover have "sr_left ?s < sr_left (d, sr)" using n(3) frame(2) [OF get3] cur by (simp add: sr_left_def)
    ultimately show ?thesis using step by (intro exI [of _ ?s] exI [of _ out]) simp
  next
    case False
    let ?c = "Some (name, pg, Interval_reader rd')"
    let ?s = "(d2, sr\<lparr>sr_current := ?c\<rparr>)"
    have step: "sr_readNext rs (d, sr) = Inr (?s, out)"
      using ne cur view n(1) False by (simp add: sr_readNext_def Let_def d2_def)
    have "sr_good from to ?s" using g n(2) False get by (simp add: sr_good_def)
    moreover have "sr_pending from to (d, sr) = out @ sr_pending from to ?s"
      using n(4) frame(1) [of d2 ?c, OF get] cur by (simp add: sr_pending_def)
    moreover have "sr_left ?s < sr_left (d, sr)" using n(3) frame(2) [of d2, OF get] cur by (simp add: sr_left_def)
    ultimately show ?thesis using step by (intro exI [of _ ?s] exI [of _ out]) simp
  qed
qed

lemma sr_next_ok:
  assumes rs: "0 < rs" and good: "sr_good from to s" and ne: "\<not> sr_isEnd s"
  shows "\<exists>s' out. sr_readNext rs s = Inr (s', out) \<and> sr_good from to s' \<and> sr_left s' < sr_left s \<and>
    sr_pending from to s = out @ sr_pending from to s'"
proof -
  obtain d sr where s: "s = (d, sr)" by (cases s)
  show ?thesis
  proof (cases "sr_current sr")
    case None
    then obtain p ps where ps: "sr_pages sr = p # ps" using ne by (cases "sr_pages sr") (auto simp: s sr_isEnd_def)
    obtain d' pg rd where
      o: "sr_next_page (d, sr) = Inr (d', sr\<lparr>sr_pages := ps, sr_current := Some (p, pg, Interval_reader rd)\<rparr>)"
        "sr_good from to (d', sr\<lparr>sr_pages := ps, sr_current := Some (p, pg, Interval_reader rd)\<rparr>)"
        "sr_pending from to (d', sr\<lparr>sr_pages := ps, sr_current := Some (p, pg, Interval_reader rd)\<rparr>) = sr_pending from to (d, sr)"
        "sr_left (d', sr\<lparr>sr_pages := ps, sr_current := Some (p, pg, Interval_reader rd)\<rparr>) = sr_left (d, sr)"
      using sr_next_page_ok [OF _ ps None, of "from" to d] good s by metis
    let ?s1 = "(d', sr\<lparr>sr_pages := ps, sr_current := Some (p, pg, Interval_reader rd)\<rparr>)"
    have "\<not> sr_isEnd ?s1" using o(2) by (simp add: sr_good_def sr_isEnd_def)
    then have "sr_readNext rs s = sr_readNext rs ?s1" using ne None o(1) by (simp add: sr_readNext_def s)
    moreover have "\<exists>s' out. sr_readNext rs ?s1 = Inr (s', out) \<and> sr_good from to s' \<and> sr_left s' < sr_left ?s1 \<and>
      sr_pending from to ?s1 = out @ sr_pending from to s'"
      by (rule sr_read_ok [OF rs o(2)]) simp
    ultimately show ?thesis using o(3,4) s by simp
  next
    case (Some c)
    then obtain name pg rd where "sr_current sr = Some (name, pg, Interval_reader rd)"
      using good s by (cases c) (auto simp: sr_good_def split: any_reader.splits)
    then show ?thesis using sr_read_ok [OF rs, of "from" to d sr] good s by blast
  qed
qed

lemma sr_end_pending: "sr_good from to s \<Longrightarrow> sr_isEnd s \<Longrightarrow> sr_pending from to s = []"
  by (auto simp: sr_good_def sr_isEnd_def sr_pending_def Let_def split: option.splits any_reader.splits if_splits prod.splits)

text \<open>The reader of a storage meets the contract of a reader as well.\<close>

interpretation sr: reader sr_isEnd "sr_readNext (Suc rs)" "sr_good from to" sr_left "sr_pending from to"
  for rs "from" to
  by unfold_locales (use sr_next_ok [of "Suc rs"] sr_end_pending in blast)+

section \<open>From the query to the measurements\<close>

lemma foldl_addPage: "foldl addPage sr ps = sr\<lparr>sr_pages := sr_pages sr @ ps\<rparr>"
  by (induction ps arbitrary: sr) (simp_all add: addPage_def)

lemma read_infos_ok:
  assumes "read_infos d pages = Inr infos"
  shows "map pi_name infos = pages" "\<forall>p \<in> set infos. \<exists>f. disk_get d (pi_name p) = Some f \<and> pi_header p = pf_header f"
proof -
  let ?step = "\<lambda>infos p. bind_r (header_of d p) (\<lambda>hdr. Inr (infos @ [\<lparr>pi_header = hdr, pi_name = p\<rparr>]))"
  let ?P = "\<lambda>infos. \<forall>p \<in> set infos. \<exists>f. disk_get d (pi_name p) = Some f \<and> pi_header p = pf_header f"
  have "fold_r ?step acc ps = Inr infos \<Longrightarrow> ?P acc \<Longrightarrow> map pi_name infos = map pi_name acc @ ps \<and> ?P infos" for acc ps
  proof (induction ps arbitrary: acc)
    case (Cons p ps)
    then obtain hdr where h: "header_of d p = Inr hdr" "fold_r ?step (acc @ [\<lparr>pi_header = hdr, pi_name = p\<rparr>]) ps = Inr infos"
      by (auto simp: bind_r_eq_Inr)
    have "?P (acc @ [\<lparr>pi_header = hdr, pi_name = p\<rparr>])"
      using Cons.prems(2) h(1) by (auto simp: header_of_def page_ReadHeader_def split: option.splits)
    from Cons.IH [OF h(2) this] show ?case by simp
  qed simp
  from this [of "[]" pages] show "map pi_name infos = pages" "?P infos" using assms by (simp_all add: read_infos_def)
qed

lemma pagesByTime_ok:
  assumes "std_sort later_page srt" and "pagesByTime srt wd = Inr (wd', infos)"
  obtains pm where "wd_disk wd' = wd_disk wd" "wd_instance wd' = Some pm" "mset (map pi_name infos) = mset (pm_page_list pm)"
    "\<forall>p \<in> set infos. \<exists>f. disk_get (wd_disk wd) (pi_name p) = Some f \<and> pi_header p = pf_header f"
proof -
  obtain ps js where l: "pageList wd = Inr (wd', ps)" "read_infos (wd_disk wd') ps = Inr js" "infos = srt js"
    using assms(2) by (auto simp: pagesByTime_def bind_r_eq_Inr)
  obtain pm where pm: "wd_disk wd' = wd_disk wd" "wd_instance wd' = Some pm" "pm_page_list pm = ps"
    using l(1) by (auto simp: pageList_def bind_r_eq_Inr pm_set_def Let_def split: if_splits)
  have m: "mset infos = mset js" using assms(1) l(3) by (simp add: std_sort_def)
  then have "mset (map pi_name infos) = mset (pm_page_list pm)" unfolding read_infos_ok(1) [OF l(2), symmetric] pm(3) by simp
  moreover have "set infos = set js" using m by (metis set_mset_mset)
  ultimately show ?thesis using that pm read_infos_ok(2) [OF l(2)] by simp
qed

text \<open>The filters of the header know every measurement of the page.\<close>

definition filters_sound :: "page_files \<Rightarrow> bool" where
  "filters_sound f \<longleftrightarrow> (\<forall>m \<in> set (files_log f). bloom_check (h_id_fltr (pf_header f)) (m_id m) \<and>
     bloom_check (h_flag_fltr (pf_header f)) (m_flag m) \<and> bloom_check (h_src_fltr (pf_header f)) (m_source m))"

lemma filters_pass_match:
  assumes "filters_sound f" and "m \<in> set (files_log f)" and "matches ids source flag from to m"
  shows "filters_pass ids source flag (pf_header f)"
  using assms by (auto simp: filters_sound_def matches_def filters_pass_def)

text \<open>An interval that includes the span of every page, beginning before all of them, picks every page that passes the filters.\<close>

lemma whole_select:
  assumes "\<forall>p \<in> set pages. from < h_minTime (pi_header p) \<and> h_minTime (pi_header p) \<le> h_maxTime (pi_header p) \<and> h_maxTime (pi_header p) \<le> to"
  shows "interval_select pages ids source flag from to = (map pi_name (filter (\<lambda>p. filters_pass ids source flag (pi_header p)) pages), [])"
proof -
  have step: "interval_step pages ids source flag from to s i =
      (fst s @ (if filters_pass ids source flag (pi_header (pages ! i)) then [pi_name (pages ! i)] else []), snd s)"
    if "i < length pages" for s i
  proof -
    have mem: "pages ! i \<in> set pages" "pages ! (i - 1) \<in> set pages" using that by auto
    have t: "\<not> h_minTime (pi_header (pages ! i)) \<le> from" "from \<le> h_minTime (pi_header (pages ! i))" "h_maxTime (pi_header (pages ! i)) \<le> to"
      using assms mem(1) by auto
    have "from < h_maxTime (pi_header (pages ! (i - 1)))" using assms mem(2) by (meson less_le_trans)
    then have u: "\<not> h_maxTime (pi_header (pages ! (i - 1))) \<le> from" by (simp add: not_le)
    show ?thesis
      by (cases s) (simp only: interval_step_def Let_def prod.case t u fst_conv snd_conv simp_thms if_True if_False append_Nil2
          split: if_split, blast)
  qed
  have "foldl (interval_step pages ids source flag from to) ([], []) [0..<n] =
      (map pi_name (filter (\<lambda>p. filters_pass ids source flag (pi_header p)) (take n pages)), [])" if "n \<le> length pages" for n
    using that by (induction n) (simp_all add: step take_Suc_conv_app_nth)
  from this [of "length pages"] show ?thesis by (simp add: interval_select_def)
qed



text \<open>What the answer of an interval query is made of.\<close>

lemma readInterval_parts:
  assumes "std_sort later_page (e_sort_pages env)" and "storage_readInterval env st ids source flag from to = Inr (st', sr)"
    and "wd_instance (st_world st') = Some pm"
  obtains pages where "mset (map pi_name pages) = mset (pm_page_list pm)"
    "\<forall>p \<in> set pages. \<exists>f. disk_get (wd_disk (st_world st')) (pi_name p) = Some f \<and> pi_header p = pf_header f"
    "sr = (new_StorageReader ids source flag)\<lparr>sr_interval := Some (from, to),
       sr_prev_interval_page := snd (interval_select pages ids source flag from to),
       sr_pages := fst (interval_select pages ids source flag from to)\<rparr>"
proof -
  obtain st1 wd pages where q: "pagesByTime (e_sort_pages env) (st_world st1) = Inr (wd, pages)"
      "storage_continue (st1\<lparr>st_world := wd\<rparr>) = st'"
      "foldl addPage ((new_StorageReader ids source flag)\<lparr>sr_interval := Some (from, to),
         sr_prev_interval_page := snd (interval_select (rev pages) ids source flag from to)\<rparr>)
         (fst (interval_select (rev pages) ids source flag from to)) = sr"
    using assms(2) by (auto simp: storage_readInterval_def paused_pages_def bind_r_eq_Inr Let_def case_prod_beta)
  have w: "st_world st' = wd" using q(2) by (auto simp: storage_continue_def)
  obtain pm' where "wd_disk wd = wd_disk (st_world st1)" "wd_instance wd = Some pm'" "mset (map pi_name pages) = mset (pm_page_list pm')"
      "\<forall>p \<in> set pages. \<exists>f. disk_get (wd_disk (st_world st1)) (pi_name p) = Some f \<and> pi_header p = pf_header f"
    by (rule pagesByTime_ok [OF assms(1) q(1)])
  then show ?thesis using that [of "rev pages"] q(3) w assms(3) by (auto simp: foldl_addPage new_StorageReader_def)
qed

lemma readable_span: "readable from to f \<Longrightarrow> h_minTime (pf_header f) \<le> h_maxTime (pf_header f)"
proof -
  assume "readable from to f"
  then obtain pg where pg: "page_Open (Some f) True = Inr pg" "in_times pg" "files_log f \<noteq> []" by (auto simp: readable_def)
  from before_max [OF pg(2), of "h_minTime (pf_header f)"] pg(3) page_Open_fields [OF pg(1)] show ?thesis by simp
qed

lemma mset_concat_filter:
  assumes "\<And>x. x \<in> set xs \<Longrightarrow> \<not> P x \<Longrightarrow> g (h x) = []"
  shows "mset (concat (map g (map h (filter P xs)))) = (\<Sum>y \<in># mset (map h xs). mset (g y))"
  using assms by (induction xs) auto

text \<open>
  A query for an interval that includes the time span of every page: draining the reader ends without an error and delivers, page by
  page, exactly the stored measurements that match. Pages are found by name, skipped by their filters, opened and released; none is lost
  and none is read twice.
\<close>

lemma whole_range_ok:
  assumes "std_sort later_page (e_sort_pages env)" and "storage_readInterval env st ids source flag from to = Inr (st', sr)"
    and "wd_instance (st_world st') = Some pm" and "distinct (pm_page_list pm)"
    and "\<forall>p \<in> set (pm_page_list pm). \<exists>f. disk_get (wd_disk (st_world st')) p = Some f \<and> readable from to f \<and> filters_sound f \<and>
      from < h_minTime (pf_header f)" and "0 < rs"
  shows "\<exists>n s' out. readAll sr_isEnd (sr_readNext rs) n (wd_disk (st_world st'), sr) [] = Inr (s', out) \<and> sr_isEnd s' \<and>
    mset out = (\<Sum>p \<in># mset (pm_page_list pm).
      mset (filter (matches ids source flag from to) (files_log (the (disk_get (wd_disk (st_world st')) p)))))"
proof -
  define d where "d = wd_disk (st_world st')"
  from readInterval_parts [OF assms(1-3)] obtain pages where
    q: "mset (map pi_name pages) = mset (pm_page_list pm)" "\<forall>p \<in> set pages. \<exists>f. disk_get d (pi_name p) = Some f \<and> pi_header p = pf_header f"
      "sr = (new_StorageReader ids source flag)\<lparr>sr_interval := Some (from, to),
         sr_prev_interval_page := snd (interval_select pages ids source flag from to),
         sr_pages := fst (interval_select pages ids source flag from to)\<rparr>" unfolding d_def by metis
  have sn: "set (map pi_name pages) = set (pm_page_list pm)" "distinct (map pi_name pages)"
    using q(1) assms(4) by (metis set_mset_mset, metis mset_eq_imp_distinct_iff)
  have fl: "\<exists>f. disk_get d (pi_name p) = Some f \<and> pi_header p = pf_header f \<and> readable from to f \<and> filters_sound f \<and> from < h_minTime (pf_header f)"
    if "p \<in> set pages" for p
  proof -
    have "pi_name p \<in> set (pm_page_list pm)" using that sn(1) by auto
    then show ?thesis using assms(5) q(2) that unfolding d_def by fastforce
  qed
  let ?pass = "\<lambda>p. filters_pass ids source flag (pi_header p)" and ?out = "\<lambda>p. filter (matches ids source flag from to) (files_log (the (disk_get d p)))"
  define ps where "ps = map pi_name (filter ?pass pages)"
  have sel: "interval_select pages ids source flag from to = (ps, [])"
    unfolding ps_def by (rule whole_select) (use fl readable_span in \<open>fastforce simp: readable_def\<close>)
  have sr: "sr = (new_StorageReader ids source flag)\<lparr>sr_interval := Some (from, to), sr_pages := ps\<rparr>"
    using q(3) sel by (simp add: new_StorageReader_def)
  have "distinct ps" using sn(2) by (simp add: ps_def distinct_map inj_on_def)
  moreover have "\<forall>p \<in> set ps. \<exists>f. disk_get d p = Some f \<and> readable from to f" using fl by (fastforce simp: ps_def)
  ultimately have good: "sr_good from to (d, sr)" by (simp add: sr_good_def sr new_StorageReader_def)
  have "map (page_matches sr from to d) ps = map ?out ps"
    using fl by (auto simp: page_matches_def sr new_StorageReader_def ps_def dest!: fl)
  moreover have "sr_pending from to (d, sr) = concat (map (page_matches sr from to d) ps)"
    by (simp add: sr_pending_def) (simp add: sr new_StorageReader_def)
  ultimately have pend: "sr_pending from to (d, sr) = concat (map ?out ps)" by (simp only:)
  have "?out (pi_name p) = []" if "p \<in> set pages" "\<not> ?pass p" for p
    using fl [OF that(1)] filters_pass_match that(2) by (fastforce simp: filter_empty_conv)
  from mset_concat_filter [of pages ?pass ?out pi_name, OF this] pend q(1)
  have "mset (sr_pending from to (d, sr)) = (\<Sum>p \<in># mset (pm_page_list pm). mset (?out p))" unfolding ps_def by simp
  with sr.readAll_delivers [OF good order_refl, of "rs - 1" "[]"] assms(6) show ?thesis unfolding d_def by auto
qed

text \<open>Pages as the writer leaves them can be read.\<close>

lemma page_fine_opens:
  assumes "page_fine q" and "ro \<or> \<not> h_isOpen (pg_header q)"
  obtains pg where "page_Open (Some (page_disk q)) ro = Inr pg" "page_inv pg" "in_times pg" "page_log pg = page_log q"
    "page_fine pg"
proof -
  note fine = assms(1) [unfolded page_fine_def]
  obtain w where w: "load_window_file [] (pg_window_file q) = Inr w" using fine by blast
  define pg where "pg = q\<lparr>pg_header := (if ro then (pg_header q)\<lparr>h_isOpen := True, h_readers := h_readers (pg_header q) + 1\<rparr>
      else (pg_header q)\<lparr>h_isOpen := True\<rparr>),
    pg_index := \<lparr>ix_cache = replicate indexCacheSize zero_record, ix_cache_pos = 0, ix_header = ix_header (pg_index q), ix_data = ix_data (pg_index q)\<rparr>,
    pg_window := w, pg_mapped := True\<rparr>"
  have "page_Open (Some (page_disk q)) ro = Inr pg"
    using fine w assms(2)
    by (cases ro) (auto simp: page_Open_def page_ReadHeader_def page_disk_def index_open_def index_setFileName_def Let_def pg_def)
  moreover have "page_inv pg" "in_times pg" "page_log pg = page_log q"
    using fine by (simp_all add: pg_def page_inv_def in_times_def page_log_def Let_def)
  moreover have "ww_wf w" using w ww_wf_updateAll [OF ww_wf_Nil] by (auto simp: load_window_file_def split: option.splits)
  then have "page_fine pg"
    using fine w calculation(2-4) by (auto simp: page_fine_def filters_ok_def span_tight_def Let_def pg_def)
  ultimately show ?thesis by (rule that)
qed

lemma page_fine_readable:
  assumes "page_fine q" and "page_log q \<noteq> []" and "\<forall>m \<in> set (page_log q). from < m_time m \<and> m_time m \<le> to"
  shows "readable from to (page_disk q)" "filters_sound (page_disk q)" "from < h_minTime (pf_header (page_disk q))"
proof -
  note fine = assms(1) [unfolded page_fine_def]
  obtain pg where "page_Open (Some (page_disk q)) True = Inr pg" "page_inv pg" "in_times pg"
    by (rule page_fine_opens [OF assms(1)]) auto
  moreover have "h_minTime (pg_header q) \<in> m_time ` set (page_log q)" "h_maxTime (pg_header q) \<in> m_time ` set (page_log q)"
    using fine assms(2) by (simp_all add: span_tight_def Let_def)
  then have "from < h_minTime (pg_header q)" "h_maxTime (pg_header q) \<le> to" using assms(3) by auto
  moreover have "pf_header (page_disk q) = pg_header q" by (simp add: page_disk_def)
  ultimately show "readable from to (page_disk q)" "from < h_minTime (pf_header (page_disk q))"
    using assms(2) by (auto simp: readable_def)
  show "filters_sound (page_disk q)" using fine by (simp add: filters_sound_def filters_ok_def) (simp add: page_disk_def)
qed

lemma disk_file_log: "disk_get d p = Some f \<Longrightarrow> set (files_log f) \<subseteq> set (disk_log d)"
  by (auto simp: disk_get_def disk_log_def dest!: map_of_SomeD)

lemma fine_file_readable:
  assumes "disk_get d p = Some f" and "\<exists>q. page_fine q \<and> f = page_disk q \<and> page_log q \<noteq> []"
    and "\<forall>m \<in> set (disk_log d). from < m_time m \<and> m_time m \<le> to"
  shows "readable from to f \<and> filters_sound f \<and> from < h_minTime (pf_header f)"
proof -
  obtain q where q: "page_fine q" "f = page_disk q" "page_log q \<noteq> []" using assms(2) by blast
  have "\<forall>m \<in> set (page_log q). from < m_time m \<and> m_time m \<le> to" using disk_file_log [OF assms(1)] assms(3) q(2) by auto
  from page_fine_readable [OF q(1,3) this] q(2) show ?thesis by blast
qed

text \<open>A single page without measurements is the whole of an empty storage.\<close>

lemma alone_empty:
  assumes "disk_get d p = Some f" and "files_log f = []" and "length (d_files d) = 1"
  shows "disk_log d = []"
proof -
  obtain x where x: "d_files d = [x]" using assms(3) by (auto simp: length_Suc_conv)
  then show ?thesis using assms(1,2) by (auto simp: disk_get_def disk_log_def split: if_splits)
qed

lemma writer_files_readable:
  assumes ok: "writer_ok n wd pm name pg" and ne: "disk_log (wd_disk wd) \<noteq> []"
    and times: "\<forall>m \<in> set (disk_log (wd_disk wd)). from < m_time m \<and> m_time m \<le> to" and p: "p \<in> set (pm_page_list pm)"
  shows "\<exists>f. disk_get (wd_disk wd) p = Some f \<and> readable from to f \<and> filters_sound f \<and> from < h_minTime (pf_header f)"
proof -
  have mid: "writer_mid n wd pm name pg" using ok by (simp add: writer_ok_def writer_ready_def)
  note d = writer_midD [OF mid]
  have "p \<in> fst ` set (d_files (wd_disk wd))" using d(6) p by (simp add: lib_ok_def)
  then obtain f where f: "disk_get (wd_disk wd) p = Some f" by (auto simp: disk_get_def dest: weak_map_of_SomeI)
  have "\<exists>q. page_fine q \<and> f = page_disk q \<and> page_log q \<noteq> []"
  proof (cases "p = name")
    case True
    have "page_log pg \<noteq> []" using alone_empty [OF d(7)] ok ne by (auto simp: writer_ok_def)
    then show ?thesis using d(2,7) f True by (auto simp: writable_def)
  next
    case False
    then show ?thesis using d(6) f by (auto simp: lib_ok_def file_fine_def)
  qed
  from fine_file_readable [OF f this times] f show ?thesis by blast
qed

text \<open>All pages together.\<close>

lemma page_sum:
  assumes "distinct (map fst (d_files d))" and "distinct names" and "set names = fst ` set (d_files d)"
  shows "(\<Sum>p \<in># mset names. mset (filter P (files_log (the (disk_get d p))))) = filter_mset P (mset (disk_log d))"
proof -
  let ?g = "\<lambda>p. mset (filter P (files_log (the (disk_get d p))))"
  have "mset names = mset (map fst (d_files d))" using assms set_eq_iff_mset_eq_distinct [of names "map fst (d_files d)"] by simp
  then have "(\<Sum>p \<in># mset names. ?g p) = sum_mset (mset (map ?g (map fst (d_files d))))" by (simp only: mset_map)
  also have "\<dots> = sum_list (map ?g (map fst (d_files d)))" by (rule sum_mset_sum_list)
  also have "map ?g (map fst (d_files d)) = map (\<lambda>x. mset (filter P (files_log (snd x)))) (d_files d)"
    using assms(1) by (auto simp: disk_get_def)
  also have "sum_list (map (\<lambda>x. mset (filter P (files_log (snd x)))) xs) = filter_mset P (mset (concat (map (files_log \<circ> snd) xs)))"
    for xs :: "(string \<times> page_files) list"
    by (induction xs) auto
  finally show ?thesis by (simp add: disk_log_def)
qed

text \<open>The list of pages is found whenever every page of the manager has a file.\<close>

lemma read_infos_returns:
  assumes "\<forall>p \<in> set ps. disk_get d p \<noteq> None"
  shows "\<exists>infos. read_infos d ps = Inr infos"
proof -
  have "\<exists>infos. fold_r (\<lambda>infos p. bind_r (header_of d p) (\<lambda>hdr. Inr (infos @ [\<lparr>pi_header = hdr, pi_name = p\<rparr>]))) acc ps = Inr infos" for acc
    using assms by (induction ps arbitrary: acc) (auto simp: header_of_def page_ReadHeader_def)
  then show ?thesis by (simp add: read_infos_def)
qed

lemma pagesByTime_returns:
  assumes "writer_ok n wd pm name pg"
  obtains pages where "pagesByTime srt wd = Inr (wd, pages)"
proof -
  have mid: "writer_mid n wd pm name pg" using assms by (simp add: writer_ok_def writer_ready_def)
  note d = writer_midD [OF mid]
  have "set (pm_page_list pm) = fst ` set (d_files (wd_disk wd))" using d(6) by (simp add: lib_ok_def)
  then have files: "\<forall>p \<in> set (pm_page_list pm). disk_get (wd_disk wd) p \<noteq> None" by (simp add: disk_get_def map_of_eq_None_iff)
  have "pm_page_list pm \<noteq> []" using d(6,7) by (auto simp: lib_ok_def disk_get_def)
  then have "pageList wd = Inr (wd, pm_page_list pm)"
    using d(1) by (cases wd) (simp add: pageList_def pm_get_def cur_synced_def pm_set_def)
  then show ?thesis using read_infos_returns [OF files] that by (auto simp: pagesByTime_def)
qed

lemma query_total_ok:
  assumes "std_sort MeasCmpByTime (e_sort env)" and "std_sort later_page (e_sort_pages env)" and "st_inv n st extra"
    and q: "storage_readInterval env st ids source flag from to = Inr (st', sr)" and "0 < rs"
    and ne: "st_total st \<noteq> {#}" and times: "\<forall>m \<in># st_total st. from < m_time m \<and> m_time m \<le> to"
  shows "\<exists>k s' out. readAll sr_isEnd (sr_readNext rs) k (wd_disk (st_world st'), sr) [] = Inr (s', out) \<and> sr_isEnd s' \<and>
    mset out = filter_mset (matches ids source flag from to) (st_total st)"
proof -
  obtain st1 st2 wd pages where p: "flush_and_stop env st = Inr st1" "storage_pause env st1 = Inr st2"
      "pagesByTime (e_sort_pages env) (st_world st2) = Inr (wd, pages)" "st_world st' = wd"
    using q by (auto simp: storage_readInterval_def paused_pages_def bind_r_eq_Inr Let_def case_prod_beta storage_continue_def)
  note f = flush_pause_ok [OF assms(1,3) p(1,2)]
  obtain pm name pg where w: "writer_ok n (st_world st2) pm name pg" using f(5) by (auto simp: st_inv_def data_inv_def Let_def)
  then have mid: "writer_mid n (st_world st2) pm name pg" by (simp add: writer_ok_def writer_ready_def)
  note d = writer_midD [OF mid]
  define dk where "dk = wd_disk (st_world st2)"
  have log: "mset (disk_log dk) = st_total st" unfolding dk_def by (rule f(1))
  have names: "distinct (pm_page_list pm)" "set (pm_page_list pm) = fst ` set (d_files dk)" "pm_page_list pm \<noteq> []"
    using d(6,7) by (auto simp: lib_ok_def dk_def disk_get_def)
  have wd: "wd_disk wd = dk" "wd_instance wd = Some pm"
    using p(3) d(1) names(3) by (auto simp: pagesByTime_def pageList_def pm_get_def cur_synced_def bind_r_eq_Inr pm_set_def dk_def)
  have "disk_log dk \<noteq> []" "\<forall>m \<in> set (disk_log dk). from < m_time m \<and> m_time m \<le> to"
    using log ne times by (auto simp flip: log)
  then have "\<forall>p \<in> set (pm_page_list pm). \<exists>f. disk_get (wd_disk (st_world st')) p = Some f \<and> readable from to f \<and> filters_sound f \<and>
      from < h_minTime (pf_header f)"
    using writer_files_readable [OF w] p(4) wd(1) by (simp add: dk_def)
  from whole_range_ok [OF assms(2) q _ names(1) this assms(5)] p(4) wd
    page_sum [OF d(4) names(1) names(2) [unfolded dk_def], of "matches ids source flag from to"] log
  show ?thesis by (simp add: dk_def)
qed

text \<open>
  C4. A query finds everything the storage holds, wherever it is: measurements in the current cache, in caches on their way and
  on pages. With a writer thread that is awake and enough steps for it, a query over all times returns, and draining its
  reader ends without an error and delivers, as a multiset, exactly the measurements with the wanted ids, source and flag.
\<close>

theorem query_delivers_total:
  assumes "std_sort MeasCmpByTime (e_sort env)" and "std_sort later_page (e_sort_pages env)" and "st_inv n st []"
    and "st_cache st = Some a" and "free_set st \<noteq> {}" and "awake (st_writer st)" and "w_pc (st_writer st) \<noteq> Enter_wait"
    and "st_sched st = ks @ [j]" and "2 \<le> length ks" and "steps_left (st_writer st) + 8 \<le> sum_list ks"
    and "st_total st \<noteq> {#}" and "\<forall>m \<in># st_total st. from < m_time m \<and> m_time m \<le> to" and "0 < rs"
  shows "\<exists>st' sr k s' out. storage_readInterval env st ids source flag from to = Inr (st', sr) \<and>
    readAll sr_isEnd (sr_readNext rs) k (wd_disk (st_world st'), sr) [] = Inr (s', out) \<and> sr_isEnd s' \<and>
    mset out = filter_mset (matches ids source flag from to) (st_total st)"
proof -
  obtain st1 st2 where p: "flush_and_stop env st = Inr st1" "storage_pause env st1 = Inr st2"
    by (rule flush_pause_returns [OF assms(1,3-10)])
  obtain pm name pg where "writer_ok n (st_world st2) pm name pg"
    using flush_pause_ok(5) [OF assms(1,3) p] by (auto simp: st_inv_def data_inv_def Let_def)
  then obtain pages where "pagesByTime (e_sort_pages env) (st_world st2) = Inr (st_world st2, pages)"
    by (rule pagesByTime_returns)
  then obtain st' sr where q: "storage_readInterval env st ids source flag from to = Inr (st', sr)"
    using p by (simp add: storage_readInterval_def paused_pages_def Let_def case_prod_beta)
  from query_total_ok [OF assms(1-3) q assms(13,11,12)] q show ?thesis by blast
qed

text \<open>The sorting of pages that the witnesses use.\<close>

lemma sort_pages_ok: "std_sort later_page (\<lambda>ps. rev (sort_key (\<lambda>p. h_maxTime (pi_header p)) ps))"
proof -
  have "sorted_wrt (\<lambda>a b. h_maxTime (pi_header a) \<le> h_maxTime (pi_header b)) (sort_key (\<lambda>p. h_maxTime (pi_header p)) ps)" for ps :: "PageInfo list"
    by (rule sorted_map [THEN iffD1, OF sorted_sort_key])
  then show ?thesis by (simp add: std_sort_def later_page_def not_less sorted_wrt_rev del: sorted_sort_key)
qed

theorem query_delivers_total_witness:
  "\<exists>env wd st' sr k s' out. storage_readInterval env (small_storage [2, 2, 30, 0] wd) [7] 0 0 1 20 = Inr (st', sr) \<and>
    readAll sr_isEnd (sr_readNext 5) k (wd_disk (st_world st'), sr) [] = Inr (s', out) \<and> sr_isEnd s' \<and>
    mset out = {#meas_stored (empty_meas\<lparr>m_size := 8, m_time := 3, m_id := 7\<rparr>)#}"
proof -
  let ?m = "empty_meas\<lparr>m_size := 8, m_time := 3, m_id := 7\<rparr>" and ?sched = "[2, 2, 30, 0]"
  let ?env = "\<lparr>e_sort = sort_key m_time, e_sort_pages = \<lambda>ps. rev (sort_key (\<lambda>p. h_maxTime (pi_header p)) ps), e_time = \<lambda>_ _. 7\<rparr>"
  obtain wd where w: "st_inv 10000 (small_storage ?sched wd) []" "st_total (small_storage ?sched wd) = {#meas_stored ?m#}"
    by (rule small_storage_one [of ?m ?sched]) (simp_all add: sample_meas8)
  note f = small_storage_fields [of ?sched wd] and c = small_storage_client [of ?sched wd]
  have srt: "std_sort MeasCmpByTime (e_sort ?env)" "std_sort later_page (e_sort_pages ?env)" by (simp_all add: std_sort_exists sort_pages_ok)
  have "\<exists>st' sr k s' out. storage_readInterval ?env (small_storage ?sched wd) [7] 0 0 1 20 = Inr (st', sr) \<and>
    readAll sr_isEnd (sr_readNext 5) k (wd_disk (st_world st'), sr) [] = Inr (s', out) \<and> sr_isEnd s' \<and>
    mset out = filter_mset (matches [7] 0 0 1 20) (st_total (small_storage ?sched wd))"
    by (rule query_delivers_total [OF srt w(1) c(2) _ f(5), of "[2, 2, 30]" 0]) (simp_all add: f(4,6,7) c(3) w(2) empty_meas_def)
  moreover have "filter_mset (matches [7] 0 0 1 20) {#meas_stored ?m#} = {#meas_stored ?m#}" by (simp add: matches_def empty_meas_def)
  ultimately show ?thesis unfolding w(2) by metis
qed

end
