(* ===== verification/Storage_Calm.thy ===== *)
theory Storage_Calm
  imports Storage_Reader
begin

text \<open>
  A storage whose writer thread keeps up: the thread is at rest when the client calls, and at every look of the client it gets the eleven
  steps that it needs to serve one cache. Then every operation of the storage returns, with a number of looks that is known in advance, and
  leaves the storage so that the next one does.
\<close>

section \<open>Ready for the next operation\<close>

text \<open>At least \<open>p\<close> caches for \<open>S\<close> measurements each, \<open>k\<close> looks still to come, and room for the measurements \<open>extra\<close>.\<close>

definition ready :: "nat \<Rightarrow> nat \<Rightarrow> nat \<Rightarrow> nat \<Rightarrow> storage \<Rightarrow> meas list \<Rightarrow> bool" where
  "ready n S p k st extra \<longleftrightarrow> st_inv n st extra \<and> calm st \<and> st_cache st \<noteq> None \<and> st_past_time st = 0 \<and>
     p \<le> length (cp_caches (st_pool st)) \<and> (\<forall>b < length (st_heap st). S \<le> c_max_size (st_heap st ! b)) \<and> k \<le> length (st_sched st)"

lemma readyD:
  assumes "ready n S p k st extra"
  obtains a where "st_inv n st extra" "calm st" "st_cache st = Some a" "st_past_time st = 0" "p \<le> length (cp_caches (st_pool st))"
    "\<forall>b < length (st_heap st). S \<le> c_max_size (st_heap st ! b)" "k \<le> length (st_sched st)"
  using assms by (auto simp: ready_def)

lemma ready_moved_on:
  assumes "ready n S p k st extra" and "moved_on j st st'" and "st_inv n st' extra'" and "st_cache st' = Some b"
  shows "ready n S p (k - j) st' extra'"
  using assms by (auto simp: ready_def moved_on_def)

text \<open>With the thread at rest all caches but the current one are free.\<close>

lemma calm_free:
  assumes "st_inv n st extra" and "calm st" and "st_cache st = Some a"
  shows "free_set st = set (cp_caches (st_pool st)) - {a}" "length (cp_caches (st_pool st)) - 1 \<le> card (free_set st)"
proof -
  have hi: "heap_inv st" using assms(1) by (simp add: st_inv_def)
  have "served (st_writer st) = []" using restedD(3,4) [of "st_writer st"] assms(2) by (simp add: calm_def served_def)
  then have "\<not> c_sync (st_heap st ! b)" if "b \<in> set (cp_caches (st_pool st))" for b
    using heap_invD(2,7) [OF hi] that by (auto simp: pool_inv_def)
  then show eq: "free_set st = set (cp_caches (st_pool st)) - {a}" using assms(3) by (auto simp: free_set_def)
  have "card (set (cp_caches (st_pool st))) = length (cp_caches (st_pool st))"
    using heap_invD(2) [OF hi] by (simp add: pool_inv_def distinct_card)
  then show "length (cp_caches (st_pool st)) - 1 \<le> card (free_set st)" unfolding eq by (simp add: card_Diff_singleton_if)
qed

lemma ready_stocked:
  assumes "ready n S p k st extra" and "j < p" and "j \<le> k"
  shows "stocked S j st"
proof -
  obtain a where r: "st_inv n st extra" "calm st" "st_cache st = Some a" "p \<le> length (cp_caches (st_pool st))"
    "\<forall>b < length (st_heap st). S \<le> c_max_size (st_heap st ! b)" "k \<le> length (st_sched st)" using assms(1) by (rule readyD)
  show ?thesis using calm_free(2) [OF r(1-3)] r(4-6) assms(2,3) by (simp add: stocked_def)
qed

section \<open>One look\<close>

lemma calm_look:
  assumes srt: "std_sort MeasCmpByTime (e_sort env)" and inv: "st_inv n st extra" and c: "calm st" and ks: "st_sched st = q # ks"
  obtains st1 where "writer_run env q (st\<lparr>st_sched := ks\<rparr>) = Inr st1" "st_inv n st1 extra" "st_total st1 = st_total st" "st_sched st1 = ks"
    "st_cache st1 = st_cache st" "calm st1" "w_pc (st_writer st1) = Waiting" "moved_on 1 st st1"
proof -
  have i0: "st_inv n (st\<lparr>st_sched := ks\<rparr>) extra" by (rule st_inv_sched [OF inv]) (simp add: ks)
  from writer_run_ok [OF srt i0, of q] obtain st1 where
    s: "writer_run env q (st\<lparr>st_sched := ks\<rparr>) = Inr st1" "st_writer st1 = worker_run q (st_writer st)" "st_inv n st1 extra"
      "st_total st1 = st_total st" "same_client (st\<lparr>st_sched := ks\<rparr>) st1" by auto
  have r: "rested (st_writer st)" "11 \<le> q" using c ks by (simp_all add: calm_def)
  have w: "rested (st_writer st1)" "w_pc (st_writer st1) = Waiting"
    using rested_run [OF restedD(1) [OF r(1)], of q] restedD(5) [OF r(1)] r(2) s(2) by simp_all
  have f: "st_sched st1 = ks" "st_cache st1 = st_cache st" using s(5) by (simp_all add: same_client_def)
  have "calm st1" using w(1) c ks f(1) by (simp add: calm_def)
  moreover have "moved_on 1 st st1" using s(5) ks f(1) \<open>calm st1\<close> by (auto simp: moved_on_def same_client_def)
  ultimately show ?thesis using that s w f by blast
qed

lemma calm_wait:
  assumes "std_sort MeasCmpByTime (e_sort env)" and "st_inv n st extra" and "calm st" and ks: "st_sched st = q # ks"
    and act: "\<And>st1. calm st1 \<Longrightarrow> w_pc (st_writer st1) = Waiting \<Longrightarrow> act st1 = Some (f st1)"
  obtains st1 where "wait_for env act (st_sched st) st = Inr (f st1)" "st_inv n st1 extra" "st_total st1 = st_total st" "st_sched st1 = ks"
    "st_cache st1 = st_cache st" "calm st1" "w_pc (st_writer st1) = Waiting" "moved_on 1 st st1"
proof -
  obtain st1 where s: "writer_run env q (st\<lparr>st_sched := ks\<rparr>) = Inr st1" "st_inv n st1 extra" "st_total st1 = st_total st" "st_sched st1 = ks"
    "st_cache st1 = st_cache st" "calm st1" "w_pc (st_writer st1) = Waiting" "moved_on 1 st st1"
    by (rule calm_look [OF assms(1-4)])
  then show ?thesis using that [OF _ s(2-8)] act [OF s(6,7)] ks by simp
qed

lemma calm_idle: "calm st \<Longrightarrow> idle st = Some st"
  by (simp add: idle_def isBusy_def calm_def rested_def)

definition paused :: "storage \<Rightarrow> storage" where
  "paused st = st\<lparr>st_writer := (st_writer st)\<lparr>w_thread_lock := Client\<rparr>\<rparr>"

lemma calm_pause:
  assumes "calm st"
  shows "try_pause st = Some (paused st)" "storage_continue (paused st) = st"
proof -
  have "awake (st_writer st)" "\<not> holds_lock (w_pc (st_writer st))" using assms by (auto simp: calm_def rested_def holds_lock_def)
  then have "w_thread_lock (st_writer st) = Nobody" by (rule awake_lock)
  then show "try_pause st = Some (paused st)" "storage_continue (paused st) = st"
    by (simp_all add: try_pause_def pause_work_def paused_def storage_continue_def continue_work_def)
qed

section \<open>Appending and asking\<close>

lemma ready_append:
  assumes srt: "std_sort MeasCmpByTime (e_sort env)" and r: "ready n S p k st (m # extra)" and "1 \<le> S" "2 \<le> p" "1 \<le> k" "2 \<le> fuel"
  obtains st' where "storage_append fuel env clock st m = Inr (st', \<lparr>writed = 1, ignored = 0\<rparr>)"
    "st_total st' = st_total st + {#meas_stored m#}" "ready n S p (k - 1) st' extra"
proof -
  obtain a where d: "st_inv n st (m # extra)" "st_cache st = Some a" "st_past_time st = 0" using r by (rule readyD)
  have t: "[m] = taken clock st m" by (simp add: taken_def d(3) checkPastTime_def)
  have sup: "stocked 1 1 st" using ready_stocked [OF r, of 1] assms(3-5) by (auto simp: stocked_def)
  have i: "st_inv n st ([m] @ extra)" using d(1) by simp
  from storage_append_ok [OF srt d(2) i t sup assms(6)] obtain st' b where
    s: "storage_append fuel env clock st m = Inr (st', \<lparr>writed = 1, ignored = 0\<rparr>)" "st_inv n st' extra"
      "st_total st' = st_total st + {#meas_stored m#}" "st_cache st' = Some b" "moved_on 1 st st'" by auto
  show ?thesis by (rule that [OF s(1,3) ready_moved_on [OF r s(5,2,4)]])
qed

lemma ready_append_many:
  assumes srt: "std_sort MeasCmpByTime (e_sort env)" and r: "ready n S p k st (ms @ extra)"
    and j: "length ms \<le> S * j" "Suc j < p" "Suc j \<le> k" "j < fuel"
  obtains st' where "storage_append_many fuel env clock st ms = Inr (st', \<lparr>writed = length ms, ignored = 0\<rparr>)"
    "st_total st' = st_total st + mset (map meas_stored ms)" "ready n S p (k - Suc j) st' extra"
proof -
  obtain a where d: "st_inv n st (ms @ extra)" "calm st" "st_cache st = Some a" "st_past_time st = 0"
      "p \<le> length (cp_caches (st_pool st))" "\<forall>b < length (st_heap st). S \<le> c_max_size (st_heap st ! b)" "k \<le> length (st_sched st)"
    using r by (rule readyD)
  have acc: "ms = accepted clock (st_past_time st) 0 ms" by (simp add: d(4))
  have "j < card (free_set st)" "j < length (st_sched st)" using calm_free(2) [OF d(1-3)] d(5,7) j(2,3) by auto
  from storage_append_many_ok [OF srt d(3) acc d(1,6) j(1) this j(4)] obtain st' b where
    s: "storage_append_many fuel env clock st ms = Inr (st', \<lparr>writed = length ms, ignored = 0\<rparr>)"
      "st_total st' = st_total st + mset (map meas_stored ms)" "st_inv n st' extra" "st_cache st' = Some b" "moved_on (Suc j) st st'" by auto
  show ?thesis by (rule that [OF s(1,2) ready_moved_on [OF r s(5,3,4)]])
qed

lemma ready_query:
  assumes srt: "std_sort MeasCmpByTime (e_sort env)" "std_sort later_page (e_sort_pages env)" and r: "ready n S p k st extra"
    and k: "3 \<le> k" "2 \<le> p"
  obtains st' sr where "storage_readInterval env st ids source flag from to = Inr (st', sr)" "st_total st' = st_total st"
    "ready n S p (k - 3) st' extra"
proof -
  obtain a where d: "st_inv n st extra" "calm st" "st_cache st = Some a" "k \<le> length (st_sched st)" using r by (rule readyD)
  obtain st1 b where w: "writeCache env st = Inr st1" "st_inv n st1 extra" "st_total st1 = st_total st" "st_cache st1 = Some b" "moved_on 1 st st1"
  proof -
    have "stocked S (Suc 0) st" using ready_stocked [OF r, of "Suc 0"] k by simp
    from stocked_writeCache [OF srt(1) d(1,3) this] show ?thesis using that by blast
  qed
  have c1: "calm st1" "2 \<le> length (st_sched st1)" using w(5) d(2,4) k(1) by (auto simp: moved_on_def)
  then obtain q1 q2 ks where ks: "st_sched st1 = q1 # q2 # ks" by (auto simp: Suc_le_length_iff numeral_2_eq_2)
  obtain st2 where s2: "wait_for env idle (st_sched st1) st1 = Inr st2" "st_inv n st2 extra" "st_total st2 = st_total st1" "st_sched st2 = q2 # ks"
    "st_cache st2 = st_cache st1" "calm st2" "moved_on 1 st1 st2"
    by (rule calm_wait [OF srt(1) w(2) c1(1) ks, of idle "\<lambda>s. s"]) (auto simp: calm_idle)
  obtain st3 where s3: "wait_for env try_pause (st_sched st2) st2 = Inr (paused st3)" "st_inv n st3 extra" "st_total st3 = st_total st2"
    "st_cache st3 = st_cache st2" "calm st3" "moved_on 1 st2 st3"
    by (rule calm_wait [OF srt(1) s2(2,6,4), of try_pause paused]) (auto simp: calm_pause)
  obtain pm name pg where "writer_ok n (st_world (paused st3)) pm name pg" using s3(2) by (auto simp: st_inv_def data_inv_def Let_def paused_def)
  then obtain pages where pages: "pagesByTime (e_sort_pages env) (st_world (paused st3)) = Inr (st_world (paused st3), pages)"
    by (rule pagesByTime_returns)
  have "(paused st3)\<lparr>st_world := st_world (paused st3)\<rparr> = paused st3" by simp
  then have "\<exists>sr. storage_readInterval env st ids source flag from to = Inr (st3, sr)"
    using w(1) s2(1) s3(1) pages calm_pause(2) [OF s3(5)]
    by (simp add: storage_readInterval_def paused_pages_def flush_and_stop_def storage_pause_def Let_def case_prod_beta)
  then obtain sr where "storage_readInterval env st ids source flag from to = Inr (st3, sr)" by blast
  moreover have "moved_on 3 st st3"
    using moved_on_trans [OF moved_on_trans [OF w(5) s2(7)] s3(6)] by (simp add: numeral_3_eq_3)
  then have "ready n S p (k - 3) st3 extra" using s3(2,4) s2(5) w(4) by (intro ready_moved_on [OF r, of 3 st3]) auto
  ultimately show ?thesis using that s3(3) s2(3) w(3) by simp
qed

section \<open>Stopping the thread\<close>

text \<open>A run of the thread without a call changes nothing but the worker.\<close>

lemma writer_run_Waiting: "w_pc (st_writer st) = Waiting \<Longrightarrow> writer_run env k st = Inr st"
  by (cases k) (simp_all add: writer_step_def worker_next_def)

lemma writer_run_Finished: "w_pc (st_writer st) = Finished \<Longrightarrow> writer_run env k st = Inr st"
  by (cases k) (simp_all add: writer_step_def worker_next_def)

lemma writer_run_stops:
  assumes "w_pc (st_writer st) = Notified" and "w_thread_lock (st_writer st) = Nobody" and "w_stop_flag (st_writer st)" and "3 \<le> q"
  shows "writer_run env q st = Inr (st\<lparr>st_writer := (st_writer st)\<lparr>w_thread_lock := Nobody, w_pc := Finished, w_thread_work := False\<rparr>\<rparr>)"
proof -
  obtain r where q: "q = Suc (Suc (Suc r))" using assms(4) by (metis Suc_le_D numeral_3_eq_3 Suc_le_mono)
  show ?thesis unfolding q using assms(1-3)
    by (simp add: writer_step_def worker_next_def writer_run_Finished)
qed

lemma calm_kill:
  assumes c: "calm st" and pc: "w_pc (st_writer st) = Waiting" and sched: "st_sched st = q1 # q2 # q3 # q4 # q5 # ks"
  obtains w where "storage_kill env (st_sched st) st = Inr (st\<lparr>st_writer := w, st_sched := ks\<rparr>)"
proof -
  let ?w = "st_writer st"
  have a: "awake ?w" "worker_inv ?w" using c by (simp_all add: calm_def rested_def awake_def)
  have w: "w_kill ?w = Not_killed" "w_thread_work ?w" "\<not> w_stop_flag ?w" using a pc by (auto simp: awake_def worker_inv_def)
  have lock: "w_thread_lock ?w = Nobody" by (rule awake_lock [OF a(1)]) (simp add: pc holds_lock_def)
  have q: "3 \<le> q3" using c sched by (simp add: calm_def)
  have run: "\<And>st k. w_pc (st_writer st) = Waiting \<or> w_pc (st_writer st) = Finished \<Longrightarrow> writer_run env k st = Inr st"
    using writer_run_Waiting writer_run_Finished by blast
  have "\<exists>w. storage_kill env (q1 # q2 # q3 # q4 # q5 # ks) st = Inr (st\<lparr>st_writer := w, st_sched := ks\<rparr>)"
    using pc w lock q by (simp add: run worker_kill_def notify_one_def writer_run_stops) (rule exI, rule refl)
  then show ?thesis using that sched by auto
qed

section \<open>The small storage\<close>

lemma small_storage_ready:
  assumes "st_inv 10000 (small_storage sched wd) extra" and "\<forall>q \<in> set sched. 11 \<le> q" and "k \<le> length sched"
  shows "ready 10000 2 2 k (small_storage sched wd) extra"
proof -
  note f = small_storage_fields [of sched wd] and c = small_storage_client [of sched wd]
  have "rested (st_writer (small_storage sched wd))" using f(3,5,7) by (simp add: rested_def served_def)
  moreover have "length (cp_caches (st_pool (small_storage sched wd))) = 4"
    by (simp add: small_storage_def new_CachePool_def init_pool_def)
  ultimately show ?thesis using assms c by (simp add: ready_def calm_def)
qed

end
