(* ===== verification/Storage_Life.thy ===== *)
theory Storage_Life
  imports Storage_Calm
begin

text \<open>
  The life of a storage: what \<^verbatim>\<open>Create\<close> builds meets the invariant under which appending and querying were shown
  correct, \<^verbatim>\<open>Close\<close> brings everything to the pages, and \<^verbatim>\<open>Open\<close> finds it there.
\<close>

section \<open>Creating\<close>

text \<open>The first page of an empty directory.\<close>

lemma first_page:
  assumes pm: "wd_instance wd = Some pm" "pm_curpage pm = None" "pm_page_list pm = []" "pm_default_page_size pm = calc_size n"
    and n: "1500 \<le> n" "n < 2 ^ 50" and d: "wd_disk wd = \<lparr>d_files = [], d_left = \<lambda>_. (None, None)\<rparr>"
  obtains wd' pm' path pg where "createNewPage time wd = Inr wd'" "writer_ok n wd' pm' path pg" "index_room (pg_index pg) = new_room n"
    "records (pg_index pg) = {}" "disk_log (wd_disk wd') = []" "length (d_files (wd_disk wd')) = 1"
proof -
  from unique_name_loop_ok [of "wd_disk wd" 0 "Suc (length (d_files (wd_disk wd)))" "pm_path pm" time "[]"] obtain path where
    path: "getNewPageUniqueName time (pm_path pm) (wd_disk wd) = Inr path" "path \<noteq> []"
    by (auto simp: getNewPageUniqueName_def d)
  obtain pg where pg: "page_Create None None (calc_size n) = Inr pg" "pg_window pg = []" "pg_mapped pg"
    by (rule page_Create_ok [OF n, of None]) blast
  have e: "pg = pg\<lparr>pg_window := []\<rparr>" using pg(2) by (cases pg) simp
  note w = new_page_writable [OF pg(1) n _ ww_wf_Nil e, simplified]
  define pm' where "pm' = pm\<lparr>pm_curpage := Some (path, pg), pm_page_list := [path]\<rparr>"
  define wd' where "wd' = pm_set (wd\<lparr>wd_disk := disk_put (wd_disk wd) path (page_disk pg)\<rparr>) pm'"
  have "createNewPage time wd = Inr wd'"
    using pm path(1) pg(1) by (simp add: createNewPage_def pm_get_def d wd'_def pm'_def)
  moreover have f: "d_files (wd_disk wd') = [(path, page_disk pg)]" by (simp add: wd'_def pm_set_def d disk_put_def)
  moreover have "writer_ok n wd' pm' path pg"
    using w(1,4) pm(4) pg(3) path(2) f
    by (simp add: writer_ok_def writer_ready_def writer_mid_def lib_ok_def cur_synced_def disk_get_def)
      (simp add: wd'_def pm_set_def pm'_def d disk_put_def)
  ultimately show ?thesis using that w(2,5,6) by (simp add: disk_log_def)
qed

text \<open>The constructor: all caches are free and empty, and one of them is the current one.\<close>

lemma new_Storage_ok:
  assumes "length sched < 2 ^ 31"
  obtains st a where "new_Storage flag work sched wd = Inr st" "heap_inv st" "st_cache st = Some a" "served (st_writer st) = []"
    "cur_held st = []" "card (free_set st) = 99" "\<forall>b < length (st_heap st). 10000 \<le> c_max_size (st_heap st ! b)" "st_past_time st = 0"
    "st_sched st = sched" "rested (st_writer st)" "st_world st = wd" "c_size (st_heap st ! a) = 0" "a \<in> set (cp_caches (st_pool st))"
proof -
  define h cp where "h = replicate 100 (new_Cache 10000)" and "cp = snd (new_CachePool [] 100 10000)"
  have pool: "new_CachePool [] defaultcachePoolSize defaultcacheSize = (h, cp)"
    by (simp add: h_def cp_def defaultcachePoolSize_def defaultcacheSize_def new_CachePool_def init_pool_def)
  have cp: "\<not> cp_dynamic_size cp" "cp_recalc_period cp = 33" "cp_caches cp = [0..<100]" "cp_pool_size cp = 100"
    by (simp_all add: cp_def new_CachePool_def init_pool_def to_int_def)
  have all: "b < 100 \<Longrightarrow> h ! b = new_Cache 10000" for b by (simp add: h_def)
  from getCache_fixed [OF cp(1), of "Suc 0" h] obtain r where
    r: "getCache (Suc (Suc 0)) h cp = Inr (h, cp\<lparr>cp_recalc_period := 32\<rparr>, r)"
      "case r of None \<Rightarrow> \<forall>a \<in> set (cp_caches cp). c_sync (h ! a) | Some a \<Rightarrow> a \<in> set (cp_caches cp) \<and> \<not> c_sync (h ! a)"
    by (auto simp: cp(2))
  have "\<not> c_sync (h ! 0)" "0 \<in> set (cp_caches cp)" using all [of 0] by (simp_all add: new_Cache_max cp(3))
  then obtain a where a: "r = Some a" "a < 100" using r(2) by (cases r) (auto simp: cp(3))
  define st where "st = \<lparr>st_path = [], st_heap = h[a := cache_setStorage (h ! a)], st_cache = Some a,
    st_writer = worker_start (new_worker flag work), st_pool = cp\<lparr>cp_recalc_period := 32\<rparr>, st_cur_values = (\<lambda>_. None),
    st_past_time = 0, st_closed = False, st_world = wd, st_sched = sched\<rparr>"
  have new: "new_Storage flag work sched wd = Inr st" using pool r(1) a(1) by (simp add: new_Storage_def st_def)
  have len: "length (st_heap st) = 100" by (simp add: st_def h_def)
  have heap: "st_heap st ! b = (if b = a then cache_setStorage (new_Cache 10000) else new_Cache 10000)" if "b < 100" for b
    using that a(2) by (simp add: st_def nth_list_update h_def)
  have w: "awake (st_writer st)" "served (st_writer st) = []" "w_pc (st_writer st) = At_entry"
    by (simp_all add: st_def awake_def worker_start_def new_worker_def worker_inv_def in_flight_def holds_lock_def served_def)
  have "free_set st = {..<100} - {a}" using heap
    by (auto simp: free_set_def new_Cache_max) (auto simp: st_def cp(3) split: if_splits)
  then have free: "card (free_set st) = 99" using a(2) by simp
  have "heap_inv st"
    unfolding heap_inv_def Let_def w(2) len
  proof (intro conjI allI ballI impI)
    show "worker_inv (st_writer st)" using w(1) by (simp add: awake_def)
    show "pool_inv (st_heap st) (st_pool st)" "\<not> cp_dynamic_size (st_pool st)"
      "- (2 ^ 31) < cp_recalc_period (st_pool st) - int (length (st_sched st))"
      using assms cp a(2) by (simp_all add: pool_inv_def st_def atLeast0LessThan h_def)
    fix b assume "b < (100 :: nat)"
    then show "cache_inv (st_heap st ! b)" "0 < c_max_size (st_heap st ! b)" "c_sync (st_heap st ! b) \<longleftrightarrow> b \<in> set []"
      by (simp_all add: heap cache_flags_inv new_Cache_inv new_Cache_max)
  next
    fix b assume "b \<in> set (cp_caches (st_pool st))"
    then have "b < 100" by (simp add: st_def cp(3))
    then show "cache_held (st_heap st ! b) = []" by (simp add: heap)
  next
    fix b assume "st_cache st = Some b"
    then have "b = a" by (simp add: st_def)
    then show "b < 100" "\<not> c_sync (st_heap st ! b)" "c_attached (st_heap st ! b)" using a(2) by (simp_all add: heap new_Cache_max)
  qed simp_all
  moreover have "cur_held st = []" using heap [OF a(2)] by (simp add: cur_held_def) (simp add: st_def)
  moreover have "\<forall>b < length (st_heap st). 10000 \<le> c_max_size (st_heap st ! b)" by (simp add: len heap new_Cache_max)
  moreover have "c_size (st_heap st ! a) = 0" using heap [OF a(2)] by (simp add: new_Cache_def)
  moreover have "rested (st_writer st)" using w by (simp add: rested_def served_def)
  ultimately show ?thesis using that [OF new, of a] w free a(2) cp(3) by (simp add: st_def)
qed

text \<open>What can be appended to a new storage: the index of a page has to have room for it.\<close>

definition batch_fits :: "nat \<Rightarrow> meas list \<Rightarrow> bool" where
  "batch_fits n ms \<longleftrightarrow> 1500 \<le> n \<and> n < 2 ^ 50 \<and> (\<forall>m \<in> set ms. meas8 m) \<and> distinct (map m_time ms) \<and> length ms \<le> new_room n \<and>
     length ms < indexCacheSize"

lemma storage_Create_ok:
  assumes ms: "batch_fits n ms" and inst: "wd_instance wd = None" and rm: "exists \<longrightarrow> removed = Inr True" and sched: "length sched < 2 ^ 31"
  obtains st a where "storage_Create exists removed time flag work sched wd path (calc_size n) = Inr st" "st_inv n st ms" "st_total st = {#}"
    "st_cache st = Some a" "card (free_set st) = 99" "\<forall>b < length (st_heap st). 10000 \<le> c_max_size (st_heap st ! b)" "st_past_time st = 0"
    "st_sched st = sched" "rested (st_writer st)" "a \<in> set (cp_caches (st_pool st))"
proof -
  obtain st0 a where st0: "new_Storage flag work sched wd = Inr st0" "heap_inv st0" "st_cache st0 = Some a" "served (st_writer st0) = []"
    "cur_held st0 = []" "card (free_set st0) = 99" "\<forall>b < length (st_heap st0). 10000 \<le> c_max_size (st_heap st0 ! b)" "st_past_time st0 = 0"
    "st_sched st0 = sched" "rested (st_writer st0)" "a \<in> set (cp_caches (st_pool st0))"
    by (rule new_Storage_ok [OF sched]) blast
  define pm where "pm = \<lparr>pm_default_page_size = calc_size n, pm_path = path, pm_curpage = None, pm_page_list = []\<rparr>"
  define wd1 where "wd1 = \<lparr>wd_disk = \<lparr>d_files = [], d_left = \<lambda>_. (None, None)\<rparr>, wd_instance = Some pm\<rparr>"
  have n: "1500 \<le> n" "n < 2 ^ 50" using ms by (simp_all add: batch_fits_def)
  obtain wd2 pm' name pg where w: "createNewPage time wd1 = Inr wd2" "writer_ok n wd2 pm' name pg" "index_room (pg_index pg) = new_room n"
      "records (pg_index pg) = {}" "disk_log (wd_disk wd2) = []" "length (d_files (wd_disk wd2)) = 1"
    by (rule first_page [of wd1 pm n time, OF _ _ _ _ n]) (auto simp: wd1_def pm_def)
  define st where "st = st0\<lparr>st_path := path, st_world := wd2\<rparr>"
  have "storage_Create exists removed time flag work sched wd path (calc_size n) = Inr st"
    using st0(1) inst rm w(1) by (cases wd) (simp add: storage_Create_def pm_start_def pm_get_def pm_set_def st_def wd1_def pm_def)
  moreover have held: "cur_held st = []" using st0(3,5) by (simp add: cur_held_def st_def)
  have pend: "pending st = []" using st0(4) by (simp add: pending_def st_def)
  have "heap_inv st" using st0(2) by (simp add: heap_inv_def st_def)
  moreover have "budget st ms = length ms" using st0(4) held by (simp add: budget_def st_def)
  then have "data_inv n st ms"
    using ms w(2-4,6) unfolding data_inv_def Let_def held pend
    by (simp add: batch_fits_def indexCacheSize_def st_def) (intro exI conjI, assumption, simp_all)
  moreover have "st_total st = {#}" using held pend w(5) by (simp add: st_total_def) (simp add: st_def)
  moreover have "free_set st = free_set st0" by (simp add: free_set_def st_def)
  ultimately show ?thesis
    using that [of st a] st0(3,6-11) by (simp add: st_inv_def) (simp add: st_def)
qed

text \<open>A new storage is ready for the first operation.\<close>

lemma storage_Create_ready:
  assumes "batch_fits n ms" and "wd_instance wd = None" and "exists \<longrightarrow> removed = Inr True" and "length sched < 2 ^ 31"
    and "\<forall>q \<in> set sched. 11 \<le> q" and "k \<le> length sched"
  obtains st where "storage_Create exists removed time flag work sched wd path (calc_size n) = Inr st" "ready n 10000 99 k st ms" "st_total st = {#}"
proof -
  obtain st a where st: "storage_Create exists removed time flag work sched wd path (calc_size n) = Inr st" "st_inv n st ms" "st_total st = {#}"
    "st_cache st = Some a" "card (free_set st) = 99" "\<forall>b < length (st_heap st). 10000 \<le> c_max_size (st_heap st ! b)" "st_past_time st = 0"
    "st_sched st = sched" "rested (st_writer st)"
    by (rule storage_Create_ok [OF assms(1-4)]) blast
  have "card (free_set st) \<le> card (set (cp_caches (st_pool st)))" by (rule card_mono) (auto simp: free_set_def)
  also have "\<dots> \<le> length (cp_caches (st_pool st))" by (rule card_length)
  finally have "ready n 10000 99 k st ms" using st assms(5,6) by (simp add: ready_def calm_def)
  then show ?thesis using that st(1,3) by blast
qed

section \<open>Changing the size of the caches\<close>



section \<open>From Create to the answer of a query\<close>



section \<open>Closing\<close>

text \<open>The thread has been started and not been told to stop. Only \<^verbatim>\<open>kill\<close> ends that.\<close>

definition running :: "'a AsyncWorker \<Rightarrow> bool" where
  "running w \<longleftrightarrow> \<not> w_stop_flag w \<and> w_pc w \<noteq> Not_started"

lemma next_running:
  assumes "worker_next w = Some w'"
  shows "running w' = running w" "w_pc w \<noteq> Not_started \<Longrightarrow> w_pc w' \<noteq> Not_started"
  using assms by (cases "w_pc w"; auto simp: worker_next_def running_def split: if_splits list.splits)+

lemma add_running [simp]: "running (worker_add a w) = running w"
  by (simp add: worker_add_def notify_one_def running_def)

lemma run_started: "w_pc w \<noteq> Not_started \<Longrightarrow> w_pc (worker_run k w) \<noteq> Not_started"
  by (induction k arbitrary: w) (auto split: option.split dest: next_running(2))

lemma writer_step_running: "writer_step env st = Inr (Some st') \<Longrightarrow> running (st_writer st') = running (st_writer st)"
  by (auto simp: writer_step_def bind_r_eq_Inr next_running(1) split: option.splits thread_pc.splits)

lemma writer_run_running: "writer_run env k st = Inr st' \<Longrightarrow> running (st_writer st') = running (st_writer st)"
  by (induction k arbitrary: st) (auto simp: bind_r_eq_Inr split: option.splits dest: writer_step_running)

lemma wait_cache_running: "wait_cache env ks st = Inr st' \<Longrightarrow> running (st_writer st') = running (st_writer st)"
proof (induction ks arbitrary: st)
  case (Cons k ks)
  then obtain st1 h cp r where g: "writer_run env k (st\<lparr>st_sched := ks\<rparr>) = Inr st1"
      "getCache (Suc (Suc 0)) (st_heap st1) (st_pool st1) = Inr (h, cp, r)"
    by (auto simp: bind_r_eq_Inr)
  have "running (st_writer st1) = running (st_writer st)" using writer_run_running [OF g(1)] by simp
  then show ?case
    using Cons.prems Cons.IH [of "st1\<lparr>st_heap := h, st_pool := cp\<rparr>"] g by (cases r) (auto simp: bind_r_eq_Inr Let_def)
qed simp

lemma writeCache_running: "writeCache env st = Inr st' \<Longrightarrow> running (st_writer st') = running (st_writer st)"
  by (auto simp: writeCache_def split: option.splits if_splits dest: wait_cache_running)

lemma wait_idle_running: "wait_for env idle ks st = Inr st' \<Longrightarrow> running (st_writer st') = running (st_writer st)"
proof (induction ks arbitrary: st)
  case (Cons k ks)
  then obtain st1 where g: "writer_run env k (st\<lparr>st_sched := ks\<rparr>) = Inr st1" by (auto simp: bind_r_eq_Inr)
  then show ?case using Cons.prems Cons.IH [of st1] writer_run_running [OF g] by (auto simp: idle_def split: if_splits)
qed simp

text \<open>A step of \<^verbatim>\<open>kill\<close> leaves the queue and the call in progress alone.\<close>

lemma kill_served:
  assumes "worker_kill w = Some w'"
  shows "served w' = served w" "w_data w' = w_data w" "w_pc w \<noteq> Not_started \<Longrightarrow> w_pc w' \<noteq> Not_started"
  using assms by (cases "w_kill w"; auto simp: worker_kill_def served_def in_flight_def notify_one_def split: if_splits)+

lemma st_inv_writer:
  assumes "st_inv n st extra" and "worker_inv w" and "served w = served (st_writer st)"
  shows "st_inv n (st\<lparr>st_writer := w\<rparr>) extra" "st_total (st\<lparr>st_writer := w\<rparr>) = st_total st"
  using assms by (auto simp: st_inv_def heap_inv_def Let_def writer_upd)

lemma storage_kill_ok:
  assumes srt: "std_sort MeasCmpByTime (e_sort env)"
  shows "st_inv n st extra \<Longrightarrow> st_sched st = ks \<Longrightarrow> w_data (st_writer st) = [] \<Longrightarrow> w_pc (st_writer st) \<noteq> Not_started \<Longrightarrow>
    storage_kill env ks st = Inr st' \<Longrightarrow>
    st_inv n st' extra \<and> st_total st' = st_total st \<and> cur_held st' = cur_held st \<and> served (st_writer st') = []"
proof (induction ks arbitrary: st)
  case Nil
  then show ?case by simp
next
  case (Cons k ks)
  define st0 where "st0 = st\<lparr>st_sched := ks\<rparr>"
  have i0: "st_inv n st0 extra" unfolding st0_def by (rule st_inv_sched [OF Cons.prems(1)]) (simp add: Cons.prems(2))
  from writer_run_ok [OF srt i0, of k] obtain st1 where
    s: "writer_run env k st0 = Inr st1" "st_writer st1 = worker_run k (st_writer st)" "st_inv n st1 extra"
      "st_total st1 = st_total st" "same_client st0 st1" by (auto simp: st0_def)
  have f: "st_sched st1 = ks" using s(5) by (simp add: same_client_def st0_def)
  have held: "cur_held st1 = cur_held st" using same_client_cur_held [OF _ s(5)] i0 by (simp add: st_inv_def st0_def)
  have w: "w_data (st_writer st1) = []" "w_pc (st_writer st1) \<noteq> Not_started" "worker_inv (st_writer st1)"
    using run_keeps_empty [OF Cons.prems(3)] run_started [OF Cons.prems(4)] s(2) heap_invD(1) [of st1] s(3) by (simp_all add: st_inv_def)
  show ?case
  proof (cases "w_kill (st_writer st1) = Killed")
    case True
    then have "st' = st1" using Cons.prems(5) s(1) by (simp add: st0_def)
    moreover have "served (st_writer st1) = []" using w True by (simp add: served_def worker_inv_def in_flight_def)
    ultimately show ?thesis using s held by simp
  next
    case False
    define st2 where "st2 = (case worker_kill (st_writer st1) of None \<Rightarrow> st1 | Some w \<Rightarrow> st1\<lparr>st_writer := w\<rparr>)"
    have rec: "storage_kill env ks st2 = Inr st'" using Cons.prems(5) s(1) False by (simp add: st0_def st2_def)
    have "st_inv n st2 extra \<and> st_total st2 = st_total st1 \<and> cur_held st2 = cur_held st1 \<and> st_sched st2 = ks \<and>
      w_data (st_writer st2) = [] \<and> w_pc (st_writer st2) \<noteq> Not_started"
    proof (cases "worker_kill (st_writer st1)")
      case None
      then show ?thesis using s(3) f w by (simp add: st2_def)
    next
      case (Some w')
      note k = kill_served [OF Some]
      from st_inv_writer [OF s(3) worker_inv_kill [OF w(3,2) Some] k(1)] k(2,3) w(1,2) f Some show ?thesis by (simp add: st2_def)
    qed
    then show ?thesis using Cons.IH [of st2] rec s(4) held by simp
  qed
qed

text \<open>
  The files a closed storage leaves behind: each can be read and is marked closed; a page without measurements is the only one.
\<close>

definition closed_disk :: "disk \<Rightarrow> bool" where
  "closed_disk d \<longleftrightarrow> (\<forall>p f. disk_get d p = Some f \<longrightarrow> (\<exists>q. page_fine q \<and> f = page_disk q \<and> \<not> h_isOpen (pg_header q))) \<and>
     (\<forall>p f. disk_get d p = Some f \<longrightarrow> files_log f = [] \<longrightarrow> length (d_files d) = 1) \<and>
     distinct (map fst (d_files d)) \<and> d_files d \<noteq> [] \<and> [] \<notin> fst ` set (d_files d)"

lemma close_current:
  assumes ok: "writer_ok n wd pm name pg"
  obtains wd' where "closeCurrentPage wd = Inr wd'" "mset (disk_log (wd_disk wd')) = mset (disk_log (wd_disk wd))"
    "closed_disk (wd_disk wd')"
proof -
  have mid: "writer_mid n wd pm name pg" using ok by (simp add: writer_ok_def writer_ready_def)
  note d = writer_midD [OF mid]
  have m: "pg_mapped pg" "index_inv (pg_index pg)" "page_fine pg" "wd_instance wd = Some pm" "pm_curpage pm = Some (name, pg)"
    using d(1,2) by (simp_all add: cur_synced_def writable_def)
  obtain pg2 where pg2: "page_close pg = Inr pg2" "page_log pg2 = page_log pg"
      "pg_header pg2 = (pg_header pg)\<lparr>h_ww_size := length (pg_window pg), h_isOpen := False, h_readers := 0\<rparr>" "page_fine pg2"
    using page_close_ok [OF m(1,2)] m(3) by metis
  define wd' where "wd' = pm_set (wd\<lparr>wd_disk := disk_put (wd_disk wd) name (page_disk pg2)\<rparr>) (pm\<lparr>pm_curpage := None\<rparr>)"
  note keys = disk_put_old [OF d(7), of "page_disk pg2"]
  have f: "wd_disk wd' = disk_put (wd_disk wd) name (page_disk pg2)" by (simp add: wd'_def pm_set_def)
  have lib: "\<And>p f. disk_get (wd_disk wd) p = Some f \<Longrightarrow> p \<noteq> name \<Longrightarrow> file_fine f" "[] \<notin> fst ` set (d_files (wd_disk wd))"
    using d(6) by (auto simp: lib_ok_def)
  show ?thesis
  proof (rule that)
    show "closeCurrentPage wd = Inr wd'"
      using m(4,5) d(7) pg2(1) by (simp add: closeCurrentPage_def pm_get_def close_page_def page_view_synced m(1) wd'_def)
    show "mset (disk_log (wd_disk wd')) = mset (disk_log (wd_disk wd))"
      using disk_log_more [OF d(4,7), of "page_disk pg2" "[]"] pg2(2) by (simp add: f)
    have "\<exists>q. page_fine q \<and> g = page_disk q \<and> \<not> h_isOpen (pg_header q)" if "disk_get (wd_disk wd') p = Some g" for p g
    proof (cases "p = name")
      case True
      then show ?thesis using that pg2(3,4) by (auto simp: f)
    next
      case False
      then have "file_fine g" using that lib(1) [of p g] by (simp add: f)
      then show ?thesis by (auto simp: file_fine_def page_disk_def)
    qed
    moreover have "d_files (wd_disk wd') \<noteq> []" using d(7) by (auto simp: f disk_put_def disk_get_def)
    moreover have len: "length (d_files (wd_disk wd')) = length (d_files (wd_disk wd))" using arg_cong [OF keys, of length] by (simp add: f)
    have "length (d_files (wd_disk wd')) = 1" if g: "disk_get (wd_disk wd') p = Some g" "files_log g = []" for p g
    proof (cases "p = name")
      case True
      then have "page_log pg = []" using g pg2(2) by (auto simp: f)
      then show ?thesis using ok len by (simp add: writer_ok_def)
    next
      case False
      then have "file_fine g" using g(1) lib(1) [of p g] by (simp add: f)
      then show ?thesis using g(2) by (auto simp: file_fine_def)
    qed
    moreover have "fst ` set (d_files (wd_disk wd')) = fst ` set (d_files (wd_disk wd))" using arg_cong [OF keys, of set] by (simp add: f)
    ultimately show "closed_disk (wd_disk wd')" using d(4) keys lib(2) unfolding closed_disk_def by (auto simp: f)
  qed
qed

text \<open>Everything is on the pages when the storage is closed.\<close>

lemma storage_Close_ok:
  assumes srt: "std_sort MeasCmpByTime (e_sort env)" and inv: "st_inv n st extra" and run: "running (st_writer st)"
    and close: "storage_Close env st = Inr st'"
  shows "mset (disk_log (wd_disk (st_world st'))) = st_total st" "wd_instance (st_world st') = None" "st_closed st'"
    "closed_disk (wd_disk (st_world st'))"
proof -
  obtain st0 st2 wd where c: "writeCache env st = Inr st0" "storage_stop env st0 = Inr st2" "closeCurrentPage (st_world st2) = Inr wd"
      "st' = st2\<lparr>st_world := pm_stop wd, st_closed := True\<rparr>"
    using close run by (auto simp: storage_Close_def running_def stoped_def bind_r_eq_Inr)
  from writeCache_ok [OF srt inv c(1)] have i0: "st_inv n st0 extra" "st_total st0 = st_total st" "cur_held st0 = []" by auto
  have r0: "running (st_writer st0)" using writeCache_running [OF c(1)] run by simp
  then obtain st1 where s: "wait_for env idle (st_sched st0) st0 = Inr st1" "storage_kill env (st_sched st1) st1 = Inr st2"
    using c(2) by (auto simp: storage_stop_def running_def stoped_def bind_r_eq_Inr)
  from wait_for_ok [OF srt i0(1) refl s(1)] obtain sti where
    "idle sti = Some st1" "st_inv n sti extra" "st_total sti = st_total st0" "cur_held sti = cur_held st0" by blast
  then have i1: "st_inv n st1 extra" "st_total st1 = st_total st" "cur_held st1 = []" "w_data (st_writer st1) = []"
    using i0 by (auto simp: idle_def isBusy_def split: if_splits)
  have "w_pc (st_writer st1) \<noteq> Not_started" using wait_idle_running [OF s(1)] r0 by (simp add: running_def)
  from storage_kill_ok [OF srt i1(1) refl i1(4) this s(2)] i1
  have i2: "st_inv n st2 extra" "st_total st2 = st_total st" "cur_held st2 = []" "served (st_writer st2) = []" by simp_all
  obtain pm name pg where "writer_ok n (st_world st2) pm name pg" using i2(1) by (auto simp: st_inv_def data_inv_def Let_def)
  from close_current [OF this] c(3) have f: "mset (disk_log (wd_disk wd)) = mset (disk_log (wd_disk (st_world st2)))" "closed_disk (wd_disk wd)"
    by (metis sum.inject(2))+
  show "mset (disk_log (wd_disk (st_world st'))) = st_total st"
    using f(1) i2(2-4) by (simp add: c(4) pm_stop_def st_total_def pending_def)
  show "wd_instance (st_world st') = None" "st_closed st'" by (simp_all add: c(4) pm_stop_def)
  show "closed_disk (wd_disk (st_world st'))" using f(2) by (simp add: c(4) pm_stop_def)
qed

section \<open>Opening\<close>

text \<open>The search for the page to go on with finds one of the pages.\<close>

lemma oldes_member:
  assumes "\<forall>p \<in> set ps. \<exists>h. header_of d p = Inr h" and "ps \<noteq> []" and "[] \<notin> set ps"
  shows "\<exists>p \<in> set ps. getOldesPage_of d ps = Inr p"
proof (cases "length ps = 1")
  case True
  then show ?thesis by (cases ps) (auto simp: getOldesPage_of_def)
next
  case False
  have step: "\<exists>s'. fold_r (oldes_step d) s qs = Inr s' \<and> (snd s' \<in> set qs \<or> s' = s)" if "\<forall>p \<in> set qs. \<exists>h. header_of d p = Inr h" for s qs
    using that
  proof (induction qs arbitrary: s)
    case (Cons q qs)
    then obtain h where h: "header_of d q = Inr h" by auto
    let ?s = "if fst s < h_maxTime h \<or> h_maxTime h = 0 then (h_maxTime h, q) else s"
    have "fold_r (oldes_step d) s (q # qs) = fold_r (oldes_step d) ?s qs" using oldes_step_ok [OF h, of s] by simp
    with Cons.IH [of ?s] Cons.prems show ?case by (auto split: if_splits)
  qed simp
  obtain p qs where ps: "ps = p # qs" using assms(2) by (cases ps) auto
  obtain h where h: "header_of d p = Inr h" using assms(1) ps by auto
  have "fold_r (oldes_step d) (0, []) ps = fold_r (oldes_step d) (h_maxTime h, p) qs"
    using oldes_step_ok [OF h, of "(0, [])"] ps by (simp add: word_gt_0)
  with step [of qs "(h_maxTime h, p)"] assms(1) ps obtain s' where "fold_r (oldes_step d) (0, []) ps = Inr s'" "snd s' \<in> set ps" by auto
  then show ?thesis using False assms(3) by (cases s') (auto simp: getOldesPage_of_def)
qed

text \<open>An opened storage: the manager lists the pages on disk, each can be read, and nothing waits to be written.\<close>

definition opened :: "storage \<Rightarrow> PageManager \<Rightarrow> nat \<Rightarrow> bool" where
  "opened st pm a \<longleftrightarrow> (let d = wd_disk (st_world st) in
     wd_instance (st_world st) = Some pm \<and> distinct (map fst (d_files d)) \<and> pm_page_list pm = map fst (d_files d) \<and> d_files d \<noteq> [] \<and>
     (\<forall>p f. disk_get d p = Some f \<longrightarrow> (\<exists>q. page_fine q \<and> f = page_disk q) \<and> (files_log f = [] \<longrightarrow> length (d_files d) = 1)) \<and>
     served (st_writer st) = [] \<and> st_cache st = Some a \<and> c_size (st_heap st ! a) = 0)"

lemma storage_Open_ok:
  assumes inst: "wd_instance wd = None" and cl: "closed_disk (wd_disk wd)" and sched: "length sched < 2 ^ 31"
  obtains st pm a where "storage_Open True flag work sched wd path = Inr st" "opened st pm a"
    "mset (disk_log (wd_disk (st_world st))) = mset (disk_log (wd_disk wd))" "st_total st = mset (disk_log (wd_disk wd))"
    "st_sched st = sched" "rested (st_writer st)"
proof -
  obtain st0 a where st0: "new_Storage flag work sched wd = Inr st0" "served (st_writer st0) = []" "cur_held st0 = []" "st_cache st0 = Some a"
      "c_size (st_heap st0 ! a) = 0" "st_sched st0 = sched" "rested (st_writer st0)"
    by (rule new_Storage_ok [OF sched]) blast
  define names where "names = map fst (d_files (wd_disk wd))"
  have ne: "names \<noteq> []" "[] \<notin> set names" "distinct names" using cl by (simp_all add: names_def closed_disk_def)
  have has_file: "\<exists>f. disk_get (wd_disk wd) p = Some f" if "p \<in> set names" for p
    using that by (auto simp: names_def disk_get_def dest: weak_map_of_SomeI)
  have "\<forall>p \<in> set names. \<exists>h. header_of (wd_disk wd) p = Inr h" using has_file by (fastforce simp: header_of_def page_ReadHeader_def)
  from oldes_member [OF this ne(1,2)] obtain p where p: "p \<in> set names" "getOldesPage_of (wd_disk wd) names = Inr p" by blast
  obtain f where f: "disk_get (wd_disk wd) p = Some f" using has_file [OF p(1)] by blast
  obtain q where q: "page_fine q" "f = page_disk q" "\<not> h_isOpen (pg_header q)" using cl f by (auto simp: closed_disk_def)
  obtain pg where pg: "page_Open (Some f) False = Inr pg" "page_log pg = page_log q" "page_fine pg"
    using page_fine_opens [OF q(1), of False] q(2,3) by auto
  define pm where "pm = \<lparr>pm_default_page_size = 0, pm_path = path, pm_curpage = Some (p, pg), pm_page_list = names\<rparr>"
  define wd3 where "wd3 = \<lparr>wd_disk = disk_put (wd_disk wd) p (page_disk pg), wd_instance = Some pm\<rparr>"
  define st where "st = st0\<lparr>st_path := path, st_world := wd3\<rparr>"
  have "storage_Open True flag work sched wd path = Inr st"
    using st0(1) inst p(2) f pg(1) ne(1)
    by (cases wd) (simp add: storage_Open_def pm_start_def getOldesPage_def pageList_def pm_get_def pm_set_def pm_open_def st_def wd3_def
        pm_def names_def)
  moreover have log: "mset (disk_log (wd_disk (st_world st))) = mset (disk_log (wd_disk wd))"
    using disk_log_more [OF ne(3) [unfolded names_def] f, of "page_disk pg" "[]"] pg(2) q(2) by (simp add: st_def wd3_def)
  moreover have "pending st = []" "cur_held st = []" using st0(2-4) by (simp_all add: pending_def cur_held_def st_def)
  then have "st_total st = mset (disk_log (wd_disk wd))" using log by (simp add: st_total_def)
  moreover have "opened st pm a"
  proof -
    define d where "d = disk_put (wd_disk wd) p (page_disk pg)"
    have keys: "map fst (d_files d) = names" using disk_put_old [OF f, of "page_disk pg"] by (simp add: d_def names_def)
    have len: "length (d_files d) = length (d_files (wd_disk wd))" using arg_cong [OF keys, of length] by (simp add: names_def)
    have "(\<exists>q. page_fine q \<and> g = page_disk q) \<and> (files_log g = [] \<longrightarrow> length (d_files d) = 1)" if "disk_get d p' = Some g" for p' g
      using that cl f pg(2,3) q(2) len by (cases "p' = p") (auto simp: closed_disk_def d_def)
    moreover have "d_files d \<noteq> []" using keys ne(1) by auto
    moreover have "wd_disk (st_world st) = d" "wd_instance (st_world st) = Some pm" "pm_page_list pm = names"
      by (simp_all add: st_def wd3_def d_def pm_def)
    ultimately show ?thesis using keys ne(3) st0(2,4,5) by (simp add: opened_def) (simp add: st_def)
  qed
  moreover have "st_sched st = sched" "rested (st_writer st)" using st0(6,7) by (simp_all add: st_def)
  ultimately show ?thesis by (intro that [of st pm a])
qed

section \<open>Querying an opened storage\<close>

text \<open>A thread without work leaves the pages alone.\<close>

definition quiet :: "storage \<Rightarrow> bool" where
  "quiet st \<longleftrightarrow> served (st_writer st) = []"

lemma quiet_run: "writer_run env k st = Inr st' \<Longrightarrow> quiet st \<Longrightarrow> quiet st' \<and> st_world st' = st_world st"
proof (induction k arbitrary: st)
  case (Suc k)
  have step: "quiet st1 \<and> st_world st1 = st_world st" if "writer_step env st = Inr (Some st1)" for st1
    using that Suc.prems(2)
    by (cases "w_pc (st_writer st)")
      (auto simp: writer_step_def worker_next_def quiet_def served_def in_flight_def bind_r_eq_Inr split: option.splits if_splits)
  obtain r where r: "writer_step env st = Inr r" "(case r of None \<Rightarrow> Inr st | Some st1 \<Rightarrow> writer_run env k st1) = Inr st'"
    using Suc.prems(1) by (auto simp: bind_r_eq_Inr)
  show ?case
  proof (cases r)
    case None
    then show ?thesis using r(2) Suc.prems(2) by simp
  next
    case (Some st1)
    then show ?thesis using r step [of st1] Suc.IH [of st1] by simp
  qed
qed simp

lemma quiet_wait:
  assumes "\<And>s s'. act s = Some s' \<Longrightarrow> quiet s' = quiet s \<and> st_world s' = st_world s"
  shows "wait_for env act ks st = Inr st' \<Longrightarrow> quiet st \<Longrightarrow> quiet st' \<and> st_world st' = st_world st"
proof (induction ks arbitrary: st)
  case (Cons k ks)
  then obtain st1 where g: "writer_run env k (st\<lparr>st_sched := ks\<rparr>) = Inr st1" by (auto simp: bind_r_eq_Inr)
  have q: "quiet st1" "st_world st1 = st_world st" using quiet_run [OF g] Cons.prems(2) by (simp_all add: quiet_def)
  show ?case using Cons.prems(1) Cons.IH [of st1] g q assms [of st1] by (cases "act st1") auto
qed simp

lemma quiet_flush_pause:
  assumes "quiet st" and "st_cache st = Some a" and "c_size (st_heap st ! a) = 0" and "flush_and_stop env st = Inr st1"
    and "storage_pause env st1 = Inr st2"
  shows "st_world st2 = st_world st"
proof -
  have "wait_for env idle (st_sched st) st = Inr st1" using assms(2-4) by (simp add: flush_and_stop_def writeCache_def)
  moreover have "quiet s' = quiet s \<and> st_world s' = st_world s" if "idle s = Some s'" for s s'
    using that by (simp add: idle_def split: if_splits)
  ultimately have 1: "quiet st1" "st_world st1 = st_world st" using quiet_wait [of idle env "st_sched st" st st1] assms(1) by simp_all
  have "quiet s' = quiet s \<and> st_world s' = st_world s" if "try_pause s = Some s'" for s s'
    using that by (auto simp: try_pause_def pause_work_def quiet_def served_def in_flight_def split: if_splits)
  then show ?thesis using quiet_wait [of try_pause env "st_sched st1" st1 st2] assms(5) 1 by (simp add: storage_pause_def)
qed

lemma opened_query_ok:
  assumes srt: "std_sort later_page (e_sort_pages env)" and op: "opened st pm a"
    and q: "storage_readInterval env st ids source flag from to = Inr (st', sr)" and rs: "0 < rs"
    and ne: "mset (disk_log (wd_disk (st_world st))) \<noteq> {#}"
    and times: "\<forall>m \<in># mset (disk_log (wd_disk (st_world st))). from < m_time m \<and> m_time m \<le> to"
  shows "\<exists>j s' out. readAll sr_isEnd (sr_readNext rs) j (wd_disk (st_world st'), sr) [] = Inr (s', out) \<and> sr_isEnd s' \<and>
    mset out = filter_mset (matches ids source flag from to) (mset (disk_log (wd_disk (st_world st))))"
proof -
  define d where "d = wd_disk (st_world st)"
  have o: "wd_instance (st_world st) = Some pm" "distinct (map fst (d_files d))" "pm_page_list pm = map fst (d_files d)" "d_files d \<noteq> []"
    "\<forall>p f. disk_get d p = Some f \<longrightarrow> (\<exists>q. page_fine q \<and> f = page_disk q) \<and> (files_log f = [] \<longrightarrow> length (d_files d) = 1)"
    "served (st_writer st) = []" "st_cache st = Some a" "c_size (st_heap st ! a) = 0"
    using op unfolding opened_def Let_def d_def by blast+
  obtain s1 s2 wd pages where p: "flush_and_stop env st = Inr s1" "storage_pause env s1 = Inr s2"
      "pagesByTime (e_sort_pages env) (st_world s2) = Inr (wd, pages)" "st_world st' = wd"
    using q by (auto simp: storage_readInterval_def paused_pages_def bind_r_eq_Inr Let_def case_prod_beta storage_continue_def)
  have "st_world s2 = st_world st" by (rule quiet_flush_pause [OF _ o(7,8) p(1,2)]) (simp add: quiet_def o(6))
  then have wd: "wd_disk wd = d" "wd_instance wd = Some pm"
    using p(3) o(1,3,4) by (auto simp: pagesByTime_def pageList_def pm_get_def bind_r_eq_Inr pm_set_def d_def)
  have log: "disk_log d \<noteq> []" "\<forall>m \<in> set (disk_log d). from < m_time m \<and> m_time m \<le> to" using ne times by (simp_all add: d_def)
  have "\<exists>f. disk_get d p = Some f \<and> readable from to f \<and> filters_sound f \<and> from < h_minTime (pf_header f)"
    if mem: "p \<in> set (pm_page_list pm)" for p
  proof -
    obtain f where f: "disk_get d p = Some f" using mem o(3) by (auto simp: disk_get_def dest: weak_map_of_SomeI)
    obtain g where g: "page_fine g" "f = page_disk g" using o(5) f by blast
    have "files_log f \<noteq> []" using alone_empty [OF f] o(5) f log(1) by blast
    then show ?thesis using fine_file_readable [OF f _ log(2)] g f by auto
  qed
  then have r: "\<forall>p \<in> set (pm_page_list pm). \<exists>f. disk_get (wd_disk (st_world st')) p = Some f \<and> readable from to f \<and> filters_sound f \<and>
      from < h_minTime (pf_header f)" by (simp add: p(4) wd(1))
  have dis: "distinct (pm_page_list pm)" "set (pm_page_list pm) = fst ` set (d_files d)" using o(2,3) by simp_all
  from whole_range_ok [OF srt q _ dis(1) r rs] p(4) wd page_sum [OF o(2) dis, of "matches ids source flag from to"]
  show ?thesis by (simp add: d_def)
qed

text \<open>Such a query returns when the thread keeps up.\<close>

lemma quiet_writer_run:
  assumes "served (st_writer st) = []"
  shows "writer_run env k st = Inr (st\<lparr>st_writer := worker_run k (st_writer st)\<rparr>)"
  using assms
proof (induction k arbitrary: st)
  case (Suc k)
  show ?case
  proof (cases "worker_next (st_writer st)")
    case None
    then show ?thesis by (simp add: writer_step_def)
  next
    case (Some w')
    then have "served w' = []" "writer_step env st = Inr (Some (st\<lparr>st_writer := w'\<rparr>))"
      using Suc.prems served_next [OF Some] by (auto simp: writer_step_def split: thread_pc.splits)
    with Suc.IH [of "st\<lparr>st_writer := w'\<rparr>"] Some show ?thesis by simp
  qed
qed simp

lemma opened_query_returns:
  assumes op: "opened st pm a" and c: "calm st" and sched: "2 \<le> length (st_sched st)"
  obtains st' sr where "storage_readInterval env st ids source flag from to = Inr (st', sr)"
proof -
  define d where "d = wd_disk (st_world st)"
  have o: "wd_instance (st_world st) = Some pm" "pm_page_list pm = map fst (d_files d)" "d_files d \<noteq> []"
    "served (st_writer st) = []" "st_cache st = Some a" "c_size (st_heap st ! a) = 0"
    using op unfolding opened_def Let_def d_def by blast+
  obtain q1 q2 ks where ks: "st_sched st = q1 # q2 # ks" using sched by (auto simp: Suc_le_length_iff numeral_2_eq_2)
  have look: "rested (worker_run q w)" "served (worker_run q w) = []" if "rested w" "q \<in> {q1, q2}" for q and w :: "nat AsyncWorker"
  proof -
    have "11 \<le> q" using c ks that(2) by (auto simp: calm_def)
    then show "rested (worker_run q w)" using rested_run(1) [of w q] restedD(1,5) [OF that(1)] by simp
    then show "served (worker_run q w) = []" using restedD(3,4) [of "worker_run q w"] by (simp add: served_def)
  qed
  define st1 where "st1 = st\<lparr>st_sched := q2 # ks, st_writer := worker_run q1 (st_writer st)\<rparr>"
  have c1: "calm st1" using look(1) [of "st_writer st" q1] c ks by (simp add: calm_def st1_def)
  have fl: "flush_and_stop env st = Inr st1"
    using o(4-6) ks calm_idle [OF c1] by (simp add: flush_and_stop_def writeCache_def quiet_writer_run st1_def)
  define st2 where "st2 = st1\<lparr>st_sched := ks, st_writer := worker_run q2 (st_writer st1)\<rparr>"
  have w1: "rested (st_writer st1)" "served (st_writer st1) = []" using look [of "st_writer st" q1] c by (simp_all add: calm_def st1_def)
  have c2: "calm st2" using look(1) [OF w1(1), of q2] c ks by (simp add: calm_def st2_def)
  have pa: "storage_pause env st1 = Inr (paused st2)"
    using calm_pause(1) [OF c2] w1(2) by (simp add: storage_pause_def st2_def) (simp add: st1_def quiet_writer_run)
  have world: "st_world (paused st2) = st_world st" by (simp add: paused_def st2_def st1_def)
  have "\<forall>p \<in> set (pm_page_list pm). disk_get d p \<noteq> None" by (simp add: o(2) disk_get_def map_of_eq_None_iff)
  from read_infos_returns [OF this] obtain infos where "read_infos d (pm_page_list pm) = Inr infos" by blast
  then obtain wd pages where "pagesByTime (e_sort_pages env) (st_world (paused st2)) = Inr (wd, pages)"
    using o(1-3) world by (auto simp: pagesByTime_def pageList_def pm_get_def pm_set_def d_def)
  then show ?thesis using that fl pa by (simp add: storage_readInterval_def paused_pages_def Let_def case_prod_beta)
qed

lemma no_page_of_size_0: "page_Create old_index old_window 0 \<noteq> Inr pg"
  by (auto simp: page_Create_def bind_r_eq_Inr sizeof_defs)

lemma createNewPage_size_0:
  assumes "wd_instance wd = Some pm" and "pm_default_page_size pm = 0"
  shows "\<exists>e. createNewPage time wd = Inl e"
proof -
  have "createNewPage time wd \<noteq> Inr wd'" for wd'
    using assms no_page_of_size_0 by (auto simp: createNewPage_def pm_get_def bind_r_eq_Inr)
  then show ?thesis by (cases "createNewPage time wd") auto
qed

text \<open>With a thread that keeps up the destructor returns.\<close>

lemma ready_Close:
  assumes srt: "std_sort MeasCmpByTime (e_sort env)" and r: "ready n S p k st extra" and k: "7 \<le> k" "2 \<le> p"
  obtains st' where "storage_Close env st = Inr st'"
proof -
  obtain a where d: "st_inv n st extra" "calm st" "st_cache st = Some a" "k \<le> length (st_sched st)" using r by (rule readyD)
  have "stocked S (Suc 0) st" using ready_stocked [OF r, of "Suc 0"] k by simp
  from stocked_writeCache [OF srt d(1,3) this] obtain st1 b where
    w: "writeCache env st = Inr st1" "st_inv n st1 extra" "moved_on 1 st st1" by metis
  have c1: "calm st1" "6 \<le> length (st_sched st1)" using w(3) d(2,4) k(1) by (auto simp: moved_on_def)
  then obtain q0 q1 q2 q3 q4 q5 ks where ks: "st_sched st1 = q0 # q1 # q2 # q3 # q4 # q5 # ks"
    by (auto simp: Suc_le_length_iff eval_nat_numeral)
  obtain st2 where s2: "wait_for env idle (st_sched st1) st1 = Inr st2" "st_inv n st2 extra" "st_sched st2 = q1 # q2 # q3 # q4 # q5 # ks"
    "calm st2" "w_pc (st_writer st2) = Waiting"
    by (rule calm_wait [OF srt w(2) c1(1) ks, of idle "\<lambda>s. s"]) (auto simp: calm_idle)
  obtain wk where kill: "storage_kill env (st_sched st2) st2 = Inr (st2\<lparr>st_writer := wk, st_sched := ks\<rparr>)" by (rule calm_kill [OF s2(4,5,3)])
  obtain pm name pg where "writer_ok n (st_world st2) pm name pg" using s2(2) by (auto simp: st_inv_def data_inv_def Let_def)
  then obtain wd' where cl: "closeCurrentPage (st_world st2) = Inr wd'" by (rule close_current)
  have "\<not> stoped (st_writer st)" "\<not> stoped (st_writer st1)" using d(2) c1(1) by (simp_all add: calm_def rested_def awake_def stoped_def)
  then show ?thesis using that w(1) s2(1) kill cl by (simp add: storage_Close_def storage_stop_def)
qed

section \<open>Properties of closing and opening\<close>

text \<open>
  C3. Measurements survive a restart: when the destructor of a storage has returned, under any schedule, the pages hold exactly what the storage held, the
  measurements of the current cache and of the queue included. Opening it again succeeds, and with a thread that keeps up every query of the opened storage
  over an interval that includes all times returns and delivers, when its reader is drained to the end, exactly the matching ones
  among them, each once. The destructor does return when the thread of the storage keeps up.
\<close>

theorem close_open_query:
  assumes "std_sort MeasCmpByTime (e_sort env)" and "std_sort later_page (e_sort_pages env)" and "st_inv n st []" and "running (st_writer st)"
    and "\<not> st_closed st" and "2 \<le> length sched" and "length sched < 2 ^ 31" and "\<forall>q \<in> set sched. 11 \<le> q" and "0 < rs"
    and "st_total st \<noteq> {#}" and "\<forall>m \<in># st_total st. from < m_time m \<and> m_time m \<le> to"
  shows "(\<forall>st1. storage_destroy env st = Inr st1 \<longrightarrow> mset (disk_log (wd_disk (st_world st1))) = st_total st \<and>
      (\<exists>st2. storage_Open True flag0 work sched (st_world st1) path = Inr st2 \<and> st_total st2 = st_total st \<and>
        (\<forall>ids source flag. \<exists>st3 sr j s' out. storage_readInterval env st2 ids source flag from to = Inr (st3, sr) \<and>
           readAll sr_isEnd (sr_readNext rs) j (wd_disk (st_world st3), sr) [] = Inr (s', out) \<and> sr_isEnd s' \<and>
           mset out = filter_mset (matches ids source flag from to) (st_total st)))) \<and>
    (ready n S 2 7 st [] \<longrightarrow> (\<exists>st1. storage_destroy env st = Inr st1))"
proof (intro conjI allI impI)
  fix st1 assume "storage_destroy env st = Inr st1"
  then have close: "storage_Close env st = Inr st1" using assms(5) by (simp add: storage_destroy_def)
  note c = storage_Close_ok [OF assms(1,3,4) close]
  show "mset (disk_log (wd_disk (st_world st1))) = st_total st" by (rule c(1))
  obtain st2 pm a where op: "storage_Open True flag0 work sched (st_world st1) path = Inr st2" "opened st2 pm a"
      "mset (disk_log (wd_disk (st_world st2))) = mset (disk_log (wd_disk (st_world st1)))" "st_total st2 = mset (disk_log (wd_disk (st_world st1)))"
      "st_sched st2 = sched" "rested (st_writer st2)"
    by (rule storage_Open_ok [OF c(2,4) assms(7)])
  have log: "mset (disk_log (wd_disk (st_world st2))) = st_total st" using op(3) c(1) by simp
  have calm: "calm st2" "2 \<le> length (st_sched st2)" using op(5,6) assms(6,8) by (simp_all add: calm_def)
  have "\<exists>st3 sr j s' out. storage_readInterval env st2 ids source flag from to = Inr (st3, sr) \<and>
      readAll sr_isEnd (sr_readNext rs) j (wd_disk (st_world st3), sr) [] = Inr (s', out) \<and> sr_isEnd s' \<and>
      mset out = filter_mset (matches ids source flag from to) (st_total st)" for ids source flag
  proof -
    obtain st3 sr where q: "storage_readInterval env st2 ids source flag from to = Inr (st3, sr)" by (rule opened_query_returns [OF op(2) calm])
    from opened_query_ok [OF assms(2) op(2) q assms(9), unfolded log, OF assms(10,11)] q show ?thesis by blast
  qed
  then show "\<exists>st2. storage_Open True flag0 work sched (st_world st1) path = Inr st2 \<and> st_total st2 = st_total st \<and>
      (\<forall>ids source flag. \<exists>st3 sr j s' out. storage_readInterval env st2 ids source flag from to = Inr (st3, sr) \<and>
         readAll sr_isEnd (sr_readNext rs) j (wd_disk (st_world st3), sr) [] = Inr (s', out) \<and> sr_isEnd s' \<and>
         mset out = filter_mset (matches ids source flag from to) (st_total st))"
    using op(1,4) c(1) by auto
next
  assume "ready n S 2 7 st []"
  then obtain st1 where "storage_Close env st = Inr st1" by (rule ready_Close [OF assms(1)]) simp_all
  then show "\<exists>st1. storage_destroy env st = Inr st1" using assms(5) by (simp add: storage_destroy_def)
qed

theorem close_open_query_witness:
  "\<exists>env wd st1 st2 st3 sr j s' out. storage_destroy env (small_storage (replicate 7 11) wd) = Inr st1 \<and>
    storage_Open True True False [11, 11] (st_world st1) ''db'' = Inr st2 \<and> storage_readInterval env st2 [7] 0 0 1 20 = Inr (st3, sr) \<and>
    readAll sr_isEnd (sr_readNext 4) j (wd_disk (st_world st3), sr) [] = Inr (s', out) \<and>
    mset out = {#meas_stored (empty_meas\<lparr>m_size := 8, m_time := 3, m_id := 7\<rparr>)#}"
proof -
  let ?m = "empty_meas\<lparr>m_size := 8, m_time := 3, m_id := 7\<rparr>" and ?sched = "replicate 7 (11 :: nat)"
  let ?env = "\<lparr>e_sort = sort_key m_time, e_sort_pages = \<lambda>ps. rev (sort_key (\<lambda>p. h_maxTime (pi_header p)) ps), e_time = \<lambda>_ _. 7\<rparr>"
  obtain wd where w: "st_inv 10000 (small_storage ?sched wd) []" "st_total (small_storage ?sched wd) = {#meas_stored ?m#}"
    by (rule small_storage_one [of ?m ?sched]) (simp_all add: sample_meas8)
  let ?st = "small_storage ?sched wd"
  have run: "running (st_writer ?st)" "\<not> st_closed ?st" by (simp_all add: small_storage_def running_def worker_start_def new_worker_def)
  have rdy: "ready 10000 2 2 7 ?st []" by (rule small_storage_ready [OF w(1)]) simp_all
  have srt: "std_sort MeasCmpByTime (e_sort ?env)" "std_sort later_page (e_sort_pages ?env)" by (simp_all add: std_sort_exists sort_pages_ok)
  have "(\<forall>st1. storage_destroy ?env ?st = Inr st1 \<longrightarrow> mset (disk_log (wd_disk (st_world st1))) = st_total ?st \<and>
      (\<exists>st2. storage_Open True True False [11, 11] (st_world st1) ''db'' = Inr st2 \<and> st_total st2 = st_total ?st \<and>
        (\<forall>ids source flag. \<exists>st3 sr j s' out. storage_readInterval ?env st2 ids source flag 1 20 = Inr (st3, sr) \<and>
           readAll sr_isEnd (sr_readNext 4) j (wd_disk (st_world st3), sr) [] = Inr (s', out) \<and> sr_isEnd s' \<and>
           mset out = filter_mset (matches ids source flag 1 20) (st_total ?st)))) \<and>
    (ready 10000 2 2 7 ?st [] \<longrightarrow> (\<exists>st1. storage_destroy ?env ?st = Inr st1))"
    by (rule close_open_query [OF srt w(1) run]) (simp_all add: w(2) empty_meas_def)
  moreover have "filter_mset (matches [7] 0 0 1 20) {#meas_stored ?m#} = {#meas_stored ?m#}" by (simp add: matches_def empty_meas_def)
  ultimately show ?thesis using rdy unfolding w(2) by metis
qed

text \<open>
  C33. A storage that was opened cannot go on to a new page: opening does not set the size of new pages, which stays zero, and creating a
  page of that size fails, whatever the clock shows.
\<close>

theorem opened_cannot_grow:
  assumes "storage_Open exists flag work sched wd path = Inr st"
  shows "\<exists>e. createNewPage time (st_world st) = Inl e"
proof -
  obtain pm where "wd_instance (st_world st) = Some pm" "pm_default_page_size pm = 0"
    using assms
    by (auto simp: storage_Open_def bind_r_eq_Inr pm_start_def getOldesPage_def pageList_def pm_get_def pm_set_def pm_open_def Let_def
        split: if_splits option.splits)
  then show ?thesis by (rule createNewPage_size_0)
qed

theorem opened_cannot_grow_witness:
  "\<exists>wd st e. storage_Open True True False [] wd ''db'' = Inr st \<and> createNewPage (\<lambda>_. 5) (st_world st) = Inl e"
proof -
  obtain wd pm pg where "writer_ok 10000 wd pm ''a'' pg" by (rule fresh_writer [of 10000]) auto
  then obtain wd' where w: "closeCurrentPage wd = Inr wd'" "closed_disk (wd_disk wd')" by (rule close_current)
  obtain st where "storage_Open True True False [] (pm_stop wd') ''db'' = Inr st"
    by (rule storage_Open_ok [of "pm_stop wd'" "[]"]) (use w(2) in \<open>auto simp: pm_stop_def\<close>)
  with opened_cannot_grow [OF this] show ?thesis by blast
qed

end
