(* ===== verification/Storage_Session.thy ===== *)
theory Storage_Session
  imports Storage_Life
begin

text \<open>
  Sessions: sequences of requests to a storage, and the multiset of measurements as their specification. A session uses the
  public operations only, among them the derived ones of \<^verbatim>\<open>MetaStorage\<close>, and drains the reader of a query before it goes on.
\<close>

section \<open>Requests\<close>

datatype request =
  Append meas | Append_array "meas list" | Append_list "meas list" | Query "Id list" Flag Flag Time Time | Query_any Time Time

datatype reply = Written append_result | Answer "meas list"

text \<open>Asking and reading to the end; \<open>rs\<close> is \<^verbatim>\<open>PageReader::ReadSize\<close>, \<open>j\<close> bounds the calls of \<^verbatim>\<open>readNext\<close>.\<close>

definition drain :: "nat \<Rightarrow> nat \<Rightarrow> storage \<times> StorageReader \<Rightarrow> (storage \<times> reply) result" where
  "drain rs j q = (case q of (st, sr) \<Rightarrow>
     bind_r (readAll sr_isEnd (sr_readNext rs) j (wd_disk (st_world st), sr) []) (\<lambda>(s, out). Inr (st, Answer out)))"

fun serve :: "env \<Rightarrow> (nat \<Rightarrow> Time) \<Rightarrow> nat \<Rightarrow> nat \<Rightarrow> nat \<Rightarrow> request \<Rightarrow> storage \<Rightarrow> (storage \<times> reply) result" where
  "serve env clock fuel rs j (Append m) st =
     bind_r (storage_append fuel env clock st m) (\<lambda>(st', r). Inr (st', Written r))"
| "serve env clock fuel rs j (Append_array ms) st =
     bind_r (append_array (storage_append_many fuel env clock) st ms) (\<lambda>(st', r). Inr (st', Written r))"
| "serve env clock fuel rs j (Append_list ms) st =
     bind_r (append_list (storage_append fuel env clock) st ms) (\<lambda>(st', r). Inr (st', Written r))"
| "serve env clock fuel rs j (Query ids source flag from to) st =
     bind_r (storage_readInterval env st ids source flag from to) (drain rs j)"
| "serve env clock fuel rs j (Query_any from to) st =
     bind_r (readInterval_any (storage_readInterval env) st from to) (drain rs j)"

fun serve_all :: "env \<Rightarrow> (nat \<Rightarrow> Time) \<Rightarrow> nat \<Rightarrow> nat \<Rightarrow> nat \<Rightarrow> request list \<Rightarrow> storage \<Rightarrow> (storage \<times> reply list) result" where
  "serve_all env clock fuel rs j [] st = Inr (st, [])"
| "serve_all env clock fuel rs j (r # rqs) st = bind_r (serve env clock fuel rs j r st) (\<lambda>(st1, a).
     bind_r (serve_all env clock fuel rs j rqs st1) (\<lambda>(st2, as). Inr (st2, a # as)))"

section \<open>The specification\<close>

text \<open>What a request adds to the multiset, and when a reply is right for the multiset before the request.\<close>

fun new_of :: "request \<Rightarrow> meas list" where
  "new_of (Append m) = [m]"
| "new_of (Append_array ms) = ms"
| "new_of (Append_list ms) = ms"
| "new_of _ = []"

fun right_reply :: "meas multiset \<Rightarrow> request \<Rightarrow> reply \<Rightarrow> bool" where
  "right_reply M (Query ids source flag from to) a \<longleftrightarrow>
     (\<exists>out. a = Answer out \<and> mset out = filter_mset (matches ids source flag from to) M)"
| "right_reply M (Query_any from to) a \<longleftrightarrow> (\<exists>out. a = Answer out \<and> mset out = M)"
| "right_reply M r a \<longleftrightarrow> a = Written \<lparr>writed = length (new_of r), ignored = 0\<rparr>"

definition after :: "meas multiset \<Rightarrow> request \<Rightarrow> meas multiset" where
  "after M r = M + mset (map meas_stored (new_of r))"

fun right_replies :: "meas multiset \<Rightarrow> request list \<Rightarrow> reply list \<Rightarrow> bool" where
  "right_replies M [] as \<longleftrightarrow> as = []"
| "right_replies M (r # rqs) as \<longleftrightarrow> (\<exists>a as'. as = a # as' \<and> right_reply M r a \<and> right_replies (after M r) rqs as')"

text \<open>A query has to include all times, and something must have been appended before.\<close>

fun askable :: "meas multiset \<Rightarrow> request \<Rightarrow> bool" where
  "askable M (Query ids source flag from to) \<longleftrightarrow> M \<noteq> {#} \<and> (\<forall>m \<in># M. from < m_time m \<and> m_time m \<le> to)"
| "askable M (Query_any from to) \<longleftrightarrow> M \<noteq> {#} \<and> (\<forall>m \<in># M. from < m_time m \<and> m_time m \<le> to)"
| "askable M (Append_array ms) \<longleftrightarrow> length ms < 970000"
| "askable M _ \<longleftrightarrow> True"

fun all_askable :: "meas multiset \<Rightarrow> request list \<Rightarrow> bool" where
  "all_askable M [] \<longleftrightarrow> True"
| "all_askable M (r # rqs) \<longleftrightarrow> askable M r \<and> all_askable (after M r) rqs"

text \<open>How many looks of the client a request may take.\<close>

fun looks :: "request \<Rightarrow> nat" where
  "looks (Append m) = 1"
| "looks (Append_array ms) = length ms div 10000 + 2"
| "looks (Append_list ms) = length ms"
| "looks _ = 3"

section \<open>Serving one request\<close>

lemma readAll_more:
  "readAll isEnd readNext j s acc = Inr r \<Longrightarrow> j \<le> j' \<Longrightarrow> readAll isEnd readNext j' s acc = Inr r"
proof (induction j arbitrary: j' s acc)
  case 0
  then show ?case by (cases "isEnd s") (simp_all add: readAll.simps [of _ _ 0])
next
  case (Suc j)
  then obtain i where i: "j' = Suc i" "j \<le> i" by (metis Suc_le_D Suc_le_mono)
  show ?case
  proof (cases "isEnd s")
    case False
    then show ?thesis using Suc.prems(1) Suc.IH [OF _ i(2)]
      by (auto simp: readAll.simps [of _ _ "Suc j"] readAll.simps [of _ _ "Suc i"] i(1) bind_r_eq_Inr)
  qed (use Suc.prems in simp)
qed

lemma ready_append_list:
  assumes srt: "std_sort MeasCmpByTime (e_sort env)" and "1 \<le> S" "2 \<le> p" "2 \<le> fuel"
  shows "ready n S p k st (ms @ extra) \<Longrightarrow> length ms \<le> k \<Longrightarrow>
    \<exists>st'. append_list_from (storage_append fuel env clock) st res ms = Inr (st', add_result res \<lparr>writed = length ms, ignored = 0\<rparr>) \<and>
      st_total st' = st_total st + mset (map meas_stored ms) \<and> ready n S p (k - length ms) st' extra"
proof (induction ms arbitrary: st res k)
  case Nil
  then show ?case by (simp add: add_result_def)
next
  case (Cons m ms)
  have "ready n S p k st (m # (ms @ extra))" "1 \<le> k" using Cons.prems by simp_all
  from ready_append [OF srt this(1) assms(2,3) this(2) assms(4)] obtain st1 where
    s: "storage_append fuel env clock st m = Inr (st1, \<lparr>writed = 1, ignored = 0\<rparr>)" "st_total st1 = st_total st + {#meas_stored m#}"
      "ready n S p (k - 1) st1 (ms @ extra)" by metis
  have "length ms \<le> k - 1" using Cons.prems(2) by simp
  from Cons.IH [OF s(3) this, of "add_result res \<lparr>writed = 1, ignored = 0\<rparr>"] obtain st' where
    "append_list_from (storage_append fuel env clock) st1 (add_result res \<lparr>writed = 1, ignored = 0\<rparr>) ms =
       Inr (st', add_result (add_result res \<lparr>writed = 1, ignored = 0\<rparr>) \<lparr>writed = length ms, ignored = 0\<rparr>)"
    "st_total st' = st_total st1 + mset (map meas_stored ms)" "ready n S p (k - 1 - length ms) st' extra" by blast
  then show ?case using s(1,2) by (simp add: add_result_def)
qed

lemma matches_any: "from < m_time m \<Longrightarrow> m_time m \<le> to \<Longrightarrow> matches [] 0 0 from to m"
  by (simp add: matches_def inInterval_def)

lemma ready_drain:
  assumes srt: "std_sort MeasCmpByTime (e_sort env)" "std_sort later_page (e_sort_pages env)" and r: "ready n S p k st extra"
    and k: "3 \<le> k" "2 \<le> p" and rs: "0 < rs" and ok: "st_total st \<noteq> {#}" "\<forall>m \<in># st_total st. from < m_time m \<and> m_time m \<le> to"
  obtains st' J out where "\<And>j. J \<le> j \<Longrightarrow> bind_r (storage_readInterval env st ids source flag from to) (drain rs j) = Inr (st', Answer out)"
    "st_total st' = st_total st" "ready n S p (k - 3) st' extra" "mset out = filter_mset (matches ids source flag from to) (st_total st)"
proof -
  obtain st' sr where q: "storage_readInterval env st ids source flag from to = Inr (st', sr)" "st_total st' = st_total st"
    "ready n S p (k - 3) st' extra"
    by (rule ready_query [OF srt r k])
  have inv: "st_inv n st extra" using r by (simp add: ready_def)
  from query_total_ok [OF srt inv q(1) rs ok] obtain J s' out where
    d: "readAll sr_isEnd (sr_readNext rs) J (wd_disk (st_world st'), sr) [] = Inr (s', out)"
      "mset out = filter_mset (matches ids source flag from to) (st_total st)" by blast
  have "bind_r (storage_readInterval env st ids source flag from to) (drain rs j) = Inr (st', Answer out)" if "J \<le> j" for j
    using q(1) readAll_more [OF d(1) that] by (simp add: drain_def)
  then show ?thesis using that q(2,3) d(2) by blast
qed

text \<open>Every request is served as the specification says, and the storage is ready for the next one.\<close>

lemma serve_ok:
  assumes srt: "std_sort MeasCmpByTime (e_sort env)" "std_sort later_page (e_sort_pages env)" and fuel: "98 < fuel" and rs: "0 < rs"
    and r: "ready n 10000 99 k st (new_of rq @ extra)" and ask: "askable (st_total st) rq" and k: "looks rq \<le> k"
  shows "\<exists>st' a J. (\<forall>j \<ge> J. serve env clock fuel rs j rq st = Inr (st', a)) \<and> right_reply (st_total st) rq a \<and>
    st_total st' = after (st_total st) rq \<and> ready n 10000 99 (k - looks rq) st' extra"
proof (cases rq)
  case (Append m)
  have "ready n 10000 99 k st (m # extra)" "1 \<le> k" using r k Append by simp_all
  then obtain st' where "storage_append fuel env clock st m = Inr (st', \<lparr>writed = 1, ignored = 0\<rparr>)"
    "st_total st' = st_total st + {#meas_stored m#}" "ready n 10000 99 (k - 1) st' extra"
    using ready_append [OF srt(1), of n 10000 99 k st m extra fuel clock] fuel by auto
  then show ?thesis using Append by (auto simp: after_def)
next
  case (Append_array ms)
  let ?j = "length ms div 10000 + 1"
  have "length ms \<le> 10000 * ?j" by simp
  moreover have "length ms div 10000 < 97" using ask Append_array by (intro less_mult_imp_div_less) simp
  then have "Suc ?j < 99" "?j < fuel" "Suc ?j \<le> k" using k fuel Append_array by auto
  moreover have "ready n 10000 99 k st (ms @ extra)" using r Append_array by simp
  ultimately obtain st' where s: "storage_append_many fuel env clock st ms = Inr (st', \<lparr>writed = length ms, ignored = 0\<rparr>)"
    "st_total st' = st_total st + mset (map meas_stored ms)" "ready n 10000 99 (k - Suc ?j) st' extra"
    using ready_append_many [OF srt(1)] by metis
  have less: "ready n 10000 99 (k - i) st0 e" if "ready n 10000 99 k st0 e" for i st0 e using that by (auto simp: ready_def)
  show ?thesis
  proof (cases "ms = []")
    case True
    then show ?thesis using Append_array r less [of st extra] by (auto simp: append_array_def empty_result_def after_def)
  next
    case False
    then show ?thesis using Append_array s by (auto simp: append_array_def after_def)
  qed
next
  case (Append_list ms)
  then have "ready n 10000 99 k st (ms @ extra)" "length ms \<le> k" using r k by simp_all
  from ready_append_list [OF srt(1) _ _ _ this, of fuel clock empty_result] fuel Append_list show ?thesis
    by (cases ms) (auto simp: append_list_def after_def empty_result_def add_result_def)
next
  case (Query ids source flag t0 t1)
  have pre: "ready n 10000 99 k st extra" "3 \<le> k" "st_total st \<noteq> {#}" "\<forall>m \<in># st_total st. t0 < m_time m \<and> m_time m \<le> t1"
    using r ask k Query by simp_all
  obtain st' J out where
    "\<And>j. J \<le> j \<Longrightarrow> bind_r (storage_readInterval env st ids source flag t0 t1) (drain rs j) = Inr (st', Answer out)"
    "st_total st' = st_total st" "ready n 10000 99 (k - 3) st' extra" "mset out = filter_mset (matches ids source flag t0 t1) (st_total st)"
    by (rule ready_drain [OF srt pre(1,2) _ rs pre(3,4), of ids source flag], simp) blast
  then show ?thesis using Query by (intro exI [of _ st'] exI [of _ "Answer out"] exI [of _ J]) (simp add: after_def)
next
  case (Query_any t0 t1)
  have pre: "ready n 10000 99 k st extra" "3 \<le> k" "st_total st \<noteq> {#}" "\<forall>m \<in># st_total st. t0 < m_time m \<and> m_time m \<le> t1"
    using r ask k Query_any by simp_all
  obtain st' J out where
    d: "\<And>j. J \<le> j \<Longrightarrow> bind_r (storage_readInterval env st [] 0 0 t0 t1) (drain rs j) = Inr (st', Answer out)"
      "st_total st' = st_total st" "ready n 10000 99 (k - 3) st' extra" "mset out = filter_mset (matches [] 0 0 t0 t1) (st_total st)"
    by (rule ready_drain [OF srt pre(1,2) _ rs pre(3,4), of "[]" 0 0], simp) blast
  have "filter_mset (matches [] 0 0 t0 t1) (st_total st) = st_total st"
    using ask Query_any by (auto simp: filter_mset_eq_conv matches_any)
  then show ?thesis using Query_any d by (intro exI [of _ st'] exI [of _ "Answer out"] exI [of _ J]) (simp add: after_def readInterval_any_def)
qed

lemma serve_all_ok:
  assumes srt: "std_sort MeasCmpByTime (e_sort env)" "std_sort later_page (e_sort_pages env)" and fuel: "98 < fuel" and rs: "0 < rs"
  shows "ready n 10000 99 k st (concat (map new_of rqs)) \<Longrightarrow> all_askable (st_total st) rqs \<Longrightarrow> sum_list (map looks rqs) \<le> k \<Longrightarrow>
    \<exists>st' as J. (\<forall>j \<ge> J. serve_all env clock fuel rs j rqs st = Inr (st', as)) \<and> right_replies (st_total st) rqs as \<and>
      st_total st' = foldl after (st_total st) rqs"
proof (induction rqs arbitrary: st k)
  case Nil
  then show ?case by auto
next
  case (Cons r rqs)
  have "ready n 10000 99 k st (new_of r @ concat (map new_of rqs))" "askable (st_total st) r" "looks r \<le> k" using Cons.prems by simp_all
  from serve_ok [OF srt fuel rs this, of clock] obtain st1 a J1 where
    s1: "\<forall>j \<ge> J1. serve env clock fuel rs j r st = Inr (st1, a)" "right_reply (st_total st) r a" "st_total st1 = after (st_total st) r"
      "ready n 10000 99 (k - looks r) st1 (concat (map new_of rqs))" by blast
  have "all_askable (st_total st1) rqs" "sum_list (map looks rqs) \<le> k - looks r" using Cons.prems(2,3) s1(3) by simp_all
  from Cons.IH [OF s1(4) this] obtain st' as J2 where
    s2: "\<forall>j \<ge> J2. serve_all env clock fuel rs j rqs st1 = Inr (st', as)" "right_replies (st_total st1) rqs as"
      "st_total st' = foldl after (st_total st1) rqs" by blast
  have "\<forall>j \<ge> max J1 J2. serve_all env clock fuel rs j (r # rqs) st = Inr (st', a # as)" using s1(1) s2(1) by simp
  then show ?case using s1(2,3) s2(2,3) by (intro exI [of _ st'] exI [of _ "a # as"] exI [of _ "max J1 J2"]) simp
qed

end
